(* ===== verification/Prelude.thy ===== *)
theory Prelude
  imports Main "HOL-Library.Word"
begin

text \<open>
  The shared vocabulary of the development: how a C++ run can go wrong (\<open>fault\<close>), the
  result type of every fallible operation (\<open>'a res\<close>), sequencing of such operations
  (\<open>bindR\<close>), arrays that are overwritten in place (\<open>poke\<close>), the conversion to a C
  \<open>int\<close>, and the rewrite rules that carry the component proofs.
\<close>

named_theorems res_simps \<open>rewriting of sequenced fallible operations\<close>
named_theorems layout_simps \<open>facts about byte buffers and offsets\<close>

subsection \<open>Faults and results\<close>

text \<open>
  A run that leaves the defined behaviour of C++ (or stops the process) ends in a fault. Every
  operation of the model that the code could end that way returns \<open>Inl\<close> of its fault.
\<close>

datatype fault =
    AssertFailed        \<comment> \<open>an \<open>assert\<close> of the source does not hold\<close>
  | NullDeref           \<comment> \<open>a null pointer is dereferenced\<close>
  | UseAfterFree        \<comment> \<open>a freed object is accessed\<close>
  | OutOfBounds         \<comment> \<open>an access outside an array\<close>
  | UninitRead          \<comment> \<open>a byte that was never written is used\<close>
  | SignedOverflow      \<comment> \<open>arithmetic overflow of a signed type\<close>
  | OutOfMemory         \<comment> \<open>an allocation fails and the code calls \<open>exit\<close>\<close>
  | NotOwner            \<comment> \<open>a mutex is unlocked by a thread that does not hold it\<close>
  | Uncaught            \<comment> \<open>an exception leaves the function a thread was started with\<close>
  | Exited              \<comment> \<open>the code calls \<open>exit\<close>\<close>

type_synonym 'a res = "fault + 'a"

definition bindR :: "'a res \<Rightarrow> ('a \<Rightarrow> 'b res) \<Rightarrow> 'b res" where
  "bindR m f = (case m of Inl e \<Rightarrow> Inl e | Inr x \<Rightarrow> f x)"

definition assertR :: "bool \<Rightarrow> unit res" where
  "assertR b = (if b then Inr () else Inl AssertFailed)"

lemma bindR_Inr [simp, res_simps]: "bindR (Inr x) f = f x"
  by (simp add: bindR_def)

lemma bindR_Inl [simp, res_simps]: "bindR (Inl e) f = Inl e"
  by (simp add: bindR_def)

lemma bindR_eq_Inr_iff: "bindR m f = Inr y \<longleftrightarrow> (\<exists>x. m = Inr x \<and> f x = Inr y)"
  by (cases m) auto

lemma bindR_assoc [res_simps]: "bindR (bindR m f) g = bindR m (\<lambda>x. bindR (f x) g)"
  by (cases m) auto

lemma bindR_return [simp, res_simps]: "bindR m Inr = m"
  by (cases m) auto

lemma bindR_cong [fundef_cong]:
  "m = m' \<Longrightarrow> (\<And>x. m' = Inr x \<Longrightarrow> f x = f' x) \<Longrightarrow> bindR m f = bindR m' f'"
  by (cases m') auto

lemma assertR_simps [simp, res_simps]:
  "assertR True = Inr ()" "assertR False = Inl AssertFailed"
  by (simp_all add: assertR_def)

text \<open>A fallible operation repeated over a list, left to right, stopping at the first fault.\<close>

fun foldR :: "('x \<Rightarrow> 's \<Rightarrow> 's res) \<Rightarrow> 'x list \<Rightarrow> 's \<Rightarrow> 's res" where
  "foldR f [] s = Inr s"
| "foldR f (x # xs) s = bindR (f x s) (foldR f xs)"

lemma foldR_Nil_eq [simp, res_simps]: "foldR f [] = Inr"
  by (rule ext) simp

lemma foldR_single [simp, res_simps]: "foldR f [x] = f x"
  by (rule ext) simp

lemma foldR_append [res_simps]: "foldR f (xs @ ys) s = bindR (foldR f xs s) (foldR f ys)"
proof (induction xs arbitrary: s)
  case (Cons x xs)
  then show ?case by (cases "f x s") auto
qed simp

lemma foldR_invariant:
  assumes "foldR f xs s = Inr t" "P s"
    and "\<And>x s t. x \<in> set xs \<Longrightarrow> P s \<Longrightarrow> f x s = Inr t \<Longrightarrow> P t"
  shows "P t"
  using assms
proof (induction xs arbitrary: s)
  case (Cons x xs)
  then obtain u where "f x s = Inr u" "foldR f xs u = Inr t"
    by (auto simp: bindR_eq_Inr_iff)
  with Cons show ?case by (metis list.set_intros)
qed simp

text \<open>
  Code with a loop that may run for ever yields \<open>'a res option\<close>: \<open>None\<close> if it does not
  return. \<open>bindO\<close> sequences two such pieces.
\<close>

definition bindO :: "'a res option \<Rightarrow> ('a \<Rightarrow> 'b res option) \<Rightarrow> 'b res option" where
  "bindO m f = (case m of None \<Rightarrow> None | Some (Inl e) \<Rightarrow> Some (Inl e) | Some (Inr x) \<Rightarrow> f x)"

lemma bindO_simps [simp, res_simps]:
  "bindO None f = None" "bindO (Some (Inl e)) f = Some (Inl e)" "bindO (Some (Inr x)) f = f x"
  by (simp_all add: bindO_def)

lemma bindO_Some_bindR [res_simps]: "bindO (Some m) (\<lambda>x. Some (f x)) = Some (bindR m f)"
  by (cases m) auto

lemma bindO_Inr: "bindO m f = Some (Inr y) \<longleftrightarrow> (\<exists>x. m = Some (Inr x) \<and> f x = Some (Inr y))"
  by (cases m; cases "the m") auto

subsection \<open>Systems that move in steps\<close>

text \<open>
  What the concurrent components share: a step of theirs that can be taken (it is not \<open>None\<close>) and
  that obeys some rules keeps an invariant and does not fault. \<open>g\<close> records what a client can see
  of the steps so far, as \<open>trace\<close> extends it.
\<close>

locale safe_steps =
  fixes step :: "'e \<Rightarrow> 's \<Rightarrow> 's res option"
    and inv :: "'g \<Rightarrow> 's \<Rightarrow> bool"
    and trace :: "'e \<Rightarrow> 's \<Rightarrow> 'g \<Rightarrow> 'g"
    and ok :: "'e \<Rightarrow> 's \<Rightarrow> bool"
  assumes step_law: "inv g s \<Longrightarrow> ok e s \<Longrightarrow> step e s = Some r \<Longrightarrow> \<exists>s'. r = Inr s' \<and> inv (trace e s g) s'"

context safe_steps begin

lemma no_fault: "inv g s \<Longrightarrow> ok e s \<Longrightarrow> step e s \<noteq> Some (Inl f)"
  using step_law by fastforce

lemma step_keeps: "inv g s \<Longrightarrow> ok e s \<Longrightarrow> step e s = Some (Inr s') \<Longrightarrow> inv (trace e s g) s'"
  using step_law by fastforce

end

text \<open>When every event has its own output and its own rules, the same holds of sequences of events.\<close>

locale logged_steps = safe_steps step inv "\<lambda>e s g. g @ out e" "\<lambda>e s. good e"
  for step :: "'e \<Rightarrow> 's \<Rightarrow> 's res option" and inv :: "'m list \<Rightarrow> 's \<Rightarrow> bool"
    and out :: "'e \<Rightarrow> 'm list" and good :: "'e \<Rightarrow> bool" +
  fixes steps :: "'e list \<Rightarrow> 's \<Rightarrow> 's res option"
  assumes steps_Nil: "steps [] s = Some (Inr s)"
    and steps_Cons: "steps (e # es) s = bindO (step e s) (steps es)"

context logged_steps begin

lemma steps_keep:
  "inv g s \<Longrightarrow> list_all good es \<Longrightarrow> steps es s = Some (Inr s') \<Longrightarrow> inv (g @ concat (map out es)) s'"
proof (induction es arbitrary: s g)
  case (Cons e es)
  from Cons.prems(3) obtain t where t: "step e s = Some (Inr t)" "steps es t = Some (Inr s')"
    unfolding steps_Cons bindO_Inr by blast
  have "inv (g @ out e) t" using step_keeps [OF Cons.prems(1) _ t(1)] Cons.prems(2) by simp
  from Cons.IH [OF this _ t(2)] Cons.prems(2) show ?case by simp
qed (simp add: steps_Nil)

lemma steps_append: "steps (es @ fs) s = bindO (steps es s) (steps fs)"
proof (induction es arbitrary: s)
  case (Cons e es)
  show ?case
  proof (cases "step e s")
    case (Some r)
    with Cons show ?thesis by (cases r) (simp_all add: steps_Cons)
  qed (simp add: steps_Cons)
qed (simp add: steps_Nil)

end

subsection \<open>Overwriting part of an array\<close>

text \<open>\<open>poke off bs cells\<close> is the array after \<open>memmove (cells + off, bs, length bs)\<close>.\<close>

definition poke :: "nat \<Rightarrow> 'a list \<Rightarrow> 'a list \<Rightarrow> 'a list" where
  "poke off bs cells = take off cells @ bs @ drop (off + length bs) cells"

lemma length_poke [simp, layout_simps]:
  "off + length bs \<le> length cells \<Longrightarrow> length (poke off bs cells) = length cells"
  by (simp add: poke_def)

lemma poke_Nil [simp, layout_simps]: "poke off [] cells = cells"
  by (simp add: poke_def)

lemma take_poke [layout_simps]:
  "off + length bs \<le> length cells \<Longrightarrow>
   take (off + length bs) (poke off bs cells) = take off cells @ bs"
  by (simp add: poke_def)

lemma take_poke_before [layout_simps]:
  "n \<le> off \<Longrightarrow> off \<le> length cells \<Longrightarrow> take n (poke off bs cells) = take n cells"
  by (simp add: poke_def min_def)

lemma poke_whole [simp, layout_simps]: "length bs = length cells \<Longrightarrow> poke 0 bs cells = bs"
  by (simp add: poke_def)

subsection \<open>Conversions of the C++ integer types\<close>

text \<open>The value of an \<open>int\<close> (32 bits, two's complement) that an integer is converted to.\<close>

definition to_int32 :: "int \<Rightarrow> int" where
  "to_int32 x = sint (word_of_int x :: 32 word)"

lemma to_int32_id [simp]: "- (2 ^ 31) \<le> x \<Longrightarrow> x < 2 ^ 31 \<Longrightarrow> to_int32 x = x"
  by (simp add: to_int32_def sint_sbintrunc' signed_take_bit_int_eq_self)

text \<open>Sums may wrap at every step or at the end.\<close>

lemma to_int32_add [simp]: "to_int32 (to_int32 a + b) = to_int32 (a + b)" "to_int32 (a + to_int32 b) = to_int32 (a + b)"
  by (simp_all add: to_int32_def wi_hom_add [symmetric])

lemma to_int32_idem [simp]: "to_int32 (to_int32 a) = to_int32 a"
  by (simp add: to_int32_def)

text \<open>The value of a \<open>uint32_t\<close> that a non-negative count is converted to.\<close>

lemma unat_less_exp: "unat (w :: 'a::len word) < 2 ^ LENGTH('a)"
  by (rule unsigned_less)

lemma unat_drop_bit: "unat (drop_bit n w) = drop_bit n (unat (w :: 'a::len word))"
  by (simp only: unsigned_drop_bit_eq) (simp add: take_bit_nat_eq_self unat_less_exp)

lemma unat_of_nat32 [simp]: "n < 2 ^ 32 \<Longrightarrow> unat (word_of_nat n :: 32 word) = n"
  by (simp add: unat_of_nat take_bit_nat_eq_self)

end
