(* ===== verification/ByteOrder.thy ===== *)
theory ByteOrder
  imports Prelude
begin

text \<open>
  Bytes of fixed-width integers as the host keeps them in memory, the byte swap of
  \<open>byteswap.h\<close>, and the endianness test of \<open>serialize/serialize.cpp\<close>. The host's byte
  order is a parameter: \<open>le\<close> is \<open>True\<close> on a little-endian machine.
\<close>

type_synonym byte = "8 word"

subsection \<open>Numbers as byte strings, least significant byte first\<close>

primrec nat_bytes :: "nat \<Rightarrow> nat \<Rightarrow> byte list" where
  "nat_bytes 0 x = []"
| "nat_bytes (Suc n) x = word_of_nat x # nat_bytes n (x div 256)"

primrec bytes_nat :: "byte list \<Rightarrow> nat" where
  "bytes_nat [] = 0"
| "bytes_nat (b # bs) = unat b + 256 * bytes_nat bs"

lemma length_nat_bytes [simp, layout_simps]: "length (nat_bytes n x) = n"
  by (induction n arbitrary: x) auto

lemma nat_bytes_4:
  "nat_bytes 4 x = [word_of_nat x, word_of_nat (x div 256), word_of_nat (x div 256 div 256),
     word_of_nat (x div 256 div 256 div 256)]"
proof -
  have "(4 :: nat) = Suc (Suc (Suc (Suc 0)))" by simp
  then show ?thesis by (simp only: nat_bytes.simps)
qed

lemma bytes_nat_bound: "bytes_nat bs < 256 ^ length bs"
proof (induction bs)
  case (Cons b bs)
  have "unat b < 256" using unat_less_exp [of b] by simp
  with Cons show ?case by simp
qed simp

lemma bytes_nat_nat_bytes: "bytes_nat (nat_bytes n x) = x mod 256 ^ n"
proof (induction n arbitrary: x)
  case (Suc n)
  have "unat (word_of_nat x :: byte) = x mod 256"
    by (simp add: unat_of_nat take_bit_eq_mod)
  with Suc show ?case by (simp add: mod_mult2_eq)
qed simp

lemma nat_bytes_bytes_nat: "nat_bytes (length bs) (bytes_nat bs) = bs"
proof (induction bs)
  case (Cons b bs)
  have b: "unat b < 256" using unat_less_exp [of b] by simp
  then have "(unat b + 256 * bytes_nat bs) div 256 = bytes_nat bs" by simp
  moreover have "(word_of_nat (unat b + 256 * bytes_nat bs) :: byte) = b"
  proof (rule word_unat_eq_iff [THEN iffD2])
    show "unat (word_of_nat (unat b + 256 * bytes_nat bs) :: byte) = unat b"
      using b by (simp only: unat_of_nat) (simp add: take_bit_eq_mod)
  qed
  ultimately show ?case using Cons by simp
qed simp

subsection \<open>The host's representation of a fixed-width integer\<close>

text \<open>
  \<open>store le n w\<close> is the content of the \<open>n\<close> bytes at \<open>&w\<close>; \<open>load\<close> reads an integer
  back from them. \<open>bswap\<close> is \<open>bswap_32\<close> for \<open>n = 4\<close> and \<open>bswap_64\<close> for \<open>n = 8\<close>.
\<close>

definition store :: "bool \<Rightarrow> nat \<Rightarrow> 'a::len word \<Rightarrow> byte list" where
  "store le n w = (if le then nat_bytes n (unat w) else rev (nat_bytes n (unat w)))"

definition load :: "bool \<Rightarrow> byte list \<Rightarrow> 'a::len word" where
  "load le bs = word_of_nat (bytes_nat (if le then bs else rev bs))"

definition bswap :: "nat \<Rightarrow> 'a::len word \<Rightarrow> 'a word" where
  "bswap n w = word_of_nat (bytes_nat (rev (nat_bytes n (unat w))))"

lemma length_store [simp, layout_simps]: "length (store le n w) = n"
  by (simp add: store_def)

lemma load_store:
  assumes "LENGTH('a::len) = 8 * n"
  shows "load le (store le n (w :: 'a word)) = w"
proof -
  have "unat w < 256 ^ n"
    using unat_less_exp [of w] assms by (simp add: power_mult)
  then have "bytes_nat (nat_bytes n (unat w)) = unat w"
    by (simp add: bytes_nat_nat_bytes)
  then show ?thesis by (simp add: load_def store_def)
qed

lemma nat_bytes_of_word:
  assumes "LENGTH('a::len) = 8 * length bs"
  shows "nat_bytes (length bs) (unat (word_of_nat (bytes_nat bs) :: 'a word)) = bs"
proof -
  have "bytes_nat bs < 2 ^ LENGTH('a)"
    using bytes_nat_bound [of bs] assms by (simp add: power_mult)
  then show ?thesis
    by (simp add: unat_of_nat take_bit_nat_eq_self nat_bytes_bytes_nat)
qed

text \<open>Swapping and then storing is storing in the other byte order.\<close>

lemma store_bswap:
  assumes "LENGTH('a::len) = 8 * n"
  shows "store le n (bswap n (w :: 'a word)) = store (\<not> le) n w"
proof -
  have "nat_bytes n (unat (bswap n w)) = rev (nat_bytes n (unat w))"
    using nat_bytes_of_word [where 'a = 'a, of "rev (nat_bytes n (unat w))"] assms
    by (simp add: bswap_def)
  then show ?thesis by (simp add: store_def)
qed

lemma bswap_bswap:
  assumes "LENGTH('a::len) = 8 * n"
  shows "bswap n (bswap n (w :: 'a word)) = w"
proof -
  have "store True n (bswap n (bswap n w)) = store True n w"
    by (simp add: store_bswap assms)
  then have "load True (store True n (bswap n (bswap n w))) = (load True (store True n w) :: 'a word)"
    by simp
  then show ?thesis by (simp add: load_store assms)
qed

lemma bswap_load_store:
  assumes "LENGTH('a::len) = 8 * n"
  shows "bswap n (load le (store (\<not> le) n w)) = (w :: 'a word)"
proof -
  have "load le (store (\<not> le) n w) = (load le (store le n (bswap n w)) :: 'a word)"
    by (simp add: store_bswap assms)
  then show ?thesis by (simp add: load_store bswap_bswap assms)
qed

subsection \<open>The endianness test of the serializer\<close>

text \<open>
  \<open>isLittleEndian\<close> looks at the first byte of the 16-bit value \<open>0x1234\<close>.
\<close>

definition isLittleEndian :: "bool \<Rightarrow> bool" where
  "isLittleEndian le = (store le 2 (0x1234 :: 16 word) ! 0 \<noteq> 0x12)"

lemma isLittleEndian_host [simp]: "isLittleEndian le = le"
proof -
  have "store True 2 (0x1234 :: 16 word) = [0x34, 0x12]" by code_simp
  moreover have "store False 2 (0x1234 :: 16 word) = [0x12, 0x34]" by code_simp
  ultimately show ?thesis by (cases le) (simp_all add: isLittleEndian_def)
qed

end
