(* ===== verification/ZigZag.thy ===== *)
theory ZigZag
  imports Prelude
begin

unbundle bit_operations_syntax

text \<open>
  The zigzag mapping of \<open>serialize/serialize.cpp\<close> (\<open>encodeZigZag16/32/64\<close> and
  \<open>decodeZigZag16/32/64\<close>): signed integers to unsigned ones, small absolute values to small
  codes. Signed and unsigned values are both words; a signed reading is \<open>sint\<close>.
\<close>

subsection \<open>Definitions\<close>

text \<open>
  The arithmetic the six functions share, on words of their width. The 16-bit versions compute
  in \<open>int\<close> and convert the result to 16 bits, which is the same arithmetic modulo \<open>2 ^ 16\<close>.
\<close>

definition zz_enc :: "'a::len word \<Rightarrow> 'a word" where
  "zz_enc v = (if sint v < 0 then (- v) * 2 - 1 else 2 * v)"

definition zz_dec :: "'a::len word \<Rightarrow> 'a word" where
  "zz_dec u = drop_bit 1 u XOR (- (u AND 1))"

text \<open>
  \<open>-value\<close> is computed in the promoted type of \<open>value\<close>: \<open>int\<close> for \<open>int16_t\<close>, where it
  cannot overflow, and \<open>int32_t\<close> or \<open>int64_t\<close> itself otherwise, where negating the least
  value is an overflow of a signed type.
\<close>

definition encodeZigZag16 :: "16 word \<Rightarrow> 16 word" where
  "encodeZigZag16 v = zz_enc v"

definition encodeZigZag32 :: "32 word \<Rightarrow> 32 word res" where
  "encodeZigZag32 v = (if sint v = - (2 ^ 31) then Inl SignedOverflow else Inr (zz_enc v))"

definition encodeZigZag64 :: "64 word \<Rightarrow> 64 word res" where
  "encodeZigZag64 v = (if sint v = - (2 ^ 63) then Inl SignedOverflow else Inr (zz_enc v))"

definition decodeZigZag16 :: "16 word \<Rightarrow> 16 word" where
  "decodeZigZag16 u = zz_dec u"

definition decodeZigZag32 :: "32 word \<Rightarrow> 32 word" where
  "decodeZigZag32 u = zz_dec u"

definition decodeZigZag64 :: "64 word \<Rightarrow> 64 word" where
  "decodeZigZag64 u = zz_dec u"

subsection \<open>The mapping on integers\<close>

lemma sint_range: "- (2 ^ (LENGTH('a) - 1)) \<le> sint (v :: 'a::len word)" "sint v < 2 ^ (LENGTH('a) - 1)"
  by (rule sint_ge, rule sint_lt)

lemma two_power_length: "(2 :: int) * 2 ^ (LENGTH('a::len) - 1) = 2 ^ LENGTH('a)"
  by (metis len_gt_0 power_Suc Suc_pred' One_nat_def)

lemma uint_of_int_range:
  "0 \<le> k \<Longrightarrow> k < 2 ^ LENGTH('a) \<Longrightarrow> uint (word_of_int k :: 'a::len word) = k"
  by (simp add: uint_word_of_int)

lemma sint_of_int_range:
  "- (2 ^ (LENGTH('a) - 1)) \<le> k \<Longrightarrow> k < 2 ^ (LENGTH('a) - 1) \<Longrightarrow>
   sint (word_of_int k :: 'a::len word) = k"
  by (simp add: sint_sbintrunc' signed_take_bit_int_eq_self)

lemma uint_zz_enc:
  "uint (zz_enc v) = (if sint v < 0 then - 2 * sint v - 1 else 2 * sint (v :: 'a::len word))"
proof (cases "sint v < 0")
  case True
  have "zz_enc v = (word_of_int (- 2 * sint v - 1) :: 'a word)"
    using True by (simp add: zz_enc_def)
  then show ?thesis
    using True sint_range(1) [of v] two_power_length [where 'a = 'a]
    by (simp only: if_True) (rule uint_of_int_range, linarith+)
next
  case False
  have "zz_enc v = (word_of_int (2 * sint v) :: 'a word)"
    using False by (simp add: zz_enc_def)
  then show ?thesis
    using False sint_range(2) [of v] two_power_length [where 'a = 'a]
    by (simp only: if_False) (rule uint_of_int_range, linarith+)
qed

lemma sint_zz_dec:
  "sint (zz_dec u) = (if even (uint u) then uint u div 2 else - (uint (u :: 'a::len word) div 2) - 1)"
proof -
  let ?k = "uint u div 2"
  have u: "0 \<le> uint u" "uint u < 2 ^ LENGTH('a)"
    by (simp_all add: unsigned_less)
  then have k: "0 \<le> ?k" "?k < 2 ^ (LENGTH('a) - 1)"
    using two_power_length [where 'a = 'a] by linarith+
  have "uint (drop_bit 1 u) = ?k"
    by (simp only: unsigned_drop_bit_eq) (simp add: drop_bit_eq_div take_bit_int_eq_self u)
  then have d: "drop_bit 1 u = (word_of_int ?k :: 'a word)"
    by (metis word_of_int_uint)
  have e: "u AND 1 = (if even (uint u) then 0 else 1)"
  proof -
    have "even u \<longleftrightarrow> even (uint u)"
      by transfer (simp add: even_take_bit_eq)
    then show ?thesis by (simp add: and_one_eq mod2_eq_if)
  qed
  show ?thesis
  proof (cases "even (uint u)")
    case True
    then have "zz_dec u = (word_of_int ?k :: 'a word)"
      unfolding zz_dec_def e d by simp
    moreover have "sint (word_of_int ?k :: 'a word) = ?k"
      by (rule sint_of_int_range) (use k in linarith)+
    ultimately show ?thesis using True by simp
  next
    case False
    then have "zz_dec u = NOT (word_of_int ?k :: 'a word)"
      unfolding zz_dec_def e d by simp
    also have "\<dots> = word_of_int (- ?k - 1)"
      by (simp add: not_eq_complement)
    finally have "zz_dec u = (word_of_int (- ?k - 1) :: 'a word)" .
    moreover have "sint (word_of_int (- ?k - 1) :: 'a word) = - ?k - 1"
      by (rule sint_of_int_range) (use k in linarith)+
    ultimately show ?thesis using False by simp
  qed
qed

lemma sint_eqI: "sint v = sint w \<Longrightarrow> v = w"
  by (simp add: signed_word_eqI)

lemma zz_dec_zz_enc [simp]: "zz_dec (zz_enc v) = v"
  by (rule sint_eqI) (simp add: sint_zz_dec uint_zz_enc, presburger)

lemma zz_enc_zz_dec [simp]: "zz_enc (zz_dec u) = u"
proof -
  have "uint (zz_enc (zz_dec u)) = uint u"
    unfolding uint_zz_enc sint_zz_dec using uint_nonnegative [of u] by presburger
  then show ?thesis by (simp add: word_uint_eq_iff)
qed

subsection \<open>Properties\<close>

text \<open>
  C34: Zigzag coding loses nothing. A signed value \<open>v\<close> is coded as \<open>2 v\<close> or, when negative, as
  \<open>- 2 v - 1\<close>, with no wrap-around, and decoding gives it back; every unsigned code is the code of
  its decoding. The 32- and 64-bit encoders fail on the least value of their type and on nothing
  else, since they negate it.
\<close>

theorem zigzag_codes:
  "decodeZigZag16 (encodeZigZag16 a) = a \<and> encodeZigZag16 (decodeZigZag16 a) = a \<and>
   uint (encodeZigZag16 a) = (if sint a < 0 then - 2 * sint a - 1 else 2 * sint a) \<and>
   (case encodeZigZag32 b of
      Inl e \<Rightarrow> e = SignedOverflow \<and> sint b = - (2 ^ 31)
    | Inr z \<Rightarrow> sint b \<noteq> - (2 ^ 31) \<and> decodeZigZag32 z = b \<and>
        uint z = (if sint b < 0 then - 2 * sint b - 1 else 2 * sint b)) \<and>
   (case encodeZigZag64 c of
      Inl e \<Rightarrow> e = SignedOverflow \<and> sint c = - (2 ^ 63)
    | Inr z \<Rightarrow> sint c \<noteq> - (2 ^ 63) \<and> decodeZigZag64 z = c \<and>
        uint z = (if sint c < 0 then - 2 * sint c - 1 else 2 * sint c))"
  by (simp add: encodeZigZag16_def encodeZigZag32_def encodeZigZag64_def decodeZigZag16_def
      decodeZigZag32_def decodeZigZag64_def uint_zz_enc)

end
