(* ===== verification/SerBuffer.thy ===== *)
theory SerBuffer
  imports ByteOrder
begin

text \<open>
  The container of \<open>class Serialize\<close> (\<open>serialize/serialize.h\<close>, \<open>serialize/serialize.cpp\<close>):
  the linked list of malloc'ed blocks a serializer writes into, the byte array a deserializer
  reads from, and the operations on them (constructors, \<open>reset\<close>, \<open>write\<close>, \<open>read\<close>,
  \<open>toString\<close>).

  The list of nodes is only ever extended at \<open>_tail\<close> and walked from \<open>_head\<close>, so it is a
  list of blocks. A block is a list of cells, \<open>None\<close> for a byte that \<open>malloc\<close> returned and
  nobody wrote. \<open>_cur\<close> is a pointer into a block: the number of the block and the offset.
\<close>

subsection \<open>State\<close>

datatype ser_type = SERIALIZER | DESERIALIZER

type_synonym cell = "byte option"

record serialize =
  s_type :: ser_type
  s_base_size :: nat
  s_nodes :: "cell list list"
  s_cur :: "(nat \<times> nat) option"
  s_capacity :: "32 word"
  s_size :: "32 word"
  s_buf :: "byte list option"
  s_len :: nat
  s_readed :: "32 word"

definition new_Node :: "nat \<Rightarrow> cell list" where
  "new_Node base_size = replicate base_size None"

definition Serialize_new :: "ser_type \<Rightarrow> nat \<Rightarrow> serialize" where
  "Serialize_new t base_size =
     \<lparr>s_type = t, s_base_size = base_size, s_nodes = [new_Node base_size], s_cur = Some (0, 0),
      s_capacity = word_of_nat base_size, s_size = 0, s_buf = None, s_len = 0, s_readed = 0\<rparr>"

definition Serialize_new_bytes :: "ser_type \<Rightarrow> byte list \<Rightarrow> serialize res" where
  "Serialize_new_bytes t bytearray =
     bindR (assertR (t = DESERIALIZER \<and> length bytearray > 0)) (\<lambda>_.
       Inr \<lparr>s_type = t, s_base_size = 4096, s_nodes = [], s_cur = None,
            s_capacity = 0, s_size = 0, s_buf = Some bytearray, s_len = length bytearray,
            s_readed = 0\<rparr>)"

subsection \<open>The deserializer's buffer\<close>

definition Serialize_reset :: "serialize \<Rightarrow> serialize res" where
  "Serialize_reset s =
     bindR (assertR (s_type s = DESERIALIZER)) (\<lambda>_.
       Inr (if s_buf s \<noteq> None then s\<lparr>s_buf := None, s_len := 0, s_readed := 0\<rparr> else s))"

definition Serialize_reset_bytes :: "byte list \<Rightarrow> serialize \<Rightarrow> serialize res" where
  "Serialize_reset_bytes bytearray s =
     bindR (Serialize_reset s) (\<lambda>s'.
       Inr (s'\<lparr>s_buf := Some bytearray, s_len := length bytearray\<rparr>))"

text \<open>\<open>read (buf, len)\<close> returns the bytes it stores at \<open>buf\<close>.\<close>

definition Serialize_read :: "nat \<Rightarrow> serialize \<Rightarrow> (byte list \<times> serialize) res" where
  "Serialize_read len s =
     bindR (assertR (s_type s = DESERIALIZER)) (\<lambda>_.
     bindR (assertR (len + unat (s_readed s) \<le> s_len s)) (\<lambda>_.
     case s_buf s of
       None \<Rightarrow> (if len = 0 then Inr ([], s) else Inl NullDeref)
     | Some b \<Rightarrow>
         (if unat (s_readed s) + len \<le> length b
          then Inr (take len (drop (unat (s_readed s)) b),
                    s\<lparr>s_readed := s_readed s + word_of_nat len\<rparr>)
          else Inl OutOfBounds)))"

subsection \<open>The serializer's blocks\<close>

text \<open>
  \<open>memmove (_cur, buf, len)\<close>: in bounds of the block \<open>_cur\<close> points into, or a fault. Copying
  no byte touches nothing.
\<close>

definition memmove_cur :: "byte list \<Rightarrow> serialize \<Rightarrow> serialize res" where
  "memmove_cur buf s =
     (if buf = [] then Inr s
      else case s_cur s of
        None \<Rightarrow> Inl NullDeref
      | Some (i, off) \<Rightarrow>
          (if i < length (s_nodes s) \<and> off + length buf \<le> length (s_nodes s ! i)
           then Inr (s\<lparr>s_nodes := (s_nodes s)[i := poke off (map Some buf) (s_nodes s ! i)]\<rparr>)
           else Inl OutOfBounds))"

definition cur_plus :: "nat \<Rightarrow> serialize \<Rightarrow> serialize" where
  "cur_plus n s = s\<lparr>s_cur := map_option (\<lambda>(i, off). (i, off + n)) (s_cur s)\<rparr>"

text \<open>
  \<open>_tail->next = new Node (_base_size); _tail = _tail->next; memmove (_tail->str, buf, len)\<close>,
  followed by \<open>_size += len\<close>.
\<close>

definition push_node :: "byte list \<Rightarrow> serialize \<Rightarrow> serialize res" where
  "push_node buf s =
     (if length buf \<le> s_base_size s
      then Inr (s\<lparr>s_nodes := s_nodes s @ [poke 0 (map Some buf) (new_Node (s_base_size s))],
                  s_size := s_size s + word_of_nat (length buf)\<rparr>)
      else Inl OutOfBounds)"

text \<open>
  The loop \<open>while (remain > _base_size)\<close>; \<open>p\<close> is what is left to write, \<open>remain\<close> its length.
  With an empty block size it allocates nodes for ever, until \<open>malloc\<close> fails.
\<close>

function write_blocks :: "byte list \<Rightarrow> serialize \<Rightarrow> (byte list \<times> serialize) res" where
  "write_blocks p s =
     (if length p > s_base_size s then
        (if s_base_size s = 0 then Inl OutOfMemory
         else bindR (push_node (take (s_base_size s) p) s)
                (\<lambda>s'. write_blocks (drop (s_base_size s) p) s'))
      else Inr (p, s))"
  by pat_completeness auto
termination
  by (relation "measure (\<lambda>(p, s). length p)") auto

declare write_blocks.simps [simp del]

definition Serialize_write :: "byte list \<Rightarrow> serialize \<Rightarrow> serialize res" where
  "Serialize_write buf s =
     bindR (assertR (s_type s = SERIALIZER)) (\<lambda>_.
     let len = length buf; cap = unat (s_capacity s) in
     if cap > len then
       bindR (memmove_cur buf s) (\<lambda>s'.
         Inr ((cur_plus len s')
                \<lparr>s_capacity := s_capacity s - word_of_nat len,
                 s_size := s_size s + word_of_nat len\<rparr>))
     else
       bindR (memmove_cur (take cap buf) s) (\<lambda>s1.
       bindR (write_blocks (drop cap buf)
                (s1\<lparr>s_size := s_size s1 + s_capacity s1, s_capacity := 0\<rparr>)) (\<lambda>(p, s2).
       bindR (push_node p s2) (\<lambda>s3.
         Inr ((cur_plus (length p) s3)
                \<lparr>s_capacity := word_of_nat (s_base_size s3 - length p)\<rparr>)))))"

text \<open>
  \<open>toString\<close> walks the list from \<open>_head\<close>; an empty list is a null \<open>tmp\<close> at the last
  \<open>append\<close>.
\<close>

fun toString_loop :: "nat \<Rightarrow> cell list list \<Rightarrow> nat \<Rightarrow> cell list res" where
  "toString_loop base [] n = Inl NullDeref"
| "toString_loop base (str # rest) n =
     (if n > base
      then bindR (toString_loop base rest (n - base)) (\<lambda>r. Inr (take base str @ r))
      else Inr (take n str))"

definition Serialize_toString :: "serialize \<Rightarrow> cell list res" where
  "Serialize_toString s = toString_loop (s_base_size s) (s_nodes s) (unat (s_size s))"

subsection \<open>Reading\<close>

text \<open>\<open>pending\<close> is what a deserializer has not read yet.\<close>

definition pending :: "serialize \<Rightarrow> byte list" where
  "pending s = (case s_buf s of None \<Rightarrow> [] | Some b \<Rightarrow> drop (unat (s_readed s)) b)"

definition deser_ok :: "serialize \<Rightarrow> bool" where
  "deser_ok s \<longleftrightarrow> s_type s = DESERIALIZER \<and> s_len s < 2 ^ 32 \<and> unat (s_readed s) \<le> s_len s \<and>
     (case s_buf s of None \<Rightarrow> s_len s = 0 | Some b \<Rightarrow> s_len s = length b)"

lemma length_pending: "deser_ok s \<Longrightarrow> length (pending s) = s_len s - unat (s_readed s)"
  by (auto simp: deser_ok_def pending_def split: option.splits)

lemma Serialize_new_bytes_ok:
  "bs \<noteq> [] \<Longrightarrow> length bs < 2 ^ 32 \<Longrightarrow>
   \<exists>d. Serialize_new_bytes DESERIALIZER bs = Inr d \<and> deser_ok d \<and> pending d = bs"
  by (simp add: Serialize_new_bytes_def deser_ok_def pending_def)

text \<open>A read returns the next bytes and leaves the rest, or fails without side effects.\<close>

lemma read_pending:
  assumes "deser_ok s" "len \<le> length (pending s)"
  shows "\<exists>s'. Serialize_read len s = Inr (take len (pending s), s') \<and> deser_ok s' \<and>
           pending s' = drop len (pending s)"
proof -
  have le: "len + unat (s_readed s) \<le> s_len s"
    using assms length_pending [of s] by (auto simp: deser_ok_def)
  have "unat (s_readed s + word_of_nat len) = unat (s_readed s) + len"
    using le assms(1) by (simp add: deser_ok_def unat_word_ariths)
  with assms le show ?thesis
    by (cases "s_buf s")
      (auto simp: Serialize_read_def deser_ok_def pending_def add.commute)
qed

lemma read_append:
  assumes "deser_ok s" "pending s = bs @ rest" "len = length bs"
  shows "\<exists>s'. Serialize_read len s = Inr (bs, s') \<and> deser_ok s' \<and> pending s' = rest"
  using read_pending [of s len] assms by auto

lemma read_too_much:
  assumes "deser_ok s" "len > length (pending s)"
  shows "Serialize_read len s = Inl AssertFailed"
proof -
  have "\<not> len + unat (s_readed s) \<le> s_len s"
    using assms length_pending [of s] by (simp add: deser_ok_def)
  with assms(1) show ?thesis by (simp add: Serialize_read_def deser_ok_def)
qed

subsection \<open>Writing within the first block\<close>

definition block :: "nat \<Rightarrow> byte list \<Rightarrow> cell list" where
  "block base bs = map Some bs @ replicate (base - length bs) None"

definition ser_fits :: "serialize \<Rightarrow> byte list \<Rightarrow> bool" where
  "ser_fits s bs \<longleftrightarrow> s_type s = SERIALIZER \<and> length bs < s_base_size s \<and> s_base_size s < 2 ^ 32 \<and>
     s_nodes s = [block (s_base_size s) bs] \<and> s_cur s = Some (0, length bs) \<and>
     s_capacity s = word_of_nat (s_base_size s - length bs) \<and> s_size s = word_of_nat (length bs)"

definition ser_holds :: "serialize \<Rightarrow> byte list \<Rightarrow> bool" where
  "ser_holds s bs \<longleftrightarrow> Serialize_toString s = Inr (map Some bs)"

lemma length_block [simp, layout_simps]: "length bs \<le> base \<Longrightarrow> length (block base bs) = base"
  by (simp add: block_def)

lemma take_block [simp, layout_simps]: "take (length bs) (block base bs) = map Some bs"
  by (simp add: block_def)

lemma poke_block [layout_simps]:
  "length bs + length cs \<le> base \<Longrightarrow>
   poke (length bs) (map Some cs) (block base bs) = block base (bs @ cs)"
  by (simp add: poke_def block_def)

lemma poke_new_Node [layout_simps]:
  "length bs \<le> base \<Longrightarrow> poke 0 (map Some bs) (new_Node base) = block base bs"
  by (simp add: poke_def block_def new_Node_def)

lemma word_of_nat_diff:
  "n \<le> m \<Longrightarrow> (word_of_nat m - word_of_nat n :: 'a::len word) = word_of_nat (m - n)"
  by (simp add: of_nat_diff)

lemma Serialize_new_fits:
  "0 < base \<Longrightarrow> base < 2 ^ 32 \<Longrightarrow> ser_fits (Serialize_new SERIALIZER base) []"
  by (simp add: ser_fits_def Serialize_new_def new_Node_def block_def)

lemma ser_fits_holds: "ser_fits s bs \<Longrightarrow> ser_holds s bs"
  by (auto simp: ser_fits_def ser_holds_def Serialize_toString_def)

lemma memmove_cur_fits:
  "ser_fits s bs \<Longrightarrow> length bs + length cs \<le> s_base_size s \<Longrightarrow>
   memmove_cur cs s = Inr (s\<lparr>s_nodes := [block (s_base_size s) (bs @ cs)]\<rparr>)"
  by (auto simp: memmove_cur_def ser_fits_def poke_block)

text \<open>The two branches of \<open>write\<close>.\<close>

lemma write_within:
  "s_type s = SERIALIZER \<Longrightarrow> length buf < unat (s_capacity s) \<Longrightarrow> memmove_cur buf s = Inr s' \<Longrightarrow>
   Serialize_write buf s =
     Inr ((cur_plus (length buf) s')
            \<lparr>s_capacity := s_capacity s - word_of_nat (length buf),
             s_size := s_size s + word_of_nat (length buf)\<rparr>)"
  by (simp add: Serialize_write_def Let_def)

lemma write_across:
  "s_type s = SERIALIZER \<Longrightarrow> unat (s_capacity s) = cap \<Longrightarrow> cap \<le> length buf \<Longrightarrow>
   memmove_cur (take cap buf) s = Inr s1 \<Longrightarrow>
   write_blocks (drop cap buf) (s1\<lparr>s_size := s_size s1 + s_capacity s1, s_capacity := 0\<rparr>) = Inr (p, s2) \<Longrightarrow>
   push_node p s2 = Inr s3 \<Longrightarrow>
   Serialize_write buf s =
     Inr ((cur_plus (length p) s3)\<lparr>s_capacity := word_of_nat (s_base_size s3 - length p)\<rparr>)"
  by (simp add: Serialize_write_def)

lemma ser_fitsD:
  assumes "ser_fits s bs"
  shows "s_type s = SERIALIZER" "length bs < s_base_size s" "s_base_size s < 2 ^ 32"
    "s_nodes s = [block (s_base_size s) bs]" "s_cur s = Some (0, length bs)"
    "s_capacity s = word_of_nat (s_base_size s - length bs)" "s_size s = word_of_nat (length bs)"
    "unat (s_capacity s) = s_base_size s - length bs"
proof -
  show f: "s_type s = SERIALIZER" "length bs < s_base_size s" "s_base_size s < 2 ^ 32"
    "s_nodes s = [block (s_base_size s) bs]" "s_cur s = Some (0, length bs)"
    "s_capacity s = word_of_nat (s_base_size s - length bs)" "s_size s = word_of_nat (length bs)"
    using assms by (simp_all add: ser_fits_def del: of_nat_diff)
  show "unat (s_capacity s) = s_base_size s - length bs"
    unfolding f(6) by (rule unat_of_nat32) (use f(3) in linarith)
qed

lemma write_fits:
  assumes "ser_fits s bs" "length bs + length cs < s_base_size s"
  shows "\<exists>s'. Serialize_write cs s = Inr s' \<and> ser_fits s' (bs @ cs) \<and> s_base_size s' = s_base_size s"
proof -
  note fits = ser_fitsD [OF assms(1)]
  let ?s' = "s\<lparr>s_nodes := [block (s_base_size s) (bs @ cs)], s_cur := Some (0, length (bs @ cs)),
              s_capacity := word_of_nat (s_base_size s - length (bs @ cs)),
              s_size := word_of_nat (length (bs @ cs))\<rparr>"
  have capacity: "s_capacity s - word_of_nat (length cs) =
      word_of_nat (s_base_size s - length (bs @ cs))"
    using assms(2) fits(6) by (simp add: word_of_nat_diff del: of_nat_diff)
  have size: "s_size s + word_of_nat (length cs) = word_of_nat (length (bs @ cs))"
    using fits(7) by simp
  have "Serialize_write cs s = Inr ?s'"
    using write_within [OF fits(1) _ memmove_cur_fits [OF assms(1)], of cs] assms(2)
    unfolding capacity size by (simp add: fits(5,8) cur_plus_def)
  moreover have "ser_fits ?s' (bs @ cs)"
    using assms by (simp add: ser_fits_def)
  ultimately show ?thesis by auto
qed

subsection \<open>Writing across block boundaries\<close>

lemma unat_size32: "n < 2 ^ 32 \<Longrightarrow> unat (word_of_nat n :: 32 word) = n"
  by simp

lemma toString_loop_blocks:
  assumes "0 < base" "\<forall>b \<in> set blocks. length b = base" "r \<le> base" "length lst = base"
  shows "toString_loop base (blocks @ [lst]) (length (concat blocks) + r) =
         Inr (concat blocks @ take r lst)"
  using assms(2)
proof (induction blocks)
  case Nil
  then show ?case using assms by simp
next
  case (Cons b bs)
  show ?case
  proof (cases "length (concat bs) + r = 0")
    case True
    have "bs = []"
    proof (rule ccontr)
      assume "bs \<noteq> []"
      then have "length (concat bs) \<ge> base"
        using Cons.prems by (cases bs) auto
      with True assms(1) show False by linarith
    qed
    with True Cons.prems show ?thesis by simp
  next
    case False
    with Cons show ?thesis by simp
  qed
qed


text \<open>
  The blocks the loop appends are full, hold the bytes it consumed in order, and leave at most
  a block for the last node.
\<close>

lemma write_blocks_spec:
  assumes "0 < s_base_size s"
  shows "\<exists>q p' blocks. write_blocks p s =
            Inr (p', s\<lparr>s_nodes := s_nodes s @ blocks, s_size := s_size s + word_of_nat (length q)\<rparr>)
          \<and> p = q @ p' \<and> length p' \<le> s_base_size s \<and> (p' = [] \<longrightarrow> q = [])
          \<and> concat blocks = map Some q \<and> (\<forall>b \<in> set blocks. length b = s_base_size s)"
  using assms
proof (induction p s rule: write_blocks.induct)
  case (1 p s)
  let ?B = "s_base_size s"
  show ?case
  proof (cases "length p > ?B")
    case False
    then have "write_blocks p s = Inr (p, s)" by (simp add: write_blocks.simps)
    with False show ?thesis
      by (intro exI [of _ "[]"] exI [of _ p]) simp
  next
    case True
    define s1 where "s1 = s\<lparr>s_nodes := s_nodes s @ [map Some (take ?B p)],
                            s_size := s_size s + word_of_nat ?B\<rparr>"
    have push: "push_node (take ?B p) s = Inr s1"
      using True by (simp add: push_node_def s1_def poke_new_Node block_def min_def)
    have ne: "?B \<noteq> 0" using "1.prems" by simp
    have B1: "s_base_size s1 = ?B" by (simp add: s1_def)
    with "1.prems" have "0 < s_base_size s1" by simp
    from "1.IH" [OF True ne push this, unfolded B1] obtain q p' blocks where IH:
      "write_blocks (drop ?B p) s1 =
         Inr (p', s1\<lparr>s_nodes := s_nodes s1 @ blocks, s_size := s_size s1 + word_of_nat (length q)\<rparr>)"
      "drop ?B p = q @ p'" "length p' \<le> ?B" "p' = [] \<longrightarrow> q = []" "concat blocks = map Some q"
      "\<forall>b \<in> set blocks. length b = ?B"
      by blast
    have "write_blocks p s = write_blocks (drop ?B p) s1"
      using True "1.prems" push by (subst write_blocks.simps) simp
    then have "write_blocks p s =
        Inr (p', s\<lparr>s_nodes := s_nodes s @ map Some (take ?B p) # blocks,
                    s_size := s_size s + word_of_nat (length (take ?B p @ q))\<rparr>)"
      using IH(1) True by (simp add: s1_def add.assoc)
    moreover have "p = (take ?B p @ q) @ p'"
      using IH(2) by (metis append.assoc append_take_drop_id)
    moreover have "p' \<noteq> []" using IH(2,4) True by auto
    moreover have "concat (map Some (take ?B p) # blocks) = map Some (take ?B p @ q)"
      using IH(5) by simp
    moreover have "\<forall>b \<in> set (map Some (take ?B p) # blocks). length b = ?B"
      using IH(6) True by simp
    ultimately show ?thesis using IH(3) by blast
  qed
qed

text \<open>
  A write that fills the first block: the bytes go to the end of the first block and on into new
  ones; \<open>_cur\<close> stays in the first block, advanced by what went into the last node only.
\<close>

lemma write_overflow:
  assumes fits: "ser_fits s bs" and full: "s_base_size s \<le> length bs + length cs"
  defines "cap \<equiv> s_base_size s - length bs"
  shows "\<exists>q p' blocks. Serialize_write cs s =
            Inr (s\<lparr>s_nodes := block (s_base_size s) (bs @ take cap cs) # blocks @ [block (s_base_size s) p'],
                    s_cur := Some (0, length bs + length p'),
                    s_capacity := word_of_nat (s_base_size s - length p'),
                    s_size := word_of_nat (length bs + length cs)\<rparr>)
          \<and> drop cap cs = q @ p' \<and> length p' \<le> s_base_size s \<and> (p' = [] \<longrightarrow> q = [])
          \<and> concat blocks = map Some q
          \<and> (\<forall>b \<in> set blocks. length b = s_base_size s)"
proof -
  note f = ser_fitsD [OF fits]
  let ?B = "s_base_size s"
  let ?s1 = "s\<lparr>s_nodes := [block ?B (bs @ take cap cs)]\<rparr>"
  let ?s1' = "?s1\<lparr>s_size := s_size ?s1 + s_capacity ?s1, s_capacity := 0\<rparr>"
  have mm: "memmove_cur (take cap cs) s = Inr ?s1"
    using full f(2) by (intro memmove_cur_fits [OF fits]) (simp add: cap_def)
  have sz1: "s_size s + s_capacity s = word_of_nat (length bs + cap)"
    unfolding f(6,7) cap_def by (simp del: of_nat_diff)
  obtain q p' blocks where wb:
    "write_blocks (drop cap cs) ?s1' = Inr (p', ?s1'\<lparr>s_nodes := s_nodes ?s1' @ blocks,
        s_size := s_size ?s1' + word_of_nat (length q)\<rparr>)"
    and props: "drop cap cs = q @ p'" "length p' \<le> ?B" "p' = [] \<longrightarrow> q = []" "concat blocks = map Some q"
    "\<forall>b \<in> set blocks. length b = ?B"
  proof -
    have "0 < s_base_size ?s1'" "s_base_size ?s1' = ?B" using f(2) by simp_all
    from write_blocks_spec [OF this(1), of "drop cap cs", unfolded this(2)] show ?thesis
      using that by blast
  qed
  define s2 where "s2 = ?s1'\<lparr>s_nodes := s_nodes ?s1' @ blocks,
        s_size := s_size ?s1' + word_of_nat (length q)\<rparr>"
  have push: "push_node p' s2 = Inr (s2\<lparr>s_nodes := s_nodes s2 @ [block ?B p'],
      s_size := s_size s2 + word_of_nat (length p')\<rparr>)"
    using props(2) by (simp add: push_node_def s2_def poke_new_Node)
  have "length cs = cap + (length q + length p')"
    using arg_cong [OF props(1), of length] full f(2) by (simp add: cap_def)
  then have "length bs + length cs = length bs + cap + length q + length p'"
    by simp
  then have size: "word_of_nat (length bs + length cs) =
      s_size s + s_capacity s + word_of_nat (length q) + (word_of_nat (length p') :: 32 word)"
    by (simp only: sz1 of_nat_add)
  have "cap \<le> length cs" using full by (simp add: cap_def)
  then have "Serialize_write cs s =
            Inr (s\<lparr>s_nodes := block ?B (bs @ take cap cs) # blocks @ [block ?B p'],
                    s_cur := Some (0, length bs + length p'),
                    s_capacity := word_of_nat (?B - length p'),
                    s_size := word_of_nat (length bs + length cs)\<rparr>)"
    using write_across [OF f(1) f(8) [folded cap_def] _ mm wb [folded s2_def] push]
    by (simp only: size) (simp add: s2_def f(5) cur_plus_def del: of_nat_diff)
  with props show ?thesis by blast
qed


lemma block_append_blocks:
  "length xs = base \<Longrightarrow> block base xs = map Some xs"
  by (simp add: block_def)

lemma write_holds:
  assumes fits: "ser_fits s bs" and small: "length (bs @ cs) < 2 ^ 32"
  shows "\<exists>s'. Serialize_write cs s = Inr s' \<and> ser_holds s' (bs @ cs)"
proof (cases "length bs + length cs < s_base_size s")
  case True
  then show ?thesis using write_fits [OF fits] ser_fits_holds by blast
next
  case False
  note f = ser_fitsD [OF fits]
  let ?B = "s_base_size s"
  let ?cap = "?B - length bs"
  obtain q p' blocks where w: "Serialize_write cs s =
        Inr (s\<lparr>s_nodes := block ?B (bs @ take ?cap cs) # blocks @ [block ?B p'],
                s_cur := Some (0, length bs + length p'),
                s_capacity := word_of_nat (?B - length p'),
                s_size := word_of_nat (length bs + length cs)\<rparr>)"
    and props: "drop ?cap cs = q @ p'" "length p' \<le> ?B" "concat blocks = map Some q"
    "\<forall>b \<in> set blocks. length b = ?B"
    using write_overflow [OF fits] False by (metis not_less)
  let ?first = "map Some (bs @ take ?cap cs)"
  have first: "length ?first = ?B" using False f(2) by simp
  have n: "length bs + length cs = length (concat (?first # blocks)) + length p'"
    using arg_cong [OF props(1), of length] False f(2) props(3) by simp
  have "toString_loop ?B ((?first # blocks) @ [block ?B p']) (length bs + length cs) =
      Inr (concat (?first # blocks) @ take (length p') (block ?B p'))"
    unfolding n using f(2) first props(2,4) by (intro toString_loop_blocks) auto
  also have "concat (?first # blocks) @ take (length p') (block ?B p') = map Some (bs @ cs)"
    using props(1,3) by (metis append.assoc append_take_drop_id concat.simps(2) map_append take_block)
  finally have "toString_loop ?B (?first # blocks @ [block ?B p']) (length bs + length cs) =
      Inr (map Some (bs @ cs))"
    by simp
  moreover have "unat (word_of_nat (length bs + length cs) :: 32 word) = length bs + length cs"
    using small by (intro unat_of_nat32) simp
  ultimately show ?thesis
    using w first
    by (simp add: ser_holds_def Serialize_toString_def block_append_blocks del: of_nat_add)
qed

text \<open>A sequence of writes that stays in the first block until its last write.\<close>

lemma writes_fit:
  "ser_fits s bs \<Longrightarrow> length bs + length (concat chunks) < s_base_size s \<Longrightarrow>
   \<exists>s'. foldR Serialize_write chunks s = Inr s' \<and> ser_fits s' (bs @ concat chunks) \<and>
        s_base_size s' = s_base_size s"
proof (induction chunks arbitrary: s bs)
  case (Cons c cs)
  then obtain s1 where "Serialize_write c s = Inr s1" "ser_fits s1 (bs @ c)"
    "s_base_size s1 = s_base_size s"
    using write_fits [of s bs c] by auto
  with Cons.IH [of s1 "bs @ c"] Cons.prems show ?case by auto
qed simp

lemma writes_hold:
  assumes "ser_fits s bs" "length bs + length (concat (butlast chunks)) < s_base_size s"
    and "length (bs @ concat chunks) < 2 ^ 32"
  shows "\<exists>s'. foldR Serialize_write chunks s = Inr s' \<and> ser_holds s' (bs @ concat chunks)"
proof (cases chunks rule: rev_cases)
  case Nil
  then show ?thesis using assms(1) by (simp add: ser_fits_holds)
next
  case (snoc cs c)
  then obtain s1 where "foldR Serialize_write cs s = Inr s1" "ser_fits s1 (bs @ concat cs)"
    using writes_fit [OF assms(1), of cs] assms(2) by auto
  with write_holds [of s1 "bs @ concat cs" c] snoc assms(3) show ?thesis
    by (auto simp: foldR_append)
qed

subsection \<open>From a serializer to a deserializer\<close>

text \<open>
  What the tests of \<open>serialize/test_serialize.cpp\<close> do: fill a fresh serializer, take its string,
  build a deserializer from it and read. A byte of the string that was never written has no value
  to hand over.
\<close>

definition cells_bytes :: "cell list \<Rightarrow> byte list res" where
  "cells_bytes cs = (if list_all (\<lambda>c. c \<noteq> None) cs then Inr (map the cs) else Inl UninitRead)"

definition transmit ::
  "nat \<Rightarrow> (serialize \<Rightarrow> serialize res) \<Rightarrow> (serialize \<Rightarrow> ('v \<times> serialize) res) \<Rightarrow> 'v res" where
  "transmit base wr rd =
     bindR (wr (Serialize_new SERIALIZER base)) (\<lambda>s.
     bindR (Serialize_toString s) (\<lambda>cs.
     bindR (cells_bytes cs) (\<lambda>bs.
     bindR (Serialize_new_bytes DESERIALIZER bs) (\<lambda>d.
     bindR (rd d) (\<lambda>(v, d'). Inr v)))))"

lemma cells_bytes_map [simp]: "cells_bytes (map Some bs) = Inr bs"
  by (simp add: cells_bytes_def list_all_iff comp_def)

lemma transmit_chunks:
  assumes "wr (Serialize_new SERIALIZER base) = foldR Serialize_write chunks (Serialize_new SERIALIZER base)"
    and "0 < base" "base < 2 ^ 32" "length (concat (butlast chunks)) < base"
    and "concat chunks \<noteq> []" "length (concat chunks) < 2 ^ 32"
    and "\<And>d. deser_ok d \<Longrightarrow> pending d = concat chunks \<Longrightarrow> \<exists>d'. rd d = Inr (v, d')"
  shows "transmit base wr rd = Inr v"
proof -
  obtain s' where s': "foldR Serialize_write chunks (Serialize_new SERIALIZER base) = Inr s'"
    "ser_holds s' (concat chunks)"
    using writes_hold [OF Serialize_new_fits [OF assms(2,3)], of chunks] assms(4,6)
    by (auto simp: Serialize_new_def)
  obtain d where d: "Serialize_new_bytes DESERIALIZER (concat chunks) = Inr d" "deser_ok d"
    "pending d = concat chunks"
    using Serialize_new_bytes_ok [OF assms(5,6)] by blast
  obtain d' where "rd d = Inr (v, d')" using assms(7) [OF d(2,3)] by blast
  with s' d(1) show ?thesis by (simp add: transmit_def assms(1) ser_holds_def)
qed

subsection \<open>Properties\<close>

text \<open>
  C2: Whatever is written into a fresh serializer, in any number of \<open>write\<close> calls, comes back
  from \<open>toString\<close> unchanged and in order, as long as the calls before the last one stay below
  the block size; the last one may run over any number of blocks.
\<close>

theorem writes_toString:
  assumes "length (concat (butlast chunks)) < base" "base < 2 ^ 32" "length (concat chunks) < 2 ^ 32"
  shows "bindR (foldR Serialize_write chunks (Serialize_new SERIALIZER base)) Serialize_toString =
         Inr (map Some (concat chunks))"
  using writes_hold [OF Serialize_new_fits, of base chunks] assms
  by (auto simp: ser_holds_def Serialize_new_def)

theorem writes_toString_witness:
  "bindR (foldR Serialize_write [[1, 2], [3, 4, 5, 6, 7, 8, 9]] (Serialize_new SERIALIZER 3)) Serialize_toString =
   Inr (map Some [1, 2, 3, 4, 5, 6, 7, 8, 9])"
  using writes_toString [of "[[1, 2], [3, 4, 5, 6, 7, 8, 9]]" 3] by simp




end
