(* ===== verification/SerWire.thy ===== *)
theory SerWire
  imports SerBuffer ZigZag
begin

unbundle bit_operations_syntax

text \<open>
  The typed writers and readers of \<open>serialize/serialize.cpp\<close>: fixed-width integers in big-endian
  byte order, variable-width integers (seven bits a byte, least significant group first), zigzag
  for the signed ones, floating point numbers by their bits, length-prefixed strings.

  A writer takes the value and the serializer, a reader returns the value and the deserializer
  after it. Integers are words of their width, signed ones too (read them with \<open>sint\<close>); a
  \<open>float\<close> or \<open>double\<close> is the word of its bits; a \<open>std::string\<close> is a byte list. \<open>le\<close> is
  \<open>True\<close> on a little-endian host. \<open>writeBit32\<close> and its kin return the constant 0, which no
  caller looks at.
\<close>

subsection \<open>Fixed width\<close>

definition writeBit32 :: "bool \<Rightarrow> 32 word \<Rightarrow> serialize \<Rightarrow> serialize res" where
  "writeBit32 le p s =
     (let v = (if isLittleEndian le then bswap 4 p else p) in Serialize_write (store le 4 v) s)"

definition writeBit64 :: "bool \<Rightarrow> 64 word \<Rightarrow> serialize \<Rightarrow> serialize res" where
  "writeBit64 le p s =
     (let v = (if isLittleEndian le then bswap 8 p else p) in Serialize_write (store le 8 v) s)"

text \<open>
  The readers test \<open>if (isLittleEndian)\<close>, the address of the function and not its result, so they
  swap on every host.
\<close>

definition readBit32 :: "bool \<Rightarrow> serialize \<Rightarrow> (32 word \<times> serialize) res" where
  "readBit32 le s = bindR (Serialize_read 4 s) (\<lambda>(bs, s'). Inr (bswap 4 (load le bs), s'))"

definition readBit64 :: "bool \<Rightarrow> serialize \<Rightarrow> (64 word \<times> serialize) res" where
  "readBit64 le s = bindR (Serialize_read 8 s) (\<lambda>(bs, s'). Inr (bswap 8 (load le bs), s'))"

definition writeFixed32 :: "bool \<Rightarrow> 32 word \<Rightarrow> serialize \<Rightarrow> serialize res" where
  "writeFixed32 le value s = writeBit32 le value s"

definition writeFixed64 :: "bool \<Rightarrow> 64 word \<Rightarrow> serialize \<Rightarrow> serialize res" where
  "writeFixed64 le value s = writeBit64 le value s"

definition writeSFixed32 :: "bool \<Rightarrow> 32 word \<Rightarrow> serialize \<Rightarrow> serialize res" where
  "writeSFixed32 le value s = bindR (encodeZigZag32 value) (\<lambda>z. writeFixed32 le z s)"

definition writeSFixed64 :: "bool \<Rightarrow> 64 word \<Rightarrow> serialize \<Rightarrow> serialize res" where
  "writeSFixed64 le value s = bindR (encodeZigZag64 value) (\<lambda>z. writeFixed64 le z s)"

definition readFixed32 :: "bool \<Rightarrow> serialize \<Rightarrow> (32 word \<times> serialize) res" where
  "readFixed32 le s = readBit32 le s"

definition readFixed64 :: "bool \<Rightarrow> serialize \<Rightarrow> (64 word \<times> serialize) res" where
  "readFixed64 le s = readBit64 le s"

definition readSFixed32 :: "bool \<Rightarrow> serialize \<Rightarrow> (32 word \<times> serialize) res" where
  "readSFixed32 le s = bindR (readFixed32 le s) (\<lambda>(v, s'). Inr (decodeZigZag32 v, s'))"

definition readSFixed64 :: "bool \<Rightarrow> serialize \<Rightarrow> (64 word \<times> serialize) res" where
  "readSFixed64 le s = bindR (readFixed64 le s) (\<lambda>(v, s'). Inr (decodeZigZag64 v, s'))"

definition writeFloat :: "bool \<Rightarrow> 32 word \<Rightarrow> serialize \<Rightarrow> serialize res" where
  "writeFloat le value s = writeBit32 le value s"

definition writeDouble :: "bool \<Rightarrow> 64 word \<Rightarrow> serialize \<Rightarrow> serialize res" where
  "writeDouble le value s = writeBit64 le value s"

definition readFloat :: "bool \<Rightarrow> serialize \<Rightarrow> (32 word \<times> serialize) res" where
  "readFloat le s = readBit32 le s"

definition readDouble :: "bool \<Rightarrow> serialize \<Rightarrow> (64 word \<times> serialize) res" where
  "readDouble le s = readBit64 le s"

subsection \<open>Variable width\<close>

text \<open>
  The macro \<open>XX(n)\<close> of the writers: \<open>char tmp[n]\<close> is filled with the groups of \<open>value\<close>, an
  unsigned integer read as a number; a store past its end is a fault.
\<close>

definition put_tmp :: "nat \<Rightarrow> byte list \<Rightarrow> byte \<Rightarrow> byte list res" where
  "put_tmp n tmp b = (if length tmp < n then Inr (tmp @ [b]) else Inl OutOfBounds)"

function varint_tmp :: "nat \<Rightarrow> nat \<Rightarrow> byte list \<Rightarrow> byte list res" where
  "varint_tmp n value tmp =
     (if value \<ge> 0x80
      then bindR (put_tmp n tmp (word_of_nat value OR 0x80)) (\<lambda>tmp'. varint_tmp n (drop_bit 7 value) tmp')
      else put_tmp n tmp (word_of_nat value))"
  by pat_completeness auto
termination
  by (relation "measure (\<lambda>(n, value, tmp). value)") (auto simp: drop_bit_eq_div)

declare varint_tmp.simps [simp del]

definition writeVarInt8 :: "8 word \<Rightarrow> serialize \<Rightarrow> serialize res" where
  "writeVarInt8 value s = Serialize_write [value] s"

definition writeVarUint8 :: "8 word \<Rightarrow> serialize \<Rightarrow> serialize res" where
  "writeVarUint8 value s = Serialize_write [value] s"

definition writeVarUint16 :: "16 word \<Rightarrow> serialize \<Rightarrow> serialize res" where
  "writeVarUint16 value s = bindR (varint_tmp 3 (unat value) []) (\<lambda>tmp. Serialize_write tmp s)"

definition writeVarUint32 :: "32 word \<Rightarrow> serialize \<Rightarrow> serialize res" where
  "writeVarUint32 value s = bindR (varint_tmp 5 (unat value) []) (\<lambda>tmp. Serialize_write tmp s)"

definition writeVarUint64 :: "64 word \<Rightarrow> serialize \<Rightarrow> serialize res" where
  "writeVarUint64 value s = bindR (varint_tmp 10 (unat value) []) (\<lambda>tmp. Serialize_write tmp s)"

definition writeVarInt16 :: "16 word \<Rightarrow> serialize \<Rightarrow> serialize res" where
  "writeVarInt16 value s = writeVarUint16 (encodeZigZag16 value) s"

definition writeVarInt32 :: "32 word \<Rightarrow> serialize \<Rightarrow> serialize res" where
  "writeVarInt32 value s = bindR (encodeZigZag32 value) (\<lambda>z. writeVarUint32 z s)"

definition writeVarInt64 :: "64 word \<Rightarrow> serialize \<Rightarrow> serialize res" where
  "writeVarInt64 value s = bindR (encodeZigZag64 value) (\<lambda>z. writeVarUint64 z s)"

definition writeString :: "byte list \<Rightarrow> serialize \<Rightarrow> serialize res" where
  "writeString str s =
     (let len = word_of_nat (length str) :: 32 word in
      bindR (writeVarUint32 len s) (\<lambda>s'.
        if len = 0 then Inr s' else Serialize_write (take (unat len) str) s'))"

text \<open>The macro \<open>XX(n)\<close> of the readers: the loop from \<open>i\<close> on, with what \<open>ret\<close> holds so far.\<close>

function readVar_loop :: "nat \<Rightarrow> nat \<Rightarrow> 'a::len word \<Rightarrow> serialize \<Rightarrow> ('a word \<times> serialize) res" where
  "readVar_loop n i ret s =
     (if i < n then
        bindR (Serialize_read 1 s) (\<lambda>(bs, s'). let b = hd bs in
          if b < 0x80 then Inr (ret OR push_bit i (ucast b), s')
          else readVar_loop n (i + 7) (ret OR push_bit i (ucast (b AND 0x7f))) s')
      else Inr (ret, s))"
  by pat_completeness auto
termination
  by (relation "measure (\<lambda>(n, i, ret, s). n - i)") auto

declare readVar_loop.simps [simp del]

definition readVarInt8 :: "serialize \<Rightarrow> (8 word \<times> serialize) res" where
  "readVarInt8 s = bindR (Serialize_read 1 s) (\<lambda>(bs, s'). Inr (hd bs, s'))"

definition readVarUint8 :: "serialize \<Rightarrow> (8 word \<times> serialize) res" where
  "readVarUint8 s = bindR (Serialize_read 1 s) (\<lambda>(bs, s'). Inr (hd bs, s'))"

definition readVarUint16 :: "serialize \<Rightarrow> (16 word \<times> serialize) res" where
  "readVarUint16 s = readVar_loop 16 0 0 s"

definition readVarUint32 :: "serialize \<Rightarrow> (32 word \<times> serialize) res" where
  "readVarUint32 s = readVar_loop 32 0 0 s"

definition readVarUint64 :: "serialize \<Rightarrow> (64 word \<times> serialize) res" where
  "readVarUint64 s = readVar_loop 64 0 0 s"

definition readVarInt16 :: "serialize \<Rightarrow> (16 word \<times> serialize) res" where
  "readVarInt16 s = bindR (readVarUint16 s) (\<lambda>(v, s'). Inr (decodeZigZag16 v, s'))"

definition readVarInt32 :: "serialize \<Rightarrow> (32 word \<times> serialize) res" where
  "readVarInt32 s = bindR (readVarUint32 s) (\<lambda>(v, s'). Inr (decodeZigZag32 v, s'))"

definition readVarInt64 :: "serialize \<Rightarrow> (64 word \<times> serialize) res" where
  "readVarInt64 s = bindR (readVarUint64 s) (\<lambda>(v, s'). Inr (decodeZigZag64 v, s'))"

definition readString :: "serialize \<Rightarrow> (byte list \<times> serialize) res" where
  "readString s =
     bindR (readVarUint32 s) (\<lambda>(len, s').
       if len = 0 then Inr ([], s') else Serialize_read (unat len) s')"

end
