(* ===== verification/SerCodec.thy ===== *)
theory SerCodec
  imports SerWire
begin

unbundle bit_operations_syntax

text \<open>
  The wire format of the serializer as pure byte strings, and the proof that every reader undoes
  its writer. \<open>wire_field\<close> is the interface between the typed operations and the messages
  built from them: a writer, a reader and the chunks of bytes between them. Each pair of
  operations of \<open>SerWire\<close> is an interpretation; messages of many fields are handled once, in
  the locale.
\<close>

subsection \<open>The variable-width format\<close>

fun varint_bytes :: "nat \<Rightarrow> byte list" where
  "varint_bytes v =
     (if v \<ge> 128 then (word_of_nat v OR 0x80) # varint_bytes (v div 128) else [word_of_nat v])"

declare varint_bytes.simps [simp del]

lemma varint_bytes_small: "v < 128 \<Longrightarrow> varint_bytes v = [word_of_nat v]"
  by (subst varint_bytes.simps) simp

lemma varint_bytes_large:
  "v \<ge> 128 \<Longrightarrow> varint_bytes v = (word_of_nat v OR 0x80) # varint_bytes (v div 128)"
  by (subst varint_bytes.simps) simp

lemma varint_bytes_not_Nil [simp]: "varint_bytes v \<noteq> []"
  by (subst varint_bytes.simps) simp

lemma varint_bytes_not_Nil_sym [simp]: "[] \<noteq> varint_bytes v"
  by (metis varint_bytes_not_Nil)

text \<open>A value below \<open>128 ^ k\<close> takes at most \<open>k\<close> bytes, and one at or above it takes more.\<close>

lemma length_varint_bytes_le: "v < 128 ^ Suc k \<Longrightarrow> length (varint_bytes v) \<le> Suc k"
proof (induction k arbitrary: v)
  case 0
  then show ?case by (simp add: varint_bytes_small)
next
  case (Suc k)
  show ?case
  proof (cases "v \<ge> 128")
    case True
    from Suc.prems have "v div 128 < 128 ^ Suc k"
      by (simp add: less_mult_imp_div_less mult.commute)
    with Suc.IH True show ?thesis by (simp add: varint_bytes_large)
  qed (simp add: varint_bytes_small)
qed

lemma length_varint_bytes_gt: "v \<ge> 128 ^ k \<Longrightarrow> length (varint_bytes v) > k"
proof (induction k arbitrary: v)
  case (Suc k)
  have "v \<ge> 128" using Suc.prems by (cases k) (auto intro: order_trans [rotated])
  moreover have "v div 128 \<ge> 128 ^ k"
    using div_le_mono [OF Suc.prems, of 128] by simp
  ultimately show ?case using Suc.IH by (simp add: varint_bytes_large)
qed simp

text \<open>The temporary array of the writers is large enough, and holds these bytes.\<close>

lemma varint_tmp_bytes:
  "length tmp + length (varint_bytes v) \<le> n \<Longrightarrow> varint_tmp n v tmp = Inr (tmp @ varint_bytes v)"
proof (induction n v tmp rule: varint_tmp.induct)
  case (1 n v tmp)
  show ?case
  proof (cases "v \<ge> 128")
    case True
    have put: "put_tmp n tmp (word_of_nat v OR 0x80) = Inr (tmp @ [word_of_nat v OR 0x80])"
      using "1.prems" True by (simp add: put_tmp_def varint_bytes_large)
    have "varint_tmp n v tmp = varint_tmp n (drop_bit 7 v) (tmp @ [word_of_nat v OR 0x80])"
      using True put by (subst varint_tmp.simps) simp
    also have "\<dots> = Inr ((tmp @ [word_of_nat v OR 0x80]) @ varint_bytes (drop_bit 7 v))"
      using "1.prems" True by (intro "1.IH" [OF _ put]) (simp_all add: varint_bytes_large drop_bit_eq_div)
    finally show ?thesis using True by (simp add: varint_bytes_large drop_bit_eq_div)
  next
    case False
    with "1.prems" show ?thesis
      by (subst varint_tmp.simps) (simp add: varint_bytes_small put_tmp_def)
  qed
qed

lemma varint_tmp_word:
  assumes "2 ^ LENGTH('a::len) \<le> (128 ^ Suc k :: nat)"
  shows "varint_tmp (Suc k) (unat (w :: 'a word)) [] = Inr (varint_bytes (unat w))"
proof -
  have "unat w < 128 ^ Suc k" using unat_less_exp [of w] assms by (rule less_le_trans)
  then show ?thesis using length_varint_bytes_le varint_tmp_bytes [of "[]"] by simp
qed

subsection \<open>Decoding: the reader's loop undoes the writer's\<close>

lemma word_bits_join:
  "take_bit i w OR push_bit i (take_bit k (drop_bit i w)) = take_bit (i + k) (w :: 'a::len word)"
proof (rule bit_word_eqI)
  fix n
  assume "n < LENGTH('a)"
  then show "bit (take_bit i w OR push_bit i (take_bit k (drop_bit i w))) n = bit (take_bit (i + k) w) n"
    by (cases "n < i") (auto simp: bit_simps)
qed

lemma word_bits_whole: "take_bit i w OR push_bit i (drop_bit i w) = (w :: 'a::len word)"
proof (rule bit_word_eqI)
  fix n
  assume "n < LENGTH('a)"
  then show "bit (take_bit i w OR push_bit i (drop_bit i w)) n = bit w n"
    by (cases "n < i") (auto simp: bit_simps)
qed

lemma word_of_nat_drop_bit: "word_of_nat (drop_bit i (unat w)) = drop_bit i (w :: 'a::len word)"
  by (simp flip: unat_drop_bit)

lemma ucast_byte_small:
  "v < 256 \<Longrightarrow> ucast (word_of_nat v :: byte) = (word_of_nat v :: 'a::len word)"
  by (simp add: unsigned_of_nat take_bit_nat_eq_self)

lemma ucast_byte_group:
  "ucast ((word_of_nat v OR 0x80 :: byte) AND 0x7f) = take_bit 7 (word_of_nat v :: 'a::len word)"
proof (rule bit_word_eqI)
  fix n
  assume "n < LENGTH('a)"
  have eq: "(0x7f :: byte) = mask 7" "(0x80 :: byte) = 2 ^ 7"
    by (simp_all add: mask_eq_exp_minus_1)
  have "bit (0x7f :: byte) n \<longleftrightarrow> n < 7" "bit (0x80 :: byte) n \<longleftrightarrow> n = 7"
    unfolding eq bit_mask_iff bit_exp_iff by auto
  then show "bit (ucast ((word_of_nat v OR 0x80 :: byte) AND 0x7f) :: 'a word) n =
      bit (take_bit 7 (word_of_nat v :: 'a word)) n"
    by (auto simp: bit_simps)
qed

lemma byte_continues: "\<not> (word_of_nat v OR 0x80 :: byte) < 0x80"
proof -
  have "uint (0x80 :: byte) \<le> uint (word_of_nat v OR 0x80 :: byte)"
    unfolding unsigned_or_eq by (subst or.commute) (rule or_greater_eq, simp)
  then show ?thesis by (simp only: word_less_def not_less)
qed

lemma byte_stops: "v < 128 \<Longrightarrow> (word_of_nat v :: byte) < 0x80"
  by (simp add: word_less_nat_alt unat_of_nat take_bit_nat_eq_self)

lemma read_byte:
  assumes "deser_ok d" "pending d = b # rest"
  shows "\<exists>d'. Serialize_read 1 d = Inr ([b], d') \<and> deser_ok d' \<and> pending d' = rest"
  using read_append [OF assms(1), of "[b]" rest 1] assms(2) by simp

lemma readVar_loop_stop:
  assumes "deser_ok d" "pending d = b # rest" "i < n" "b < 0x80"
  shows "\<exists>d'. readVar_loop n i ret d = Inr (ret OR push_bit i (ucast b), d') \<and> deser_ok d' \<and> pending d' = rest"
  using read_byte [OF assms(1,2)] assms(3,4) by (subst readVar_loop.simps) auto

lemma readVar_loop_continue:
  assumes "deser_ok d" "pending d = b # rest" "i < n" "\<not> b < 0x80"
  shows "\<exists>d'. readVar_loop n i ret d = readVar_loop n (i + 7) (ret OR push_bit i (ucast (b AND 0x7f))) d'
           \<and> deser_ok d' \<and> pending d' = rest"
  using read_byte [OF assms(1,2)] assms(3,4) by (subst readVar_loop.simps) auto

lemma readVar_loop_varint:
  fixes w :: "'a::len word"
  assumes "deser_ok d" "pending d = varint_bytes (drop_bit i (unat w)) @ rest" "i < LENGTH('a)"
  shows "\<exists>d'. readVar_loop LENGTH('a) i (take_bit i w) d = Inr (w, d') \<and> deser_ok d' \<and> pending d' = rest"
  using assms
proof (induction "LENGTH('a) - i" arbitrary: i d rule: less_induct)
  case less
  let ?v = "drop_bit i (unat w)"
  show ?case
  proof (cases "?v < 128")
    case True
    then have "pending d = word_of_nat ?v # rest"
      using less.prems(2) by (simp add: varint_bytes_small)
    moreover have "take_bit i w OR push_bit i (ucast (word_of_nat ?v :: byte)) = w"
    proof -
      have "?v < 256" using True by simp
      then show ?thesis
        by (simp only: ucast_byte_small word_of_nat_drop_bit word_bits_whole)
    qed
    ultimately show ?thesis
      using readVar_loop_stop [OF less.prems(1) _ less.prems(3) byte_stops [OF True], of rest "take_bit i w"]
      by simp
  next
    case False
    let ?b = "word_of_nat ?v OR 0x80 :: byte"
    have group: "?v div 128 = drop_bit (i + 7) (unat w)"
      by (simp add: drop_bit_eq_div div_mult2_eq power_add)
    have p: "pending d = ?b # varint_bytes (drop_bit (i + 7) (unat w)) @ rest"
      using False less.prems(2) by (simp add: varint_bytes_large group)
    have "drop_bit (i + 7) (unat w) \<noteq> 0" using False group by simp
    then have "\<not> unat w < 2 ^ (i + 7)" by (auto simp: drop_bit_eq_div)
    then have i: "i + 7 < LENGTH('a)"
      using unat_less_exp [of w] by (meson less_le_trans not_le power_increasing one_le_numeral)
    have ret: "take_bit i w OR push_bit i (ucast (?b AND 0x7f)) = take_bit (i + 7) w"
      by (simp add: ucast_byte_group word_of_nat_drop_bit word_bits_join)
    obtain d1 where d1: "readVar_loop LENGTH('a) i (take_bit i w) d =
        readVar_loop LENGTH('a) (i + 7) (take_bit (i + 7) w) d1"
      "deser_ok d1" "pending d1 = varint_bytes (drop_bit (i + 7) (unat w)) @ rest"
      using readVar_loop_continue [OF less.prems(1) p less.prems(3) byte_continues, of "take_bit i w"]
      unfolding ret by blast
    show ?thesis unfolding d1(1)
      by (rule less.hyps [OF _ d1(2,3) i]) (use i in simp)
  qed
qed

lemma readVar_varint:
  fixes w :: "'a::len word"
  assumes "deser_ok d" "pending d = varint_bytes (unat w) @ rest"
  shows "\<exists>d'. readVar_loop LENGTH('a) 0 0 d = Inr (w, d') \<and> deser_ok d' \<and> pending d' = rest"
  using readVar_loop_varint [of d 0 w rest] assms by simp

text \<open>
  On any input, well-formed or not, the loop needs at most one byte for each group of seven bits.
\<close>

lemma readVar_loop_total:
  "deser_ok d \<Longrightarrow> n \<le> i + 7 * k \<Longrightarrow> k \<le> length (pending d) \<Longrightarrow>
   \<exists>v d' m. readVar_loop n i ret d = Inr (v, d') \<and> deser_ok d' \<and> m \<le> k \<and> pending d' = drop m (pending d)"
proof (induction k arbitrary: i ret d)
  case 0
  then show ?case by (subst readVar_loop.simps) auto
next
  case (Suc k)
  then obtain b rest where p: "pending d = b # rest" by (cases "pending d") auto
  show ?case
  proof (cases "i < n")
    case False
    then show ?thesis using Suc.prems(1) by (subst readVar_loop.simps) auto
  next
    case i: True
    show ?thesis
    proof (cases "b < 0x80")
      case True
      then obtain d' where "readVar_loop n i ret d = Inr (ret OR push_bit i (ucast b), d')"
        "deser_ok d'" "pending d' = drop 1 (pending d)"
        using readVar_loop_stop [OF Suc.prems(1) p i] p by auto
      moreover have "1 \<le> Suc k" by simp
      ultimately show ?thesis by blast
    next
      case False
      then obtain d1 where d1: "readVar_loop n i ret d =
          readVar_loop n (i + 7) (ret OR push_bit i (ucast (b AND 0x7f))) d1" "deser_ok d1" "pending d1 = rest"
        using readVar_loop_continue [OF Suc.prems(1) p i] by blast
      obtain v d' m where "readVar_loop n (i + 7) (ret OR push_bit i (ucast (b AND 0x7f))) d1 = Inr (v, d')"
        "deser_ok d'" "m \<le> k" "pending d' = drop m rest"
        using Suc.IH [of d1 "i + 7" "ret OR push_bit i (ucast (b AND 0x7f))"] Suc.prems p d1 by auto
      then have "readVar_loop n i ret d = Inr (v, d') \<and> deser_ok d' \<and> Suc m \<le> Suc k
          \<and> pending d' = drop (Suc m) (pending d)"
        using d1 p by simp
      then show ?thesis by blast
    qed
  qed
qed

subsection \<open>The interface of a field\<close>

text \<open>
  A writer that is a sequence of \<open>write\<close>s, and a reader that gives the value back from the bytes
  of those writes and leaves what follows them.
\<close>

locale wire_field =
  fixes wr :: "'v \<Rightarrow> serialize \<Rightarrow> serialize res"
    and rd :: "serialize \<Rightarrow> ('v \<times> serialize) res"
    and chunks :: "'v \<Rightarrow> byte list list"
    and ok :: "'v \<Rightarrow> bool"
  assumes wr_chunks: "ok v \<Longrightarrow> wr v s = foldR Serialize_write (chunks v) s"
    and rd_chunks: "ok v \<Longrightarrow> deser_ok d \<Longrightarrow> pending d = concat (chunks v) @ rest \<Longrightarrow>
      \<exists>d'. rd d = Inr (v, d') \<and> deser_ok d' \<and> pending d' = rest"

text \<open>A reader repeated a number of times.\<close>

fun read_times ::
  "(serialize \<Rightarrow> ('v \<times> serialize) res) \<Rightarrow> nat \<Rightarrow> serialize \<Rightarrow> ('v list \<times> serialize) res" where
  "read_times rd 0 s = Inr ([], s)"
| "read_times rd (Suc n) s =
     bindR (rd s) (\<lambda>(v, s'). bindR (read_times rd n s') (\<lambda>(vs, s''). Inr (v # vs, s'')))"

context wire_field begin

lemma write_all:
  "list_all ok vs \<Longrightarrow> foldR wr vs s = foldR Serialize_write (concat (map chunks vs)) s"
proof (induction vs arbitrary: s)
  case (Cons v vs)
  then have "foldR wr vs = foldR Serialize_write (concat (map chunks vs))"
    by (intro ext) simp
  with Cons.prems show ?case by (simp add: foldR_append wr_chunks)
qed simp

lemma read_all:
  "list_all ok vs \<Longrightarrow> deser_ok d \<Longrightarrow> pending d = concat (concat (map chunks vs)) @ rest \<Longrightarrow>
   \<exists>d'. read_times rd (length vs) d = Inr (vs, d') \<and> deser_ok d' \<and> pending d' = rest"
proof (induction vs arbitrary: d)
  case (Cons v vs)
  then obtain d1 where d1: "rd d = Inr (v, d1)" "deser_ok d1"
    "pending d1 = concat (concat (map chunks vs)) @ rest"
    using rd_chunks [of v d "concat (concat (map chunks vs)) @ rest"] by auto
  with Cons.IH [OF _ d1(2,3)] Cons.prems(1) show ?case by auto
qed simp

lemma transmit_all:
  assumes "list_all ok vs" "0 < base" "base < 2 ^ 32"
    and "length (concat (butlast (concat (map chunks vs)))) < base"
    and "concat (concat (map chunks vs)) \<noteq> []" "length (concat (concat (map chunks vs))) < 2 ^ 32"
  shows "transmit base (foldR wr vs) (read_times rd (length vs)) = Inr vs"
proof (rule transmit_chunks [where chunks = "concat (map chunks vs)", OF _ assms(2-6)])
  show "foldR wr vs (Serialize_new SERIALIZER base) =
      foldR Serialize_write (concat (map chunks vs)) (Serialize_new SERIALIZER base)"
    by (rule write_all [OF assms(1)])
next
  fix d
  assume "deser_ok d" "pending d = concat (concat (map chunks vs))"
  then show "\<exists>d'. read_times rd (length vs) d = Inr (vs, d')"
    using read_all [OF assms(1), of d "[]"] by auto
qed

end

text \<open>A field of bounded width, written at once.\<close>

locale wire_scalar = wire_field +
  fixes width :: nat
  assumes one_chunk: "ok v \<Longrightarrow> \<exists>c. chunks v = [c] \<and> c \<noteq> [] \<and> length c \<le> width"

context wire_scalar begin

lemma chunk_list:
  "list_all ok vs \<Longrightarrow> \<exists>cs. concat (map chunks vs) = cs \<and> length cs = length vs \<and>
     list_all (\<lambda>c. c \<noteq> [] \<and> length c \<le> width) cs"
proof (induction vs)
  case (Cons v vs)
  then show ?case using one_chunk [of v] by auto
qed simp

lemma transmit_scalars:
  assumes "list_all ok vs" "vs \<noteq> []" "base < 2 ^ 32"
    and "width * (length vs - 1) < base" "width * length vs < 2 ^ 32"
  shows "transmit base (foldR wr vs) (read_times rd (length vs)) = Inr vs"
proof -
  obtain cs where cs: "concat (map chunks vs) = cs" "length cs = length vs"
    "list_all (\<lambda>c. c \<noteq> [] \<and> length c \<le> width) cs"
    using chunk_list [OF assms(1)] by blast
  have bound: "list_all (\<lambda>c. c \<noteq> [] \<and> length c \<le> width) xs \<Longrightarrow> length (concat xs) \<le> width * length xs"
    for xs :: "byte list list"
    by (induction xs) auto
  have "length (concat (butlast cs)) \<le> width * (length vs - 1)"
    using bound [of "butlast cs"] cs(2,3) by (auto simp: list_all_iff dest: in_set_butlastD)
  moreover have "concat cs \<noteq> []"
    using cs(2,3) assms(2) by (cases cs) auto
  moreover have "length (concat cs) \<le> width * length vs"
    using bound [OF cs(3)] cs(2) by simp
  ultimately show ?thesis
    using assms by (intro transmit_all) (auto simp: cs(1))
qed

end

text \<open>Two fields in a row are a field.\<close>

definition wr_pair ::
  "('v \<Rightarrow> serialize \<Rightarrow> serialize res) \<Rightarrow> ('w \<Rightarrow> serialize \<Rightarrow> serialize res) \<Rightarrow>
   'v \<times> 'w \<Rightarrow> serialize \<Rightarrow> serialize res" where
  "wr_pair wr1 wr2 = (\<lambda>(v, w) s. bindR (wr1 v s) (wr2 w))"

definition rd_pair ::
  "(serialize \<Rightarrow> ('v \<times> serialize) res) \<Rightarrow> (serialize \<Rightarrow> ('w \<times> serialize) res) \<Rightarrow>
   serialize \<Rightarrow> (('v \<times> 'w) \<times> serialize) res" where
  "rd_pair rd1 rd2 = (\<lambda>s. bindR (rd1 s) (\<lambda>(v, s'). bindR (rd2 s') (\<lambda>(w, s''). Inr ((v, w), s''))))"

locale wire_pair =
  fst: wire_field wr1 rd1 chunks1 ok1 + snd: wire_field wr2 rd2 chunks2 ok2
  for wr1 :: "'v \<Rightarrow> serialize \<Rightarrow> serialize res" and rd1 and chunks1 and ok1
    and wr2 :: "'w \<Rightarrow> serialize \<Rightarrow> serialize res" and rd2 and chunks2 and ok2

sublocale wire_pair \<subseteq> both: wire_field
  "wr_pair wr1 wr2"
  "rd_pair rd1 rd2"
  "\<lambda>(v, w). chunks1 v @ chunks2 w"
  "\<lambda>(v, w). ok1 v \<and> ok2 w"
proof (unfold_locales, goal_cases)
  case (1 vw s)
  obtain v w where vw: "vw = (v, w)" by (cases vw)
  with 1 have "wr2 w = foldR Serialize_write (chunks2 w)"
    by (intro ext) (simp add: snd.wr_chunks)
  with 1 vw show ?case by (simp add: foldR_append fst.wr_chunks wr_pair_def)
next
  case (2 vw d rest)
  obtain v w where vw: "vw = (v, w)" by (cases vw)
  with 2 obtain d1 where d1: "rd1 d = Inr (v, d1)" "deser_ok d1" "pending d1 = concat (chunks2 w) @ rest"
    using fst.rd_chunks [of v d "concat (chunks2 w) @ rest"] by auto
  with 2 vw snd.rd_chunks [OF _ d1(2,3)] show ?case by (auto simp: rd_pair_def)
qed

subsection \<open>The fields of the library\<close>

lemma writeBit32_little: "writeBit32 True v s = Serialize_write (store False 4 v) s"
  by (simp add: writeBit32_def Let_def store_bswap)

lemma writeBit64_little: "writeBit64 True v s = Serialize_write (store False 8 v) s"
  by (simp add: writeBit64_def Let_def store_bswap)

lemma readBit32_little:
  "deser_ok d \<Longrightarrow> pending d = store False 4 v @ rest \<Longrightarrow>
   \<exists>d'. readBit32 True d = Inr (v, d') \<and> deser_ok d' \<and> pending d' = rest"
  using read_append [of d "store False 4 v" rest 4] bswap_load_store [where 'a = 32 and n = 4 and le = True]
  by (auto simp: readBit32_def)

lemma readBit64_little:
  "deser_ok d \<Longrightarrow> pending d = store False 8 v @ rest \<Longrightarrow>
   \<exists>d'. readBit64 True d = Inr (v, d') \<and> deser_ok d' \<and> pending d' = rest"
  using read_append [of d "store False 8 v" rest 8] bswap_load_store [where 'a = 64 and n = 8 and le = True]
  by (auto simp: readBit64_def)

lemma store_not_Nil: "0 < n \<Longrightarrow> store le n v \<noteq> []"
  by (metis length_store length_0_conv less_numeral_extra(3))

lemmas fixed_simps = writeFixed32_def writeFixed64_def readFixed32_def readFixed64_def
  writeFloat_def writeDouble_def readFloat_def readDouble_def writeBit32_little writeBit64_little

interpretation fixed32: wire_scalar "writeFixed32 True" "readFixed32 True" "\<lambda>v. [store False 4 v]" "\<lambda>_. True" 4
  by unfold_locales (auto simp: fixed_simps store_not_Nil intro!: readBit32_little)

interpretation fixed64: wire_scalar "writeFixed64 True" "readFixed64 True" "\<lambda>v. [store False 8 v]" "\<lambda>_. True" 8
  by unfold_locales (auto simp: fixed_simps store_not_Nil intro!: readBit64_little)

interpretation float32: wire_scalar "writeFloat True" "readFloat True" "\<lambda>v. [store False 4 v]" "\<lambda>_. True" 4
  by unfold_locales (auto simp: fixed_simps store_not_Nil intro!: readBit32_little)

interpretation float64: wire_scalar "writeDouble True" "readDouble True" "\<lambda>v. [store False 8 v]" "\<lambda>_. True" 8
  by unfold_locales (auto simp: fixed_simps store_not_Nil intro!: readBit64_little)

interpretation sfixed32: wire_scalar "writeSFixed32 True" "readSFixed32 True"
  "\<lambda>v. [store False 4 (zz_enc v)]" "\<lambda>v. sint v \<noteq> - (2 ^ 31)" 4
proof (unfold_locales, goal_cases)
  case (2 v d rest)
  then obtain d' where "readFixed32 True d = Inr (zz_enc v, d')" "deser_ok d'" "pending d' = rest"
    using fixed32.rd_chunks [of d "zz_enc v" rest] by auto
  then show ?case by (simp add: readSFixed32_def decodeZigZag32_def)
qed (auto simp: writeSFixed32_def encodeZigZag32_def fixed_simps store_not_Nil)

interpretation sfixed64: wire_scalar "writeSFixed64 True" "readSFixed64 True"
  "\<lambda>v. [store False 8 (zz_enc v)]" "\<lambda>v. sint v \<noteq> - (2 ^ 63)" 8
proof (unfold_locales, goal_cases)
  case (2 v d rest)
  then obtain d' where "readFixed64 True d = Inr (zz_enc v, d')" "deser_ok d'" "pending d' = rest"
    using fixed64.rd_chunks [of d "zz_enc v" rest] by auto
  then show ?case by (simp add: readSFixed64_def decodeZigZag64_def)
qed (auto simp: writeSFixed64_def encodeZigZag64_def fixed_simps store_not_Nil)

interpretation varint8: wire_scalar writeVarInt8 readVarInt8 "\<lambda>v. [[v]]" "\<lambda>_. True" 1
proof (unfold_locales, goal_cases)
  case (2 v d rest)
  with read_byte [of d v rest] show ?case by (auto simp: readVarInt8_def)
qed (auto simp: writeVarInt8_def)

interpretation varuint8: wire_scalar writeVarUint8 readVarUint8 "\<lambda>v. [[v]]" "\<lambda>_. True" 1
proof (unfold_locales, goal_cases)
  case (2 v d rest)
  with read_byte [of d v rest] show ?case by (auto simp: readVarUint8_def)
qed (auto simp: writeVarUint8_def)

lemma varint_tmp_16: "varint_tmp 3 (unat (v :: 16 word)) [] = Inr (varint_bytes (unat v))"
  using varint_tmp_word [where 'a = 16 and k = 2] by (simp add: numeral_3_eq_3)

lemma varint_tmp_32: "varint_tmp 5 (unat (v :: 32 word)) [] = Inr (varint_bytes (unat v))"
  using varint_tmp_word [where 'a = 32 and k = 4] by simp

lemma varint_tmp_64: "varint_tmp 10 (unat (v :: 64 word)) [] = Inr (varint_bytes (unat v))"
  using varint_tmp_word [where 'a = 64 and k = 9] by simp

lemma varint_width:
  assumes "2 ^ LENGTH('a::len) \<le> (128 ^ Suc k :: nat)"
  shows "length (varint_bytes (unat (v :: 'a word))) \<le> Suc k"
  by (rule length_varint_bytes_le) (use unat_less_exp [of v] assms in linarith)

lemma varint_width_16: "length (varint_bytes (unat (v :: 16 word))) \<le> 3"
  using varint_width [where 'a = 16 and k = 2] by (simp add: numeral_3_eq_3)

lemma varint_width_32: "length (varint_bytes (unat (v :: 32 word))) \<le> 5"
  using varint_width [where 'a = 32 and k = 4] by simp

lemma varint_width_64: "length (varint_bytes (unat (v :: 64 word))) \<le> 10"
  using varint_width [where 'a = 64 and k = 9] by simp

interpretation varuint16: wire_scalar writeVarUint16 readVarUint16
  "\<lambda>v. [varint_bytes (unat v)]" "\<lambda>_. True" 3
proof (unfold_locales, goal_cases)
  case (2 v d rest)
  with readVar_varint [of d v rest] show ?case by (simp add: readVarUint16_def)
qed (auto simp: writeVarUint16_def varint_tmp_16 varint_width_16)

interpretation varuint32: wire_scalar writeVarUint32 readVarUint32
  "\<lambda>v. [varint_bytes (unat v)]" "\<lambda>_. True" 5
proof (unfold_locales, goal_cases)
  case (2 v d rest)
  with readVar_varint [of d v rest] show ?case by (simp add: readVarUint32_def)
qed (auto simp: writeVarUint32_def varint_tmp_32 varint_width_32)

interpretation varuint64: wire_scalar writeVarUint64 readVarUint64
  "\<lambda>v. [varint_bytes (unat v)]" "\<lambda>_. True" 10
proof (unfold_locales, goal_cases)
  case (2 v d rest)
  with readVar_varint [of d v rest] show ?case by (simp add: readVarUint64_def)
qed (auto simp: writeVarUint64_def varint_tmp_64 varint_width_64)

interpretation varint16: wire_scalar writeVarInt16 readVarInt16
  "\<lambda>v. [varint_bytes (unat (zz_enc v))]" "\<lambda>_. True" 3
proof (unfold_locales, goal_cases)
  case (2 v d rest)
  then show ?case using varuint16.rd_chunks [of d "zz_enc v" rest]
    by (auto simp: readVarInt16_def decodeZigZag16_def)
qed (auto simp: writeVarInt16_def encodeZigZag16_def writeVarUint16_def varint_tmp_16 varint_width_16)

interpretation varint32: wire_scalar writeVarInt32 readVarInt32
  "\<lambda>v. [varint_bytes (unat (zz_enc v))]" "\<lambda>v. sint v \<noteq> - (2 ^ 31)" 5
proof (unfold_locales, goal_cases)
  case (2 v d rest)
  then show ?case using varuint32.rd_chunks [of d "zz_enc v" rest]
    by (auto simp: readVarInt32_def decodeZigZag32_def)
qed (auto simp: writeVarInt32_def encodeZigZag32_def writeVarUint32_def varint_tmp_32 varint_width_32)

interpretation varint64: wire_scalar writeVarInt64 readVarInt64
  "\<lambda>v. [varint_bytes (unat (zz_enc v))]" "\<lambda>v. sint v \<noteq> - (2 ^ 63)" 10
proof (unfold_locales, goal_cases)
  case (2 v d rest)
  then show ?case using varuint64.rd_chunks [of d "zz_enc v" rest]
    by (auto simp: readVarInt64_def decodeZigZag64_def)
qed (auto simp: writeVarInt64_def encodeZigZag64_def writeVarUint64_def varint_tmp_64 varint_width_64)

definition string_chunks :: "byte list \<Rightarrow> byte list list" where
  "string_chunks str = varint_bytes (length str) # (if str = [] then [] else [str])"

interpretation string_field: wire_field writeString readString
  string_chunks "\<lambda>str. length str < 2 ^ 32"
proof (unfold_locales, goal_cases)
  case (1 str s)
  then show ?case
    by (auto simp: writeString_def string_chunks_def Let_def varuint32.wr_chunks word_of_nat_eq_0_iff nat_dvd_not_less)
next
  case (2 str d rest)
  let ?len = "word_of_nat (length str) :: 32 word"
  have len: "unat ?len = length str" using 2(1) by simp
  let ?body = "if str = [] then [] else str"
  have "pending d = varint_bytes (unat ?len) @ ?body @ rest"
    using 2(3) by (auto simp: len string_chunks_def)
  then obtain d1 where d1: "readVarUint32 d = Inr (?len, d1)" "deser_ok d1" "pending d1 = ?body @ rest"
    using varuint32.rd_chunks [of d ?len "?body @ rest"] 2(2) by auto
  show ?case
  proof (cases "str = []")
    case True
    with d1 show ?thesis by (simp add: readString_def)
  next
    case False
    then have "?len \<noteq> 0" using len by (metis length_0_conv unat_eq_0)
    moreover obtain d2 where "Serialize_read (unat ?len) d1 = Inr (str, d2)" "deser_ok d2" "pending d2 = rest"
      using read_append [OF d1(2), of str rest "unat ?len"] d1(3) len False by auto
    ultimately show ?thesis using d1(1) by (simp add: readString_def)
  qed
qed

subsection \<open>Properties\<close>

lemma scalar_room:
  "vs \<noteq> [] \<Longrightarrow> w * length vs \<le> base \<Longrightarrow> 0 < w \<Longrightarrow> w * (length vs - 1) < (base :: nat)"
  by (cases vs) auto

text \<open>
  C3: Unsigned integers of 16, 32 or 64 bits, written as varints one after the other, are read back
  unchanged as long as the first block has room for all of them, counting the 3, 5 or 10 bytes that
  one can take. Past the first block they are not, since a write after the overflow overwrites bytes.
\<close>

theorem varint_unsigned_roundtrip:
  assumes "base < 2 ^ 32"
  shows "(us \<noteq> [] \<and> 3 * length us \<le> base \<longrightarrow>
            transmit base (foldR writeVarUint16 us) (read_times readVarUint16 (length us)) = Inr us) \<and>
         (vs \<noteq> [] \<and> 5 * length vs \<le> base \<longrightarrow>
            transmit base (foldR writeVarUint32 vs) (read_times readVarUint32 (length vs)) = Inr vs) \<and>
         (ws \<noteq> [] \<and> 10 * length ws \<le> base \<longrightarrow>
            transmit base (foldR writeVarUint64 ws) (read_times readVarUint64 (length ws)) = Inr ws)"
  using assms scalar_room [of us 3 base] scalar_room [of vs 5 base] scalar_room [of ws 10 base]
  by (auto simp: list_all_iff intro!: varuint16.transmit_scalars varuint32.transmit_scalars
      varuint64.transmit_scalars)

theorem varint_unsigned_roundtrip_witness:
  "transmit 4096 (foldR writeVarUint16 [10, 0xffff]) (read_times readVarUint16 2) = Inr [10, 0xffff] \<and>
   transmit 4096 (foldR writeVarUint32 [128]) (read_times readVarUint32 1) = Inr [128] \<and>
   transmit 4096 (foldR writeVarUint64 [0xffffffff]) (read_times readVarUint64 1) = Inr [0xffffffff]"
  using varint_unsigned_roundtrip [of 4096 "[10, 0xffff]" "[128]" "[0xffffffff]"]
  by (simp flip: numeral_2_eq_2)

text \<open>
  C24: Signed integers are read back unchanged when the first block has room for all of them,
  counting the 3, 5 or 10 bytes of the longest varint of their width: as zigzag varints on any host,
  in fixed width of 4 or 8 bytes on a little-endian one. The least 32- and 64-bit values are left
  out, on which the writers overflow.
\<close>

theorem signed_roundtrip:
  assumes "base < 2 ^ 32" "list_all (\<lambda>v. sint v \<noteq> - (2 ^ 31)) vs" "list_all (\<lambda>w. sint w \<noteq> - (2 ^ 63)) ws"
  shows "(us \<noteq> [] \<and> 3 * length us \<le> base \<longrightarrow>
            transmit base (foldR writeVarInt16 us) (read_times readVarInt16 (length us)) = Inr us) \<and>
         (vs \<noteq> [] \<and> 5 * length vs \<le> base \<longrightarrow>
            transmit base (foldR writeVarInt32 vs) (read_times readVarInt32 (length vs)) = Inr vs \<and>
            transmit base (foldR (writeSFixed32 True) vs) (read_times (readSFixed32 True) (length vs)) = Inr vs) \<and>
         (ws \<noteq> [] \<and> 10 * length ws \<le> base \<longrightarrow>
            transmit base (foldR writeVarInt64 ws) (read_times readVarInt64 (length ws)) = Inr ws \<and>
            transmit base (foldR (writeSFixed64 True) ws) (read_times (readSFixed64 True) (length ws)) = Inr ws)"
  using assms scalar_room [of us 3 base] scalar_room [of vs 5 base] scalar_room [of ws 10 base]
    scalar_room [of vs 4 base] scalar_room [of ws 8 base]
  by (auto simp: list_all_iff intro!: varint16.transmit_scalars varint32.transmit_scalars
      varint64.transmit_scalars sfixed32.transmit_scalars sfixed64.transmit_scalars)

theorem signed_roundtrip_witness:
  "transmit 4096 (foldR writeVarInt16 [-1]) (read_times readVarInt16 1) = Inr [-1] \<and>
   transmit 4096 (foldR writeVarInt32 [-16, 5]) (read_times readVarInt32 2) = Inr [-16, 5] \<and>
   transmit 4096 (foldR (writeSFixed64 True) [-2]) (read_times (readSFixed64 True) 1) = Inr [-2]"
  using signed_roundtrip [of 4096 "[-16, 5]" "[-2]" "[-1]"] by (simp flip: numeral_2_eq_2)

text \<open>
  C32: On a little-endian host, integers of 4 or 8 bytes in fixed width, and floating point numbers
  (as their bits), are read back unchanged when all of them fit the first block.
\<close>

theorem fixed_roundtrip:
  assumes "base < 2 ^ 32"
  shows "(vs \<noteq> [] \<and> 4 * length vs \<le> base \<longrightarrow>
            transmit base (foldR (writeFixed32 True) vs) (read_times (readFixed32 True) (length vs)) = Inr vs \<and>
            transmit base (foldR (writeFloat True) vs) (read_times (readFloat True) (length vs)) = Inr vs) \<and>
         (ws \<noteq> [] \<and> 8 * length ws \<le> base \<longrightarrow>
            transmit base (foldR (writeFixed64 True) ws) (read_times (readFixed64 True) (length ws)) = Inr ws \<and>
            transmit base (foldR (writeDouble True) ws) (read_times (readDouble True) (length ws)) = Inr ws)"
  using assms scalar_room [of vs 4 base] scalar_room [of ws 8 base]
  by (auto simp: list_all_iff intro!: fixed32.transmit_scalars fixed64.transmit_scalars
      float32.transmit_scalars float64.transmit_scalars)

theorem fixed_roundtrip_witness:
  "transmit 4096 (foldR (writeFixed32 True) [0x12345678]) (read_times (readFixed32 True) 1) = Inr [0x12345678] \<and>
   transmit 4096 (foldR (writeFixed64 True) [0x0123456789abcdef]) (read_times (readFixed64 True) 1) = Inr [0x0123456789abcdef]"
  using fixed_roundtrip [of 4096 "[0x12345678]" "[0x0123456789abcdef]"] by simp

text \<open>
  C33: On a big-endian host the reader swaps bytes the writer did not swap: every fixed-width
  value comes back with its bytes reversed.
\<close>

theorem fixed_big_endian_swapped:
  assumes "0 < base" "base < 2 ^ 32"
  shows "transmit base (writeFixed32 False v) (readFixed32 False) = Inr (bswap 4 v) \<and>
         transmit base (writeFixed64 False w) (readFixed64 False) = Inr (bswap 8 w)"
proof
  have r32: "\<exists>d'. readFixed32 False d = Inr (bswap 4 v, d')"
    if "deser_ok d" "pending d = concat [store False 4 v]" for d
    using read_append [OF that(1), of "store False 4 v" "[]" 4] that(2)
    by (auto simp: readFixed32_def readBit32_def load_store)
  have r64: "\<exists>d'. readFixed64 False d = Inr (bswap 8 w, d')"
    if "deser_ok d" "pending d = concat [store False 8 w]" for d
    using read_append [OF that(1), of "store False 8 w" "[]" 8] that(2)
    by (auto simp: readFixed64_def readBit64_def load_store)
  show "transmit base (writeFixed32 False v) (readFixed32 False) = Inr (bswap 4 v)"
    by (rule transmit_chunks [where chunks = "[store False 4 v]", OF _ assms _ _ _ r32])
      (simp_all add: assms writeFixed32_def writeBit32_def store_not_Nil)
  show "transmit base (writeFixed64 False w) (readFixed64 False) = Inr (bswap 8 w)"
    by (rule transmit_chunks [where chunks = "[store False 8 w]", OF _ assms _ _ _ r64])
      (simp_all add: assms writeFixed64_def writeBit64_def store_not_Nil)
qed

theorem fixed_big_endian_swapped_witness:
  "transmit 4096 (writeFixed32 False 0x12345678) (readFixed32 False) = Inr 0x78563412"
proof -
  have "bswap 4 (0x12345678 :: 32 word) = 0x78563412" by (simp add: bswap_def nat_bytes_4)
  then show ?thesis using fixed_big_endian_swapped [of 4096 "0x12345678" 0] by simp
qed

text \<open>
  A list of strings, of any bytes, is read back unchanged.
\<close>

theorem string_roundtrip:
  assumes "strs \<noteq> []" "base < 2 ^ 32" "sum_list (map (\<lambda>str. length str + 5) strs) \<le> base"
  shows "transmit base (foldR writeString strs) (read_times readString (length strs)) = Inr strs"
proof (rule string_field.transmit_all)
  let ?chunks = "concat (map string_chunks strs)"
  have short: "length str < 2 ^ 32" if "str \<in> set strs" for str
  proof -
    have "length str + 5 \<le> sum_list (map (\<lambda>str. length str + 5) strs)"
      by (rule member_le_sum_list) (use that in auto)
    with assms(2,3) show ?thesis by linarith
  qed
  then show "list_all (\<lambda>str. length str < 2 ^ 32) strs" by (simp add: list_all_iff)
  have one: "length (concat (string_chunks str)) \<le> length str + 5" if "str \<in> set strs" for str
    using varint_width_32 [of "word_of_nat (length str)"] short [OF that]
    by (cases "str = []") (simp_all add: string_chunks_def)
  have total: "length (concat ?chunks) \<le> base"
  proof -
    have "length (concat ?chunks) = sum_list (map (\<lambda>str. length (concat (string_chunks str))) strs)"
      by (induction strs) simp_all
    also have "\<dots> \<le> sum_list (map (\<lambda>str. length str + 5) strs)"
      by (rule sum_list_mono) (rule one)
    finally show ?thesis using assms(3) by linarith
  qed
  show "length (concat (butlast ?chunks)) < base"
  proof (cases ?chunks rule: rev_cases)
    case Nil
    with assms(1) show ?thesis by (cases strs) (simp_all add: string_chunks_def)
  next
    case (snoc xs x)
    then have "x \<in> set ?chunks" by simp
    then have "x \<noteq> []" by (auto simp: string_chunks_def split: if_splits)
    with snoc total show ?thesis by (cases x) simp_all
  qed
  show "concat ?chunks \<noteq> []"
    using assms(1) by (cases strs) (simp_all add: string_chunks_def)
  show "length (concat ?chunks) < 2 ^ 32" using total assms(2) by linarith
  have "0 < sum_list (map (\<lambda>str. length str + 5) strs)"
    using assms(1) by (cases strs) simp_all
  then show "0 < base" using assms(3) by linarith
qed (rule assms)

theorem string_roundtrip_witness:
  "transmit 4096 (foldR writeString [[104, 105], [], [10, 32, 0]]) (read_times readString 3) =
   Inr [[104, 105], [], [10, 32, 0]]"
  using string_roundtrip [of "[[104, 105], [], [10, 32, 0]]" 4096] by (simp flip: numeral_2_eq_2)

text \<open>
  C35: Reading a varint from arbitrary bytes returns a value after at most 3, 5 or 10 bytes, by its
  width, whatever they are; it fails only where the bytes run out.
\<close>

theorem readVar_bounded:
  assumes "deser_ok d"
  shows "(3 \<le> length (pending d) \<longrightarrow>
           (\<exists>v d' m. readVarUint16 d = Inr (v, d') \<and> deser_ok d' \<and> m \<le> 3 \<and> pending d' = drop m (pending d))) \<and>
         (5 \<le> length (pending d) \<longrightarrow>
           (\<exists>v d' m. readVarUint32 d = Inr (v, d') \<and> deser_ok d' \<and> m \<le> 5 \<and> pending d' = drop m (pending d))) \<and>
         (10 \<le> length (pending d) \<longrightarrow>
           (\<exists>v d' m. readVarUint64 d = Inr (v, d') \<and> deser_ok d' \<and> m \<le> 10 \<and> pending d' = drop m (pending d)))"
  unfolding readVarUint16_def readVarUint32_def readVarUint64_def
  using readVar_loop_total [where 'a = 16, OF assms, of 16 0 3 0] readVar_loop_total [where 'a = 32, OF assms, of 32 0 5 0]
    readVar_loop_total [where 'a = 64, OF assms, of 64 0 10 0]
  by simp

theorem readVar_bounded_witness:
  "\<exists>d v d' m. Serialize_new_bytes DESERIALIZER [0xff, 0xff, 0xff, 0xff, 0xff, 0xff] = Inr d \<and>
     readVarUint32 d = Inr (v, d') \<and> m \<le> 5 \<and> pending d' = drop m [0xff, 0xff, 0xff, 0xff, 0xff, 0xff]"
proof -
  obtain d where d: "Serialize_new_bytes DESERIALIZER [0xff, 0xff, 0xff, 0xff, 0xff, 0xff] = Inr d"
    "deser_ok d" "pending d = [0xff, 0xff, 0xff, 0xff, 0xff, 0xff]"
    using Serialize_new_bytes_ok [of "[0xff, 0xff, 0xff, 0xff, 0xff, 0xff]"] by auto
  with readVar_bounded [OF d(2)] show ?thesis by auto
qed

text \<open>
  A varint writer never runs past its temporary array, and the number of bytes it writes is
  the number of seven-bit groups of the value.
\<close>

theorem varint_size:
  fixes u :: "16 word" and v :: "32 word" and w :: "64 word"
  shows "(\<exists>bs. varint_tmp 3 (unat u) [] = Inr bs \<and> (\<forall>k. length bs \<le> k \<longleftrightarrow> 0 < k \<and> unat u < 128 ^ k)) \<and>
         (\<exists>bs. varint_tmp 5 (unat v) [] = Inr bs \<and> (\<forall>k. length bs \<le> k \<longleftrightarrow> 0 < k \<and> unat v < 128 ^ k)) \<and>
         (\<exists>bs. varint_tmp 10 (unat w) [] = Inr bs \<and> (\<forall>k. length bs \<le> k \<longleftrightarrow> 0 < k \<and> unat w < 128 ^ k))"
proof -
  have "length (varint_bytes n) \<le> k \<longleftrightarrow> 0 < k \<and> n < 128 ^ k" for n k
    using length_varint_bytes_le [of n "k - 1"] length_varint_bytes_gt [of k n]
    by (cases k) (auto simp: not_less [symmetric])
  then show ?thesis by (simp add: varint_tmp_16 varint_tmp_32 varint_tmp_64)
qed

end
