(* ===== verification/SerPerson.thy ===== *)
theory SerPerson
  imports SerCodec
begin

text \<open>
  Files of serialized strings (\<open>Serialize::toFile\<close>, \<open>Serialize::fromFile\<close>) and the example
  message of \<open>serialize/example.hpp\<close>, \<open>struct Person\<close>.
\<close>

subsection \<open>Files\<close>

text \<open>
  The file system the code sees through \<open>std::ofstream\<close> and \<open>std::ifstream\<close>: contents by path,
  and which paths open for writing.
\<close>

record file_system =
  fs_files :: "string \<Rightarrow> byte list option"
  fs_writable :: "string \<Rightarrow> bool"

definition Serialize_toFile :: "string \<Rightarrow> byte list \<Rightarrow> file_system \<Rightarrow> bool \<times> file_system" where
  "Serialize_toFile filepath str fs =
     (if \<not> fs_writable fs filepath then (False, fs)
      else (True, fs\<lparr>fs_files := (fs_files fs)(filepath := Some str)\<rparr>))"

text \<open>
  \<open>infile >> ret\<close> skips white space and takes characters up to the next white space, as
  \<open>isspace\<close> of the C locale says.
\<close>

definition is_space :: "byte \<Rightarrow> bool" where
  "is_space b = (b = 0x20 \<or> (0x09 \<le> b \<and> b \<le> 0x0d))"

definition extract_word :: "byte list \<Rightarrow> byte list" where
  "extract_word bs = takeWhile (\<lambda>b. \<not> is_space b) (dropWhile is_space bs)"

definition Serialize_fromFile :: "string \<Rightarrow> file_system \<Rightarrow> byte list" where
  "Serialize_fromFile filepath fs =
     (case fs_files fs filepath of None \<Rightarrow> [] | Some content \<Rightarrow> extract_word content)"

subsection \<open>The example message\<close>

record Person =
  name :: "byte list"
  sex :: "byte list"
  age :: "8 word"
  property :: "32 word"

definition Person_serializeToString :: "Person \<Rightarrow> cell list res" where
  "Person_serializeToString p =
     bindR (writeString (name p) (Serialize_new SERIALIZER 4096)) (\<lambda>se.
     bindR (writeString (sex p) se) (\<lambda>se.
     bindR (writeVarUint8 (age p) se) (\<lambda>se.
     bindR (writeVarUint32 (property p) se) (\<lambda>se.
     Serialize_toString se))))"

definition Person_deserializeToPerson :: "byte list \<Rightarrow> Person res" where
  "Person_deserializeToPerson str =
     bindR (Serialize_new_bytes DESERIALIZER str) (\<lambda>de.
     bindR (readString de) (\<lambda>(n, de).
     bindR (readString de) (\<lambda>(s, de).
     bindR (readVarUint8 de) (\<lambda>(a, de).
     bindR (readVarUint32 de) (\<lambda>(p, de).
     Inr \<lparr>name = n, sex = s, age = a, property = p\<rparr>)))))"

definition Person_serializeToFile :: "Person \<Rightarrow> string \<Rightarrow> file_system \<Rightarrow> (bool \<times> file_system) res" where
  "Person_serializeToFile p filepath fs =
     bindR (Person_serializeToString p) (\<lambda>cs.
     bindR (cells_bytes cs) (\<lambda>str.
     Inr (Serialize_toFile filepath str fs)))"

definition Person_deserializeFromFile :: "string \<Rightarrow> file_system \<Rightarrow> Person res" where
  "Person_deserializeFromFile filepath fs =
     Person_deserializeToPerson (Serialize_fromFile filepath fs)"

definition Person_eq :: "Person \<Rightarrow> Person \<Rightarrow> bool" where
  "Person_eq rhs lhs \<longleftrightarrow>
     name rhs = name lhs \<and> sex rhs = sex lhs \<and> age rhs = age lhs \<and> property rhs = property lhs"

subsection \<open>Lemmas\<close>

lemma extract_word_not_space: "b \<in> set (extract_word bs) \<Longrightarrow> \<not> is_space b"
  by (auto simp: extract_word_def dest: set_takeWhileD)

lemma extract_word_id_iff: "extract_word bs = bs \<longleftrightarrow> list_all (\<lambda>b. \<not> is_space b) bs"
proof
  assume "extract_word bs = bs"
  then show "list_all (\<lambda>b. \<not> is_space b) bs"
    by (metis extract_word_not_space list_all_iff)
next
  assume all: "list_all (\<lambda>b. \<not> is_space b) bs"
  then have "dropWhile is_space bs = bs" by (cases bs) auto
  with all show "extract_word bs = bs"
    by (simp add: extract_word_def list_all_iff takeWhile_eq_all_conv)
qed

text \<open>A person is a field made of four.\<close>

interpretation strings: wire_pair
  writeString readString string_chunks "\<lambda>str. length str < 2 ^ 32"
  writeString readString string_chunks "\<lambda>str. length str < 2 ^ 32"
  by unfold_locales

interpretation numbers: wire_pair
  writeVarUint8 readVarUint8 "\<lambda>v. [[v]]" "\<lambda>_. True"
  writeVarUint32 readVarUint32 "\<lambda>v. [varint_bytes (unat v)]" "\<lambda>_. True"
  by unfold_locales

definition Person_chunks :: "Person \<Rightarrow> byte list list" where
  "Person_chunks p = string_chunks (name p) @ string_chunks (sex p) @
     [[age p], varint_bytes (unat (property p))]"

lemma length_string_chunks:
  "length str < 128 * 128 \<Longrightarrow> length (concat (string_chunks str)) \<le> length str + 2"
  using length_varint_bytes_le [of "length str" 1] by (auto simp: string_chunks_def)

lemma Person_write_chunks:
  assumes "length (name p) < 2 ^ 32" "length (sex p) < 2 ^ 32"
  shows "Person_serializeToString p =
    bindR (foldR Serialize_write (Person_chunks p) (Serialize_new SERIALIZER 4096)) Serialize_toString"
proof -
  let ?fields = "((name p, sex p), (age p, property p))"
  have "Person_serializeToString p =
    bindR (bindR (wr_pair writeString writeString (name p, sex p) (Serialize_new SERIALIZER 4096))
       (wr_pair writeVarUint8 writeVarUint32 (age p, property p))) Serialize_toString"
    by (simp add: Person_serializeToString_def wr_pair_def bindR_assoc)
  moreover have "wr_pair writeVarUint8 writeVarUint32 (age p, property p) =
      foldR Serialize_write [[age p], varint_bytes (unat (property p))]"
    by (rule ext, subst numbers.both.wr_chunks) auto
  moreover have "wr_pair writeString writeString (name p, sex p) (Serialize_new SERIALIZER 4096) =
      foldR Serialize_write (string_chunks (name p) @ string_chunks (sex p)) (Serialize_new SERIALIZER 4096)"
    using assms by (subst strings.both.wr_chunks) auto
  moreover have "Person_chunks p = (string_chunks (name p) @ string_chunks (sex p)) @
      [[age p], varint_bytes (unat (property p))]"
    by (simp add: Person_chunks_def)
  ultimately show ?thesis by (simp only: foldR_append)
qed

lemma Person_read_chunks:
  assumes "length (name p) < 2 ^ 32" "length (sex p) < 2 ^ 32"
    and "bs = concat (Person_chunks p)" "length bs < 2 ^ 32"
  shows "Person_deserializeToPerson bs = Inr p"
proof -
  have ne: "bs \<noteq> []" by (simp add: assms(3) Person_chunks_def)
  obtain d where d: "Serialize_new_bytes DESERIALIZER bs = Inr d" "deser_ok d" "pending d = bs"
    using Serialize_new_bytes_ok [OF ne assms(4)] by blast
  let ?nums = "concat [[age p], varint_bytes (unat (property p))]"
  obtain d1 where d1: "rd_pair readString readString d = Inr ((name p, sex p), d1)" "deser_ok d1"
    "pending d1 = ?nums"
    using strings.both.rd_chunks [of "(name p, sex p)" d ?nums] d assms
    by (auto simp: Person_chunks_def string_chunks_def)
  obtain d2 where d2: "rd_pair readVarUint8 readVarUint32 d1 = Inr ((age p, property p), d2)"
    using numbers.both.rd_chunks [of "(age p, property p)" d1 "[]"] d1 by auto
  have "Person_deserializeToPerson bs =
    bindR (rd_pair readString readString d) (\<lambda>((n, s), de).
    bindR (rd_pair readVarUint8 readVarUint32 de) (\<lambda>((a, p), de).
      Inr \<lparr>name = n, sex = s, age = a, property = p\<rparr>))"
    by (simp add: Person_deserializeToPerson_def d(1) rd_pair_def bindR_assoc split_def)
  then show ?thesis by (simp add: d1(1) d2)
qed

lemma Person_string:
  assumes "length (name p) + length (sex p) \<le> 4090"
  shows "Person_serializeToString p = Inr (map Some (concat (Person_chunks p)))"
    and "length (concat (Person_chunks p)) < 2 ^ 32"
proof -
  have sizes: "length (concat (string_chunks (name p))) \<le> length (name p) + 2"
    "length (concat (string_chunks (sex p))) \<le> length (sex p) + 2"
    using assms length_string_chunks [of "name p"] length_string_chunks [of "sex p"] by simp_all
  have last: "length (concat (butlast (Person_chunks p))) < 4096"
    using sizes assms by (simp add: Person_chunks_def butlast_append)
  show small: "length (concat (Person_chunks p)) < 2 ^ 32"
    using sizes assms varint_width_32 [of "property p"] by (simp add: Person_chunks_def)
  have "ser_fits (Serialize_new SERIALIZER 4096) []"
    by (rule Serialize_new_fits) simp_all
  from writes_hold [OF this, of "Person_chunks p"] last small
  show "Person_serializeToString p = Inr (map Some (concat (Person_chunks p)))"
    using assms by (subst Person_write_chunks) (auto simp: ser_holds_def Serialize_new_def)
qed

subsection \<open>Properties\<close>

text \<open>
  C25: A person whose name and sex fit the first block together comes back from its string
  unchanged.
\<close>

theorem Person_string_roundtrip:
  assumes "length (name p) + length (sex p) \<le> 4090"
  shows "bindR (Person_serializeToString p) (\<lambda>cs. bindR (cells_bytes cs) Person_deserializeToPerson) = Inr p"
proof -
  have "Person_deserializeToPerson (concat (Person_chunks p)) = Inr p"
    using assms by (intro Person_read_chunks Person_string(2)) auto
  then show ?thesis by (simp add: Person_string(1) [OF assms])
qed

theorem Person_string_roundtrip_witness:
  "bindR (Person_serializeToString \<lparr>name = [99, 111], sex = [109], age = 24, property = 10000000\<rparr>)
     (\<lambda>cs. bindR (cells_bytes cs) Person_deserializeToPerson) =
   Inr \<lparr>name = [99, 111], sex = [109], age = 24, property = 10000000\<rparr>"
  by (rule Person_string_roundtrip) simp

text \<open>
  C30: A string written to a file is read back unchanged exactly when no byte of it is white
  space: \<open>fromFile\<close> extracts one word.
\<close>

theorem toFile_fromFile_iff:
  assumes "fs_writable fs path"
  shows "Serialize_fromFile path (snd (Serialize_toFile path str fs)) = str \<longleftrightarrow>
         list_all (\<lambda>b. \<not> is_space b) str"
  using assms by (simp add: Serialize_fromFile_def Serialize_toFile_def extract_word_id_iff)

theorem toFile_fromFile_iff_witness:
  "Serialize_fromFile ''p'' (snd (Serialize_toFile ''p'' [10, 99, 111]
     \<lparr>fs_files = (\<lambda>_. None), fs_writable = (\<lambda>_. True)\<rparr>)) \<noteq> [10, 99, 111]"
  using toFile_fromFile_iff [of "\<lparr>fs_files = (\<lambda>_. None), fs_writable = (\<lambda>_. True)\<rparr>" "''p''" "[10, 99, 111]"]
  by (simp add: is_space_def)

text \<open>
  A person whose serialized string holds no white-space byte survives the way through a
  file: \<open>serializeToFile\<close> reports success and \<open>deserializeFromFile\<close> gives an equal person.
\<close>

theorem Person_file_roundtrip:
  assumes "fs_writable fs path" "length (name p) + length (sex p) \<le> 4090"
    and "list_all (\<lambda>b. \<not> is_space b) (concat (Person_chunks p))"
  shows "\<exists>fs' q. Person_serializeToFile p path fs = Inr (True, fs') \<and>
           Person_deserializeFromFile path fs' = Inr q \<and> Person_eq p q"
proof -
  let ?str = "concat (Person_chunks p)"
  let ?fs' = "fs\<lparr>fs_files := (fs_files fs)(path := Some ?str)\<rparr>"
  have "Person_serializeToFile p path fs = Inr (True, ?fs')"
    using assms(1) by (simp add: Person_serializeToFile_def Person_string(1) [OF assms(2)] Serialize_toFile_def)
  moreover have "Serialize_fromFile path ?fs' = ?str"
    using assms(3) by (simp add: Serialize_fromFile_def extract_word_id_iff)
  moreover have "Person_deserializeToPerson ?str = Inr p"
    using assms(2) by (intro Person_read_chunks Person_string(2)) auto
  ultimately show ?thesis
    by (intro exI [of _ ?fs'] exI [of _ p]) (simp add: Person_deserializeFromFile_def Person_eq_def)
qed

theorem Person_file_roundtrip_witness:
  "\<exists>fs' q. Person_serializeToFile \<lparr>name = [99, 111], sex = [109, 97], age = 24, property = 5\<rparr> ''p''
       \<lparr>fs_files = (\<lambda>_. None), fs_writable = (\<lambda>_. True)\<rparr> = Inr (True, fs') \<and>
     Person_deserializeFromFile ''p'' fs' = Inr q \<and>
     Person_eq \<lparr>name = [99, 111], sex = [109, 97], age = 24, property = 5\<rparr> q"
  by (rule Person_file_roundtrip)
    (simp_all add: Person_chunks_def string_chunks_def varint_bytes_small is_space_def)

end
