(* ===== verification/LinkedList.thy ===== *)
theory LinkedList
  imports Prelude
begin

text \<open>
  The template \<open>List\<close> of \<open>ds/list.h\<close>: a singly linked list with positions that may count from
  the end. Items live in a heap, a map from addresses to items; \<open>new\<close> takes the next address
  never used before and \<open>delete\<close> removes the item, so a dangling pointer is a fault when followed.
  The state of an object is its members and the heap. What the operations print is in \<open>ListDemo\<close>.
\<close>

subsection \<open>State\<close>

record 'a item =
  item_data :: 'a
  item_next :: "nat option"

type_synonym 'a heap = "nat \<rightharpoonup> 'a item"

record 'a list_obj =
  l_head :: "nat option"
  l_len :: nat
  l_heap :: "'a heap"
  l_brk :: nat

definition List_new :: "'a list_obj" where
  "List_new = \<lparr>l_head = None, l_len = 0, l_heap = Map.empty, l_brk = 0\<rparr>"

subsection \<open>Operations\<close>

definition deref :: "'a heap \<Rightarrow> nat option \<Rightarrow> (nat \<times> 'a item) res" where
  "deref h p =
     (case p of None \<Rightarrow> Inl NullDeref
      | Some a \<Rightarrow> (case h a of None \<Rightarrow> Inl UseAfterFree | Some it \<Rightarrow> Inr (a, it)))"

definition List_empty :: "'a list_obj \<Rightarrow> bool" where
  "List_empty s \<longleftrightarrow> l_head s = None \<and> l_len s = 0"

text \<open>The walk of \<open>pToPos\<close>; its argument is a \<open>uint32\<close>.\<close>

fun walk :: "'a heap \<Rightarrow> nat option \<Rightarrow> nat \<Rightarrow> nat option res" where
  "walk h p n =
     (if n = 0 then Inr p else bindR (deref h p) (\<lambda>(a, it). walk h (item_next it) (n - 1)))"

declare walk.simps [simp del]

definition List_pToPos :: "int \<Rightarrow> 'a list_obj \<Rightarrow> nat option res" where
  "List_pToPos pos s = walk (l_heap s) (l_head s) (nat (pos mod 2 ^ 32))"

definition List_posPos :: "int \<Rightarrow> int \<Rightarrow> int \<Rightarrow> int" where
  "List_posPos len real_len pos =
     (let neg = -1 * len - 1 in
      if pos < neg \<or> pos > len then -1
      else if pos < 0 then pos + real_len else pos)"

definition List_insert :: "int \<Rightarrow> 'a \<Rightarrow> 'a list_obj \<Rightarrow> (int \<times> 'a list_obj) res" where
  "List_insert pos x s =
     (let n = to_int32 (int (l_len s)); pospos = List_posPos n n pos in
      if pospos = -1 then Inr (-1, s)
      else
        let np = l_brk s;
            s1 = s\<lparr>l_heap := (l_heap s)(np \<mapsto> \<lparr>item_data = x, item_next = None\<rparr>), l_brk := np + 1\<rparr> in
        if pospos = 0 then
          Inr (0, s1\<lparr>l_heap := (l_heap s1)(np \<mapsto> \<lparr>item_data = x, item_next = l_head s1\<rparr>),
                     l_head := Some np, l_len := l_len s1 + 1\<rparr>)
        else
          bindR (List_pToPos (pospos - 1) s1) (\<lambda>p.
          bindR (deref (l_heap s1) p) (\<lambda>(a, it).
            Inr (0, s1\<lparr>l_heap := (l_heap s1)
                          (a \<mapsto> it\<lparr>item_next := Some np\<rparr>,
                           np \<mapsto> \<lparr>item_data = x, item_next = item_next it\<rparr>),
                       l_len := l_len s1 + 1\<rparr>))))"

definition List_insertTail :: "'a \<Rightarrow> 'a list_obj \<Rightarrow> (int \<times> 'a list_obj) res" where
  "List_insertTail x s = List_insert (to_int32 (int (l_len s))) x s"

text \<open>
  \<open>remove\<close> puts a stack object \<open>itm\<close>, whose data is \<open>T ()\<close> (\<open>dflt\<close>), in front of the list
  while it works. The object is at an address of its own and gone at the end.
\<close>

definition List_remove :: "'a \<Rightarrow> int \<Rightarrow> 'a list_obj \<Rightarrow> (int \<times> 'a list_obj) res" where
  "List_remove dflt pos s =
     (if List_empty s then Inr (-1, s)
      else
        let pospos = List_posPos (to_int32 (int (l_len s - 1))) (to_int32 (int (l_len s))) pos in
        if pospos = -1 then Inr (-1, s)
        else
          let itm = l_brk s;
              s1 = s\<lparr>l_heap := (l_heap s)(itm \<mapsto> \<lparr>item_data = dflt, item_next = l_head s\<rparr>),
                     l_brk := itm + 1, l_head := Some itm, l_len := l_len s + 1\<rparr> in
          bindR (List_pToPos pospos s1) (\<lambda>p.
          bindR (deref (l_heap s1) p) (\<lambda>(a, ita).
          bindR (deref (l_heap s1) (item_next ita)) (\<lambda>(r, itr).
          let s2 = s1\<lparr>l_heap := ((l_heap s1)(a \<mapsto> ita\<lparr>item_next := item_next itr\<rparr>))(r := None),
                      l_len := l_len s1 - 1\<rparr> in
          bindR (deref (l_heap s2) (l_head s2)) (\<lambda>(i, iti).
            Inr (0, s2\<lparr>l_head := item_next iti, l_len := l_len s2 - 1,
                       l_heap := (l_heap s2)(itm := None)\<rparr>))))))"

definition List_get :: "int \<Rightarrow> 'a list_obj \<Rightarrow> 'a res" where
  "List_get pos s =
     (if List_empty s then Inl Exited
      else
        let pospos = List_posPos (to_int32 (int (l_len s - 1))) (to_int32 (int (l_len s))) pos in
        bindR (List_pToPos pospos s) (\<lambda>p.
        bindR (deref (l_heap s) p) (\<lambda>(a, it). Inr (item_data it))))"

text \<open>The destructor removes the first item until the list is empty; \<open>None\<close>: it never returns.\<close>

partial_function (option) List_destroy :: "'a \<Rightarrow> 'a list_obj \<Rightarrow> 'a list_obj res option" where
  "List_destroy dflt s =
     (if List_empty s then Some (Inr s)
      else case List_remove dflt 0 s of
        Inl e \<Rightarrow> Some (Inl e)
      | Inr (r, s') \<Rightarrow> List_destroy dflt s')"

subsection \<open>Chains of items\<close>

primrec chain :: "'a heap \<Rightarrow> nat option \<Rightarrow> nat list \<Rightarrow> nat option \<Rightarrow> bool" where
  "chain h p [] q \<longleftrightarrow> p = q"
| "chain h p (a # as) q \<longleftrightarrow> p = Some a \<and> (\<exists>it. h a = Some it \<and> chain h (item_next it) as q)"

lemma chain_append: "chain h p (as @ bs) q \<longleftrightarrow> (\<exists>r. chain h p as r \<and> chain h r bs q)"
  by (induction as arbitrary: p) auto

lemma chain_upd [simp]: "a \<notin> set as \<Longrightarrow> chain (h(a := v)) p as q \<longleftrightarrow> chain h p as q"
  by (induction as arbitrary: p) auto

lemma chain_dom: "chain h p as q \<Longrightarrow> set as \<subseteq> dom h"
  by (induction as arbitrary: p) auto

lemma walk_0 [simp]: "walk h p 0 = Inr p"
  by (simp add: walk.simps)

lemma walk_Suc [simp]: "walk h p (Suc n) = bindR (deref h p) (\<lambda>(a, it). walk h (item_next it) n)"
  by (subst walk.simps) simp

lemma walk_chain:
  "chain h p (as @ bs) q \<Longrightarrow> walk h p (length as) = Inr (case bs of [] \<Rightarrow> q | b # _ \<Rightarrow> Some b)"
proof (induction as arbitrary: p)
  case Nil
  then show ?case by (cases bs) auto
qed (auto simp: deref_def)

text \<open>Walking past the end of a chain runs into its null pointer.\<close>

lemma walk_past_end: "chain h p as None \<Longrightarrow> n > length as \<Longrightarrow> walk h p n = Inl NullDeref"
proof (induction as arbitrary: p n)
  case Nil
  then obtain m where "n = Suc m" by (cases n) auto
  with Nil show ?case by (simp add: deref_def)
next
  case (Cons a as)
  then obtain m where "n = Suc m" by (cases n) auto
  with Cons show ?case by (auto simp: deref_def)
qed

subsection \<open>The list a state stands for\<close>

definition item_at :: "'a heap \<Rightarrow> nat \<Rightarrow> 'a" where
  "item_at h a = item_data (the (h a))"

text \<open>
  \<open>rep s xs\<close>: the items reachable from the head hold \<open>xs\<close>, the heap holds no other item, and
  the length is right.
\<close>

definition rep :: "'a list_obj \<Rightarrow> 'a list \<Rightarrow> bool" where
  "rep s xs \<longleftrightarrow> (\<exists>as. chain (l_heap s) (l_head s) as None \<and> distinct as \<and> dom (l_heap s) = set as \<and>
     map (item_at (l_heap s)) as = xs \<and> l_len s = length xs \<and> (\<forall>a \<in> set as. a < l_brk s))"

lemma rep_new: "rep List_new []"
  by (simp add: rep_def List_new_def)

lemma rep_length: "rep s xs \<Longrightarrow> l_len s = length xs"
  by (auto simp: rep_def)

lemma rep_head_None: "rep s xs \<Longrightarrow> l_head s = None \<longleftrightarrow> xs = []"
  by (auto simp: rep_def) (metis chain.simps neq_Nil_conv option.distinct(1))+

lemma rep_empty: "rep s xs \<Longrightarrow> List_empty s \<longleftrightarrow> xs = []"
  using rep_head_None [of s xs] rep_length [of s xs] by (auto simp: List_empty_def)

lemma rep_unique: "rep s xs \<Longrightarrow> rep s ys \<Longrightarrow> xs = ys"
proof -
  have "chain h p as None \<Longrightarrow> chain h p bs None \<Longrightarrow> as = bs" for h :: "'a heap" and p as bs
  proof (induction as arbitrary: p bs)
    case Nil
    then show ?case by (cases bs) auto
  next
    case (Cons a as)
    then show ?case by (cases bs) auto
  qed
  then show "rep s xs \<Longrightarrow> rep s ys \<Longrightarrow> xs = ys"
    unfolding rep_def by metis
qed

lemma map_item_at_upd [simp]:
  "a \<notin> set as \<Longrightarrow> map (item_at (h(a := v))) as = map (item_at h) as"
  by (simp add: item_at_def)

lemma item_at_upd [simp]: "item_at (h(a \<mapsto> it)) b = (if a = b then item_data it else item_at h b)"
  by (simp add: item_at_def)

lemma split_nth: "m < length as \<Longrightarrow> \<exists>as1 a as2. as = as1 @ a # as2 \<and> length as1 = m"
  by (metis id_take_nth_drop length_take min.absorb2 less_imp_le)

lemma insert_front:
  assumes "rep s xs"
  shows "rep (s\<lparr>l_brk := l_brk s + 1,
                 l_heap := (l_heap s)(l_brk s \<mapsto> \<lparr>item_data = x, item_next = l_head s\<rparr>),
                 l_head := Some (l_brk s), l_len := l_len s + 1\<rparr>) (x # xs)"
proof -
  obtain as where as: "chain (l_heap s) (l_head s) as None" "distinct as" "dom (l_heap s) = set as"
    "map (item_at (l_heap s)) as = xs" "l_len s = length xs" "\<forall>a \<in> set as. a < l_brk s"
    using assms by (auto simp: rep_def)
  then have "l_brk s \<notin> set as" by auto
  with as show ?thesis
    unfolding rep_def by (intro exI [of _ "l_brk s # as"]) (auto simp: item_at_def)
qed

lemma insert_after:
  fixes s :: "'a list_obj" and x :: 'a
  assumes "rep s xs" "m < length xs" "m < 2 ^ 32"
  defines "np \<equiv> l_brk s"
  defines "s1 \<equiv> s\<lparr>l_heap := (l_heap s)(np \<mapsto> \<lparr>item_data = x, item_next = None\<rparr>), l_brk := np + 1\<rparr>"
  shows "\<exists>a it. List_pToPos (int m) s1 = Inr (Some a) \<and> deref (l_heap s1) (Some a) = Inr (a, it) \<and>
     rep (s1\<lparr>l_heap := (l_heap s1)(a \<mapsto> it\<lparr>item_next := Some np\<rparr>,
                                    np \<mapsto> \<lparr>item_data = x, item_next = item_next it\<rparr>),
             l_len := l_len s1 + 1\<rparr>) (take (Suc m) xs @ x # drop (Suc m) xs)"
proof -
  obtain as where as: "chain (l_heap s) (l_head s) as None" "distinct as" "dom (l_heap s) = set as"
    "map (item_at (l_heap s)) as = xs" "l_len s = length xs" "\<forall>a \<in> set as. a < l_brk s"
    using assms(1) by (auto simp: rep_def)
  have np: "np \<notin> set as" using as(6) by (auto simp: np_def)
  obtain as1 a as2 where split: "as = as1 @ a # as2" "length as1 = m"
    using split_nth [of m as] as(4) assms(2) by auto
  obtain it where it: "l_heap s a = Some it" "chain (l_heap s) (l_head s) as1 (Some a)"
    "chain (l_heap s) (item_next it) as2 None"
    using as(1) by (auto simp: split chain_append)
  have "chain (l_heap s1) (l_head s1) (as1 @ a # as2) None"
    using as(1) np by (simp add: s1_def split(1) del: chain.simps)
  from walk_chain [OF this] have walk: "List_pToPos (int m) s1 = Inr (Some a)"
    using assms(3) split(2) by (simp add: List_pToPos_def s1_def)
  have der: "deref (l_heap s1) (Some a) = Inr (a, it)"
    using it(1) np split(1) by (auto simp: deref_def s1_def)
  let ?s' = "s1\<lparr>l_heap := (l_heap s1)(a \<mapsto> it\<lparr>item_next := Some np\<rparr>,
                                    np \<mapsto> \<lparr>item_data = x, item_next = item_next it\<rparr>),
             l_len := l_len s1 + 1\<rparr>"
  have d: "a \<notin> set as1" "a \<notin> set as2" "np \<noteq> a" "np \<notin> set as1" "np \<notin> set as2"
    using as(2) np split(1) by auto
  have "chain (l_heap ?s') (l_head ?s') (as1 @ a # np # as2) None"
    using it d by (auto simp: chain_append s1_def)
  moreover have "map (item_at (l_heap ?s')) (as1 @ a # np # as2) = take (Suc m) xs @ x # drop (Suc m) xs"
    using d it(1) split as(4) by (auto simp: s1_def item_at_def)
  moreover have "distinct (as1 @ a # np # as2)" "dom (l_heap ?s') = set (as1 @ a # np # as2)"
    "l_len ?s' = length (take (Suc m) xs @ x # drop (Suc m) xs)"
    "\<forall>b \<in> set (as1 @ a # np # as2). b < l_brk ?s'"
    using as d assms(2) by (auto simp: s1_def split(1) np_def intro: less_SucI)
  ultimately have "rep ?s' (take (Suc m) xs @ x # drop (Suc m) xs)"
    unfolding rep_def by blast
  with walk der show ?thesis by blast
qed

subsection \<open>Positions\<close>

text \<open>
  The positions the operations accept, by the number of items: \<open>insert\<close> takes \<open>0 .. n\<close> and
  \<open>-n .. -1\<close>, \<open>remove\<close> and \<open>get\<close> take \<open>0 .. n - 1\<close> and \<open>-n .. -1\<close>; a negative position
  counts from the end.
\<close>

definition index_insert :: "nat \<Rightarrow> int \<Rightarrow> nat option" where
  "index_insert n pos =
     (if 0 \<le> pos \<and> pos \<le> int n then Some (nat pos)
      else if - int n \<le> pos \<and> pos < 0 then Some (nat (pos + int n)) else None)"

definition index_access :: "nat \<Rightarrow> int \<Rightarrow> nat option" where
  "index_access n pos =
     (if 0 \<le> pos \<and> pos < int n then Some (nat pos)
      else if - int n \<le> pos \<and> pos < 0 then Some (nat (pos + int n)) else None)"

lemma posPos_insert:
  "List_posPos (int n) (int n) pos = (case index_insert n pos of None \<Rightarrow> -1 | Some k \<Rightarrow> int k)"
  by (auto simp: List_posPos_def index_insert_def Let_def)

lemma posPos_access:
  "0 < n \<Longrightarrow>
   List_posPos (int (n - 1)) (int n) pos = (case index_access n pos of None \<Rightarrow> -1 | Some k \<Rightarrow> int k)"
  by (auto simp: List_posPos_def index_access_def Let_def of_nat_diff)

lemma index_insert_le: "index_insert n pos = Some k \<Longrightarrow> k \<le> n"
  by (auto simp: index_insert_def split: if_splits)

lemma index_access_less: "index_access n pos = Some k \<Longrightarrow> k < n"
  by (auto simp: index_access_def split: if_splits)

lemma to_int32_nat [simp]: "n < 2 ^ 31 \<Longrightarrow> to_int32 (int n) = int n"
  by (rule to_int32_id) auto

subsection \<open>Insertion\<close>

lemma insert_refused:
  assumes "rep s xs" "length xs < 2 ^ 31" "index_insert (length xs) pos = None"
  shows "List_insert pos x s = Inr (-1, s)"
  using assms rep_length [OF assms(1)] by (simp add: List_insert_def posPos_insert Let_def)

lemma insert_at:
  assumes "rep s xs" "length xs < 2 ^ 31" "index_insert (length xs) pos = Some k"
  shows "\<exists>s'. List_insert pos x s = Inr (0, s') \<and> rep s' (take k xs @ x # drop k xs)"
proof (cases k)
  case 0
  with assms rep_length [OF assms(1)] insert_front [OF assms(1), of x] show ?thesis
    by (simp add: List_insert_def posPos_insert Let_def)
next
  case (Suc m)
  have m: "m < length xs" using index_insert_le [OF assms(3)] Suc by simp
  with assms(2) have "m < 2 ^ 32" by simp
  from insert_after [OF assms(1) m this, of x] obtain a it where
    "List_pToPos (int m) (s\<lparr>l_heap := (l_heap s)(l_brk s \<mapsto> \<lparr>item_data = x, item_next = None\<rparr>),
        l_brk := l_brk s + 1\<rparr>) = Inr (Some a)"
    "deref ((l_heap s)(l_brk s \<mapsto> \<lparr>item_data = x, item_next = None\<rparr>)) (Some a) = Inr (a, it)"
    "rep (s\<lparr>l_brk := l_brk s + 1,
           l_heap := (l_heap s)(l_brk s \<mapsto> \<lparr>item_data = x, item_next = None\<rparr>,
             a \<mapsto> it\<lparr>item_next := Some (l_brk s)\<rparr>,
             l_brk s \<mapsto> \<lparr>item_data = x, item_next = item_next it\<rparr>), l_len := l_len s + 1\<rparr>)
        (take (Suc m) xs @ x # drop (Suc m) xs)"
    by auto
  then show ?thesis
    using assms rep_length [OF assms(1)] Suc
    by (simp add: List_insert_def posPos_insert Let_def)
qed

subsection \<open>Access\<close>

lemma access_pos:
  assumes "rep s xs" "xs \<noteq> []" "length xs < 2 ^ 31"
  shows "List_posPos (to_int32 (int (l_len s - 1))) (to_int32 (int (l_len s))) pos =
    (case index_access (length xs) pos of None \<Rightarrow> -1 | Some k \<Rightarrow> int k)"
proof -
  have "to_int32 (int (length xs - 1)) = int (length xs - 1)" "to_int32 (int (length xs)) = int (length xs)"
    using assms(3) by (intro to_int32_nat; simp)+
  then show ?thesis
    unfolding rep_length [OF assms(1)] using posPos_access [of "length xs" pos] assms(2) by simp
qed

lemma get_unfold:
  assumes "rep s xs" "xs \<noteq> []" "length xs < 2 ^ 31"
  shows "List_get pos s =
    bindR (List_pToPos (case index_access (length xs) pos of None \<Rightarrow> -1 | Some k \<Rightarrow> int k) s) (\<lambda>p.
    bindR (deref (l_heap s) p) (\<lambda>(a, it). Inr (item_data it)))"
  unfolding List_get_def Let_def access_pos [OF assms] using rep_empty [OF assms(1)] assms(2) by simp

lemma get_at:
  assumes "rep s xs" "length xs < 2 ^ 31" "index_access (length xs) pos = Some k"
  shows "List_get pos s = Inr (xs ! k)"
proof -
  have k: "k < length xs" by (rule index_access_less [OF assms(3)])
  obtain as where as: "chain (l_heap s) (l_head s) as None" "map (item_at (l_heap s)) as = xs"
    using assms(1) by (auto simp: rep_def)
  obtain as1 a as2 where split: "as = as1 @ a # as2" "length as1 = k"
    using split_nth [of k as] as(2) k by auto
  obtain it where it: "l_heap s a = Some it"
    using as(1) by (auto simp: split chain_append)
  have "List_pToPos (int k) s = Inr (Some a)"
    using walk_chain [of "l_heap s" "l_head s" as1 "a # as2" None] as(1) split k assms(2)
    by (simp add: List_pToPos_def del: chain.simps)
  moreover have "xs ! k = item_data it"
    using as(2) split it by (auto simp: item_at_def nth_append)
  moreover have "xs \<noteq> []" using k by auto
  ultimately show ?thesis
    using get_unfold [OF assms(1) _ assms(2), of pos] assms(3) it by (simp add: deref_def)
qed

text \<open>
  An access outside the list: the walk takes the position \<open>-1\<close> of \<open>posPos\<close> as an unsigned
  number and runs off the end.
\<close>

lemma get_outside:
  assumes "rep s xs" "xs \<noteq> []" "length xs < 2 ^ 31" "index_access (length xs) pos = None"
  shows "List_get pos s = Inl NullDeref"
proof -
  obtain as where as: "chain (l_heap s) (l_head s) as None" "map (item_at (l_heap s)) as = xs"
    using assms(1) by (auto simp: rep_def)
  have "length as < nat ((- 1) mod 2 ^ 32)" using as(2) assms(3) by auto
  from walk_past_end [OF as(1) this] have "List_pToPos (- 1) s = Inl NullDeref"
    by (simp add: List_pToPos_def)
  then show ?thesis
    using get_unfold [OF assms(1-3)] assms(4) by simp
qed

subsection \<open>Removal\<close>

lemma remove_unfold:
  fixes s :: "'a list_obj" and dflt :: 'a
  assumes "rep s xs" "xs \<noteq> []" "length xs < 2 ^ 31" "index_access (length xs) pos = Some k"
  defines "itm \<equiv> l_brk s"
  defines "s1 \<equiv> s\<lparr>l_heap := (l_heap s)(itm \<mapsto> \<lparr>item_data = dflt, item_next = l_head s\<rparr>),
                     l_brk := itm + 1, l_head := Some itm, l_len := l_len s + 1\<rparr>"
  assumes "List_pToPos (int k) s1 = Inr p" "deref (l_heap s1) p = Inr (a, ita)"
    "deref (l_heap s1) (item_next ita) = Inr (r, itr)"
  defines "h2 \<equiv> (l_heap s1)(a \<mapsto> ita\<lparr>item_next := item_next itr\<rparr>, r := None)"
  assumes "deref h2 (Some itm) = Inr (i, iti)"
  shows "List_remove dflt pos s =
    Inr (0, s\<lparr>l_brk := itm + 1, l_head := item_next iti, l_len := l_len s - 1, l_heap := h2(itm := None)\<rparr>)"
  unfolding List_remove_def Let_def access_pos [OF assms(1-3)]
  using rep_empty [OF assms(1)] assms(2,4) assms(7-) by (simp add: s1_def itm_def h2_def)

lemma remove_refused:
  assumes "rep s xs" "length xs < 2 ^ 31" "index_access (length xs) pos = None"
  shows "List_remove dflt pos s = Inr (-1, s)"
proof (cases "xs = []")
  case True
  then show ?thesis using rep_empty [OF assms(1)] by (simp add: List_remove_def)
next
  case False
  show ?thesis
    unfolding List_remove_def Let_def access_pos [OF assms(1) False assms(2)]
    using rep_empty [OF assms(1)] False assms(3) by simp
qed

lemma remove_at:
  assumes "rep s xs" "length xs < 2 ^ 31" "index_access (length xs) pos = Some k"
  shows "\<exists>s'. List_remove dflt pos s = Inr (0, s') \<and> rep s' (take k xs @ drop (Suc k) xs)"
proof -
  have k: "k < length xs" by (rule index_access_less [OF assms(3)])
  then have ne: "xs \<noteq> []" by auto
  obtain as where as: "chain (l_heap s) (l_head s) as None" "distinct as" "dom (l_heap s) = set as"
    "map (item_at (l_heap s)) as = xs" "l_len s = length xs" "\<forall>a \<in> set as. a < l_brk s"
    using assms(1) by (auto simp: rep_def)
  define itm where "itm = l_brk s"
  define h1 where "h1 = (l_heap s)(itm \<mapsto> \<lparr>item_data = dflt, item_next = l_head s\<rparr>)"
  have itm: "itm \<notin> set as" using as(6) by (auto simp: itm_def)
  have len: "length as = length xs" using as(4) by auto
  define p1 where "p1 = butlast (itm # take k as)"
  define a where "a = last (itm # take k as)"
  define r where "r = as ! k"
  define as' where "as' = take k as @ drop (Suc k) as"
  have front: "itm # take k as = p1 @ [a]" "length p1 = k"
    using k len by (simp_all add: p1_def a_def del: butlast.simps last.simps)
  have full: "itm # as = p1 @ a # r # drop (Suc k) as"
    using id_take_nth_drop [of k as] k len front(1) by (metis append.assoc append_Cons append_Nil r_def)
  have full': "itm # as' = p1 @ a # drop (Suc k) as"
    using front(1) by (metis append.assoc append_Cons append_Nil as'_def)
  have chain1: "chain h1 (Some itm) (itm # as) None"
    using as(1) itm by (simp add: h1_def)
  then obtain ita itr where it: "chain h1 (Some itm) p1 (Some a)" "h1 a = Some ita"
    "item_next ita = Some r" "h1 r = Some itr" "chain h1 (item_next itr) (drop (Suc k) as) None"
    unfolding full by (auto simp: chain_append)
  have "distinct (itm # as)" using as(2) itm by simp
  then have d: "a \<noteq> r" "a \<notin> set p1" "r \<notin> set p1" "a \<notin> set (drop (Suc k) as)"
    "r \<notin> set (drop (Suc k) as)" "r \<noteq> itm"
    unfolding full using k len itm by (auto simp: r_def dest: nth_mem)
  define h2 where "h2 = h1(a \<mapsto> ita\<lparr>item_next := item_next itr\<rparr>, r := None)"
  have "chain h2 (Some itm) (itm # as') None"
    unfolding full' using it d by (auto simp: chain_append h2_def)
  then obtain iti where iti: "h2 itm = Some iti" "chain h2 (item_next iti) as' None"
    by auto
  define s1 where "s1 = s\<lparr>l_heap := h1, l_brk := itm + 1, l_head := Some itm, l_len := l_len s + 1\<rparr>"
  have "List_pToPos (int k) s1 = Inr (Some a)"
    using walk_chain [of h1 "Some itm" p1 "a # r # drop (Suc k) as" None] chain1 front(2) k assms(2)
    by (simp add: List_pToPos_def s1_def full del: chain.simps)
  moreover have "deref h1 (Some a) = Inr (a, ita)" "deref h1 (item_next ita) = Inr (r, itr)"
    "deref h2 (Some itm) = Inr (itm, iti)"
    using it iti by (simp_all add: deref_def)
  ultimately have run: "List_remove dflt pos s =
    Inr (0, s\<lparr>l_brk := itm + 1, l_head := item_next iti, l_len := l_len s - 1, l_heap := h2(itm := None)\<rparr>)"
    using remove_unfold [OF assms(1) ne assms(2,3), where dflt = dflt] it(3)
    unfolding s1_def h2_def h1_def itm_def by simp
  have itm': "itm \<notin> set as'" using itm by (auto simp: as'_def dest: in_set_takeD in_set_dropD)
  have sub: "b \<in> set as \<Longrightarrow> b \<noteq> itm" for b using itm by auto
  have data: "item_at (h2(itm := None)) b = item_at (l_heap s) b" if "b \<in> set as'" for b
  proof -
    have "b \<noteq> itm" "b \<noteq> r"
      using that itm' d(5) distinct_take [of as k] as(2) k len
      by (auto simp: as'_def r_def in_set_conv_nth nth_eq_iff_index_eq)
    moreover have "a \<noteq> itm \<Longrightarrow> item_data ita = item_at (l_heap s) a"
      using it(2) by (simp add: h1_def item_at_def)
    ultimately show ?thesis by (auto simp: item_at_def h2_def h1_def)
  qed
  have "map (item_at (h2(itm := None))) as' = take k xs @ drop (Suc k) xs"
    using data as(4) by (auto simp: as'_def take_map drop_map)
  moreover have "dom (h2(itm := None)) = set as'"
  proof -
    have "dom h1 = set (itm # as)" using as(3) by (simp add: h1_def)
    then have "dom h2 = set (itm # as')"
      unfolding full full' using d by (auto simp: h2_def)
    then show ?thesis using itm' by auto
  qed
  moreover have "distinct as'" "\<forall>b \<in> set as'. b < itm + 1"
    using as(2,6) by (auto simp: as'_def itm_def set_take_disj_set_drop_if_distinct
        dest!: in_set_takeD in_set_dropD intro: less_SucI)
  ultimately have "rep (s\<lparr>l_brk := itm + 1, l_head := item_next iti, l_len := l_len s - 1,
      l_heap := h2(itm := None)\<rparr>) (take k xs @ drop (Suc k) xs)"
    unfolding rep_def using iti(2) itm' as(5) k by (intro exI [of _ as']) simp
  with run show ?thesis by blast
qed

subsection \<open>Destruction\<close>

lemma destroy_frees:
  "rep s xs \<Longrightarrow> length xs < 2 ^ 31 \<Longrightarrow> \<exists>s'. List_destroy dflt s = Some (Inr s') \<and> l_heap s' = Map.empty"
proof (induction xs arbitrary: s)
  case Nil
  then have "List_empty s" "l_heap s = Map.empty"
    using rep_empty [OF Nil.prems(1)] by (auto simp: rep_def)
  then show ?case by (simp add: List_destroy.simps)
next
  case (Cons x xs)
  have "index_access (length (x # xs)) 0 = Some 0" by (simp add: index_access_def)
  from remove_at [OF Cons.prems this] obtain s1 where
    "List_remove dflt 0 s = Inr (0, s1)" "rep s1 xs" by auto
  moreover have "\<not> List_empty s" using rep_empty [OF Cons.prems(1)] by simp
  ultimately show ?case using Cons.IH [of s1] Cons.prems(2) by (simp add: List_destroy.simps)
qed

subsection \<open>The interface of a positional list\<close>

text \<open>
  What the users of the list rely on: the effect of each operation on the list the state stands
  for, at the positions it accepts.
\<close>

locale positional_list =
  fixes ins :: "int \<Rightarrow> 'a \<Rightarrow> 's \<Rightarrow> (int \<times> 's) res"
    and rem :: "int \<Rightarrow> 's \<Rightarrow> (int \<times> 's) res"
    and get :: "int \<Rightarrow> 's \<Rightarrow> 'a res"
    and stands_for :: "'s \<Rightarrow> 'a list \<Rightarrow> bool"
    and limit :: nat
  assumes ins_law: "stands_for s xs \<Longrightarrow> length xs < limit \<Longrightarrow> index_insert (length xs) pos = Some k \<Longrightarrow>
      \<exists>s'. ins pos x s = Inr (0, s') \<and> stands_for s' (take k xs @ x # drop k xs)"
    and rem_law: "stands_for s xs \<Longrightarrow> length xs < limit \<Longrightarrow> index_access (length xs) pos = Some k \<Longrightarrow>
      \<exists>s'. rem pos s = Inr (0, s') \<and> stands_for s' (take k xs @ drop (Suc k) xs)"
    and get_law: "stands_for s xs \<Longrightarrow> length xs < limit \<Longrightarrow> index_access (length xs) pos = Some k \<Longrightarrow>
      get pos s = Inr (xs ! k)"

text \<open>Inserting a sequence at the end, and taking items from an end, with the results dropped.\<close>

definition insert_all :: "(int \<Rightarrow> 'a \<Rightarrow> 's \<Rightarrow> (int \<times> 's) res) \<Rightarrow> 'a list \<Rightarrow> nat \<Rightarrow> 's \<Rightarrow> 's res" where
  "insert_all ins ys n s =
     foldR (\<lambda>(i, y) s. bindR (ins (int i) y s) (\<lambda>(r, s'). Inr s')) (enumerate n ys) s"

definition remove_first :: "(int \<Rightarrow> 's \<Rightarrow> (int \<times> 's) res) \<Rightarrow> nat \<Rightarrow> 's \<Rightarrow> 's res" where
  "remove_first rem n s = foldR (\<lambda>_ s. bindR (rem 0 s) (\<lambda>(r, s'). Inr s')) [0..<n] s"

context positional_list begin

lemma insert_all_appends:
  "stands_for s xs \<Longrightarrow> length xs + length ys \<le> limit \<Longrightarrow>
   \<exists>s'. insert_all ins ys (length xs) s = Inr s' \<and> stands_for s' (xs @ ys)"
proof (induction ys arbitrary: s xs)
  case (Cons y ys)
  have "index_insert (length xs) (int (length xs)) = Some (length xs)"
    by (simp add: index_insert_def)
  from ins_law [OF Cons.prems(1) _ this, of y] Cons.prems(2) obtain s1 where
    "ins (int (length xs)) y s = Inr (0, s1)" "stands_for s1 (xs @ [y])" by auto
  then show ?case using Cons.IH [of s1 "xs @ [y]"] Cons.prems(2)
    by (simp add: insert_all_def)
qed (simp add: insert_all_def)

lemma remove_first_drops:
  "stands_for s xs \<Longrightarrow> length xs < limit \<Longrightarrow> n \<le> length xs \<Longrightarrow>
   \<exists>s'. remove_first rem n s = Inr s' \<and> stands_for s' (drop n xs)"
proof (induction n)
  case (Suc n)
  then obtain s1 where s1: "remove_first rem n s = Inr s1" "stands_for s1 (drop n xs)" by auto
  have "index_access (length (drop n xs)) 0 = Some 0"
    using Suc.prems(3) by (simp add: index_access_def)
  moreover have "length (drop n xs) < limit"
    using Suc.prems(2) by (simp add: less_imp_diff_less)
  ultimately obtain s2 where
    "rem 0 s1 = Inr (0, s2)" "stands_for s2 (drop (Suc n) xs)"
    using rem_law [OF s1(2)] by (fastforce simp: drop_Suc drop_tl)
  with s1(1) show ?case by (simp add: remove_first_def foldR_append)
qed (simp add: remove_first_def)

text \<open>Filling a list and taking items from its front is a queue.\<close>

lemma fill_and_drain:
  assumes "stands_for s []" "length ys < limit" "n \<le> length ys" "k < length ys - n"
  shows "\<exists>s1 s2. insert_all ins ys 0 s = Inr s1 \<and> remove_first rem n s1 = Inr s2 \<and>
           stands_for s2 (drop n ys) \<and> get (int k) s2 = Inr (ys ! (n + k))"
proof -
  obtain s1 where s1: "insert_all ins ys 0 s = Inr s1" "stands_for s1 ys"
    using insert_all_appends [OF assms(1), of ys] assms(2) by auto
  obtain s2 where s2: "remove_first rem n s1 = Inr s2" "stands_for s2 (drop n ys)"
    using remove_first_drops [OF s1(2) assms(2,3)] by blast
  have "index_access (length (drop n ys)) (int k) = Some k"
    using assms(4) by (simp add: index_access_def)
  moreover have "length (drop n ys) < limit"
    using assms(2) by (simp add: less_imp_diff_less)
  ultimately have "get (int k) s2 = Inr (ys ! (n + k))"
    using get_law [OF s2(2)] assms(3) by simp
  with s1 s2 show ?thesis by blast
qed

end

interpretation list_obj: positional_list List_insert "List_remove dflt" List_get rep "2 ^ 31" for dflt
  by unfold_locales (auto intro: insert_at remove_at get_at)

subsection \<open>Runs of operations\<close>

text \<open>
  The operations a program calls, what they do to a list and which number they return, and a run
  of calls on an object, which yields the numbers in order.
\<close>

datatype 'a list_call = Insert int 'a | InsertTail 'a | Remove int

fun call_spec :: "'a list_call \<Rightarrow> 'a list \<Rightarrow> int \<times> 'a list" where
  "call_spec (Insert pos x) xs =
     (case index_insert (length xs) pos of None \<Rightarrow> (-1, xs) | Some k \<Rightarrow> (0, take k xs @ x # drop k xs))"
| "call_spec (InsertTail x) xs = (0, xs @ [x])"
| "call_spec (Remove pos) xs =
     (case index_access (length xs) pos of None \<Rightarrow> (-1, xs) | Some k \<Rightarrow> (0, take k xs @ drop (Suc k) xs))"

fun calls_spec :: "'a list_call list \<Rightarrow> 'a list \<Rightarrow> int list \<times> 'a list" where
  "calls_spec [] xs = ([], xs)"
| "calls_spec (c # cs) xs =
     (let (r, ys) = call_spec c xs; (rs, zs) = calls_spec cs ys in (r # rs, zs))"

fun call_model :: "'a \<Rightarrow> 'a list_call \<Rightarrow> 'a list_obj \<Rightarrow> (int \<times> 'a list_obj) res" where
  "call_model dflt (Insert pos x) s = List_insert pos x s"
| "call_model dflt (InsertTail x) s = List_insertTail x s"
| "call_model dflt (Remove pos) s = List_remove dflt pos s"

fun calls_model :: "'a \<Rightarrow> 'a list_call list \<Rightarrow> 'a list_obj \<Rightarrow> (int list \<times> 'a list_obj) res" where
  "calls_model dflt [] s = Inr ([], s)"
| "calls_model dflt (c # cs) s =
     bindR (call_model dflt c s) (\<lambda>(r, s1).
     bindR (calls_model dflt cs s1) (\<lambda>(rs, s2). Inr (r # rs, s2)))"

lemma call_refines:
  assumes "rep s xs" "length xs < 2 ^ 31"
  shows "\<exists>s'. call_model dflt c s = Inr (fst (call_spec c xs), s') \<and> rep s' (snd (call_spec c xs))"
proof (cases c)
  case (Insert pos x)
  then show ?thesis
    using insert_refused [OF assms, of pos x] insert_at [OF assms, of pos _ x] assms(1)
    by (cases "index_insert (length xs) pos") auto
next
  case (InsertTail x)
  have "index_insert (length xs) (int (length xs)) = Some (length xs)"
    by (simp add: index_insert_def)
  from insert_at [OF assms this, of x] InsertTail show ?thesis
    using assms(2) by (simp add: List_insertTail_def rep_length [OF assms(1)])
next
  case (Remove pos)
  then show ?thesis
    using remove_refused [OF assms, of pos dflt] remove_at [OF assms, of pos _ dflt] assms(1)
    by (cases "index_access (length xs) pos") auto
qed

lemma call_spec_length: "length (snd (call_spec c xs)) \<le> Suc (length xs)"
  by (cases c) (auto split: option.splits dest: index_insert_le index_access_less)

lemma calls_refine:
  assumes "rep s xs" "length xs + length cs \<le> 2 ^ 31"
  shows "\<exists>s'. calls_model dflt cs s = Inr (fst (calls_spec cs xs), s') \<and> rep s' (snd (calls_spec cs xs))"
  using assms
proof (induction cs arbitrary: s xs)
  case (Cons c cs)
  obtain r ys where rys: "call_spec c xs = (r, ys)" by (cases "call_spec c xs")
  obtain s1 where s1: "call_model dflt c s = Inr (r, s1)" "rep s1 ys"
    using call_refines [OF Cons.prems(1), of dflt c] Cons.prems(2) rys by auto
  have "length ys + length cs \<le> 2 ^ 31"
    using call_spec_length [of c xs] rys Cons.prems(2) by simp
  from Cons.IH [OF s1(2) this] s1(1) rys show ?case
    by (auto simp: case_prod_beta)
qed auto

lemma calls_spec_length: "length (snd (calls_spec cs xs)) \<le> length xs + length cs"
proof (induction cs arbitrary: xs)
  case (Cons c cs)
  then show ?case using call_spec_length [of c xs]
    by (auto simp: case_prod_beta Let_def intro: order_trans [OF Cons.IH])
qed simp

lemma calls_from_new:
  assumes "length cs < 2 ^ 31"
  shows "\<exists>s'. calls_model dflt cs List_new = Inr (fst (calls_spec cs []), s') \<and>
    rep s' (snd (calls_spec cs [])) \<and> length (snd (calls_spec cs [])) < 2 ^ 31"
  using calls_refine [OF rep_new, of cs dflt] calls_spec_length [of cs "[]"] assms by simp

subsection \<open>Properties\<close>

text \<open>
  C14: Any sequence of insertions and removals on a new list, at good or bad positions, runs
  without a fault, returns 0, or -1 for a refused position, which changes nothing, and leaves the
  items the same operations leave in a mathematical list; the heap holds these items and no other.
  With n items the good positions are -n to n for an insertion and -n to n-1 for a removal: -n-1,
  which the comment of posPos allows for an insertion, is refused as well. On what is left get
  yields the item at a good position; at every other position it does not refuse as insert and
  remove do but follows a null pointer, and on an empty list it ends the program.
\<close>

theorem list_calls_refine:
  assumes "length cs < 2 ^ 31"
  shows "\<exists>s'. calls_model dflt cs List_new = Inr (fst (calls_spec cs []), s') \<and>
           (let xs = snd (calls_spec cs []) in rep s' xs \<and>
              List_insert (- int (length xs) - 1) x s' = Inr (-1, s') \<and>
              List_get pos s' =
                (if xs = [] then Inl Exited
                 else case index_access (length xs) pos of None \<Rightarrow> Inl NullDeref | Some k \<Rightarrow> Inr (xs ! k)))"
proof -
  obtain s' where s': "calls_model dflt cs List_new = Inr (fst (calls_spec cs []), s')"
    "rep s' (snd (calls_spec cs []))" "length (snd (calls_spec cs [])) < 2 ^ 31"
    using calls_from_new [OF assms] by blast
  have "index_insert n (- int n - 1) = None" for n by (simp add: index_insert_def)
  from insert_refused [OF s'(2,3) this] have "List_insert (- int (length (snd (calls_spec cs []))) - 1) x s' = Inr (-1, s')" .
  moreover have "List_get pos s' = Inl Exited" if "snd (calls_spec cs []) = []"
    using rep_empty [OF s'(2)] that by (simp add: List_get_def)
  ultimately show ?thesis using s' get_at [OF s'(2,3), of pos] get_outside [OF s'(2) _ s'(3), of pos]
    by (auto simp: Let_def split: option.splits)
qed

theorem list_calls_refine_witness:
  "\<exists>s'. calls_model 0 [InsertTail 7, Insert 0 5, Insert 9 1, Insert (-1) 6, Remove (-1), Remove 4] List_new =
      Inr ([0, 0, -1, 0, 0, -1], s') \<and> rep s' [5, 6 :: int] \<and> List_insert (-3) 8 s' = Inr (-1, s') \<and> List_get (-1) s' = Inr 6"
  using list_calls_refine [of "[InsertTail 7, Insert 0 5, Insert 9 1, Insert (-1) 6, Remove (-1), Remove 4]" "0 :: int" 8 "-1"]
  by (simp add: index_insert_def index_access_def Let_def)

text \<open>
  The destructor returns after any such sequence, follows no dangling pointer and frees every
  item the list allocated.
\<close>

theorem list_destroyed:
  assumes "length cs < 2 ^ 31"
  shows "\<exists>rs s s'. calls_model dflt cs List_new = Inr (rs, s) \<and>
           List_destroy dflt s = Some (Inr s') \<and> l_heap s' = Map.empty"
proof -
  obtain s where s: "calls_model dflt cs List_new = Inr (fst (calls_spec cs []), s)"
    "rep s (snd (calls_spec cs []))" "length (snd (calls_spec cs [])) < 2 ^ 31"
    using calls_from_new [OF assms] by blast
  with destroy_frees [OF s(2,3), of dflt] show ?thesis by blast
qed

theorem list_destroyed_witness:
  "\<exists>rs s s'. calls_model 0 [InsertTail 7, InsertTail (8 :: int), Remove 0] List_new = Inr (rs, s) \<and>
     List_destroy 0 s = Some (Inr s') \<and> l_heap s' = Map.empty"
  using list_destroyed [of "[InsertTail 7, InsertTail (8 :: int), Remove 0]" 0] by simp

text \<open>
  Used as a queue, filled at the end and emptied at the front, a list hands out the items in
  the order they were put in.
\<close>

theorem list_is_queue:
  assumes "length ys < 2 ^ 31" "n \<le> length ys" "k < length ys - n"
  shows "\<exists>s1 s2. insert_all List_insert ys 0 List_new = Inr s1 \<and>
           remove_first (List_remove dflt) n s1 = Inr s2 \<and> List_get (int k) s2 = Inr (ys ! (n + k))"
  using list_obj.fill_and_drain [OF rep_new, of ys n k dflt] assms by blast

theorem list_is_queue_witness:
  "\<exists>s1 s2. insert_all List_insert [4, 5, 6 :: int] 0 List_new = Inr s1 \<and>
     remove_first (List_remove 0) 2 s1 = Inr s2 \<and> List_get 0 s2 = Inr 6"
  using list_is_queue [of "[4, 5, 6 :: int]" 2 0 0] by (simp flip: numeral_2_eq_2)

end
