(* ===== verification/LogFormat.thy ===== *)
theory LogFormat
  imports Prelude "HOL-Library.Signed_Division"
begin

text \<open>
  The number formatting of \<open>log/logStream.h\<close> and \<open>log/logStream.cpp\<close>: \<open>formatInteger\<close> for
  every integer type and \<open>formatHex\<close> for pointers. C++ division truncates towards zero, which
  is \<open>sdiv\<close> and \<open>smod\<close> of the library.
\<close>

subsection \<open>formatInteger\<close>

definition digits :: string where
  "digits = ''0123456789''"

text \<open>Indexing a character array; the arrays end in a null character.\<close>

definition char_at :: "string \<Rightarrow> int \<Rightarrow> char res" where
  "char_at cs i =
     (if i < 0 \<or> i > int (length cs) then Inl OutOfBounds
      else Inr ((cs @ [CHR 0x00]) ! nat i))"

text \<open>The loop; \<open>s\<close> is the string built so far, least digit first.\<close>

function digit_loop :: "int \<Rightarrow> string \<Rightarrow> string res" where
  "digit_loop i s =
     bindR (char_at digits (i smod 10)) (\<lambda>c.
       if i sdiv 10 \<noteq> 0 then digit_loop (i sdiv 10) (s @ [c]) else Inr (s @ [c]))"
  by pat_completeness auto

termination
proof (relation "measure (\<lambda>(i, s). nat \<bar>i\<bar>)")
  fix i :: int and s :: string and c
  assume "i sdiv 10 \<noteq> 0"
  moreover have "\<bar>i sdiv 10\<bar> = \<bar>i\<bar> div 10"
    by (cases "i = 0") (simp_all add: signed_divide_int_def abs_mult)
  ultimately show "((i sdiv 10, s @ [c]), (i, s)) \<in> measure (\<lambda>(i, s). nat \<bar>i\<bar>)" by auto
qed simp

declare digit_loop.simps [simp del]

definition formatInteger :: "int \<Rightarrow> string res" where
  "formatInteger v =
     bindR (digit_loop v []) (\<lambda>s. Inr (rev (if v < 0 then s @ ''-'' else s)))"

subsection \<open>formatHex\<close>

definition hex_digits :: string where
  "hex_digits = ''0123456789abcdef''"

function hex_loop :: "nat \<Rightarrow> string \<Rightarrow> string" where
  "hex_loop t s = (if t = 0 then s else hex_loop (t div 16) (s @ [hex_digits ! (t mod 16)]))"
  by pat_completeness auto

termination by (relation "measure fst") auto

declare hex_loop.simps [simp del]

definition formatHex :: "64 word \<Rightarrow> string" where
  "formatHex v = rev (hex_loop (unat v) [] @ ''x0'')"

subsection \<open>Reading numbers back\<close>

text \<open>The value of a string of digits in a base, most significant digit first.\<close>

definition digit_value :: "char \<Rightarrow> nat" where
  "digit_value c =
     (let n = of_char c :: nat in if 97 \<le> n then n - 87 else n - 48)"

definition number_value :: "nat \<Rightarrow> string \<Rightarrow> nat" where
  "number_value b s = foldl (\<lambda>n c. b * n + digit_value c) 0 s"

lemma number_value_snoc: "number_value b (s @ [c]) = b * number_value b s + digit_value c"
  by (simp add: number_value_def)

lemma number_value_Nil [simp]: "number_value b [] = 0"
  by (simp add: number_value_def)

text \<open>The digits the loops produce.\<close>

lemma digit_values:
  "d < 10 \<Longrightarrow> digit_value (digits ! d) = d" "d < 16 \<Longrightarrow> digit_value (hex_digits ! d) = d"
  by (simp_all add: digits_def hex_digits_def digit_value_def Let_def nth_Cons' split: if_splits)

lemma digit_at: "0 \<le> i \<Longrightarrow> i < 10 \<Longrightarrow> char_at digits i = Inr (digits ! nat i)"
proof -
  assume i: "0 \<le> i" "i < 10"
  have "length digits = 10" by (simp add: digits_def)
  with i show ?thesis by (simp add: char_at_def nth_append nat_less_iff)
qed

lemma smod_sdiv_nonneg [simp]: "0 \<le> i \<Longrightarrow> i smod 10 = i mod (10 :: int)" "0 \<le> i \<Longrightarrow> i sdiv 10 = i div (10 :: int)"
  by (cases "i = 0"; simp add: signed_modulo_int_def signed_divide_int_def)+

text \<open>The decimal digits of a number, least first.\<close>

fun decimals :: "nat \<Rightarrow> string" where
  "decimals n = digits ! (n mod 10) # (if n < 10 then [] else decimals (n div 10))"

declare decimals.simps [simp del]

text \<open>The decimal text of a number, as \<open>std::to_string\<close> and the conversion \<open>%d\<close> give it.\<close>

definition to_string :: "int \<Rightarrow> string" where
  "to_string v = (if v < 0 then ''-'' @ rev (decimals (nat (- v))) else rev (decimals (nat v)))"

lemma digit_loop_nonneg: "digit_loop (int n) s = Inr (s @ decimals n)"
proof (induction n arbitrary: s rule: decimals.induct)
  case (1 n)
  have "char_at digits (int (n mod 10)) = Inr (digits ! (n mod 10))"
    using digit_at [of "int (n mod 10)"] by simp
  moreover have "int n sdiv 10 = int (n div 10)" "int n smod 10 = int (n mod 10)"
    by (simp_all add: zdiv_int zmod_int)
  ultimately show ?case
    using 1 [of "s @ [digits ! (n mod 10)]"]
    by (subst digit_loop.simps, subst decimals.simps) auto
qed

lemma number_value_decimals: "number_value 10 (rev (decimals n)) = n"
proof (induction n rule: decimals.induct)
  case (1 n)
  then show ?case
    by (subst decimals.simps) (auto simp: number_value_snoc digit_values(1))
qed

lemma decimals_no_zero: "n \<noteq> 0 \<Longrightarrow> last (decimals n) \<noteq> CHR ''0''"
proof (induction n rule: decimals.induct)
  case (1 n)
  have "digit_value (digits ! (n mod 10)) = n mod 10" by (simp add: digit_values(1))
  then have "digits ! (n mod 10) = CHR ''0'' \<Longrightarrow> n mod 10 = 0" by (auto simp: digit_value_def)
  with 1 show ?case by (subst decimals.simps) (auto simp: decimals.simps [of "n div 10"])
qed

lemma decimals_set: "set (decimals n) \<subseteq> set digits"
proof (induction n rule: decimals.induct)
  case (1 n)
  have "digits ! (n mod 10) \<in> set digits" by (intro nth_mem) (simp add: digits_def)
  with 1 show ?case by (subst decimals.simps) auto
qed

text \<open>A negative number makes the loop index the array below its start.\<close>

lemma digit_loop_negative: "i < 0 \<Longrightarrow> digit_loop i s = Inl OutOfBounds"
proof (induction i s rule: digit_loop.induct)
  case (1 i s)
  have sm: "i smod 10 = - (\<bar>i\<bar> mod 10)" "i sdiv 10 = - (\<bar>i\<bar> div 10)"
    using 1(2) by (simp_all add: signed_modulo_int_def signed_divide_int_def)
  show ?case
  proof (cases "i smod 10 = 0")
    case True
    then have "\<bar>i\<bar> div 10 > 0" using sm(1) 1(2) by (auto simp: pos_imp_zdiv_pos_iff zmod_eq_0_iff)
    then have "i sdiv 10 \<noteq> 0" "i sdiv 10 < 0" using sm(2) by simp_all
    moreover have "char_at digits (i smod 10) = Inr (digits ! 0)" unfolding True by (simp add: digit_at)
    ultimately show ?thesis using 1(1) by (subst digit_loop.simps) simp
  next
    case False
    then have "i smod 10 < 0" using sm(1) by (metis abs_ge_zero neg_0_less_iff_less not_less_iff_gr_or_eq
        pos_mod_sign zero_less_numeral neg_less_0_iff_less order_le_less)
    then have "char_at digits (i smod 10) = Inl OutOfBounds" by (simp add: char_at_def)
    then show ?thesis by (subst digit_loop.simps) simp
  qed
qed

lemma hex_loop_append: "hex_loop t s = s @ hex_loop t []"
proof (induction t arbitrary: s rule: less_induct)
  case (less t)
  show ?case
  proof (cases "t = 0")
    case False
    then have "t div 16 < t" by simp
    from less [OF this, of "s @ [hex_digits ! (t mod 16)]"] less [OF this, of "[hex_digits ! (t mod 16)]"]
    show ?thesis using False by (simp add: hex_loop.simps [of t])
  qed (simp add: hex_loop.simps)
qed

lemma hex_loop_step:
  "t \<noteq> 0 \<Longrightarrow> hex_loop t [] = hex_digits ! (t mod 16) # hex_loop (t div 16) []"
  by (subst hex_loop.simps) (simp add: hex_loop_append [of "t div 16" "[hex_digits ! (t mod 16)]"])

lemma number_value_hex: "number_value 16 (rev (hex_loop t [])) = t"
proof (induction t rule: less_induct)
  case (less t)
  show ?case
  proof (cases "t = 0")
    case False
    then have "t div 16 < t" by simp
    from less [OF this] hex_loop_step [OF False] show ?thesis
      by (simp add: number_value_snoc digit_values(2))
  qed (simp add: hex_loop.simps)
qed

lemma length_hex_loop: "t < 16 ^ n \<Longrightarrow> length (hex_loop t []) \<le> n"
proof (induction n arbitrary: t)
  case (Suc n)
  show ?case
  proof (cases "t = 0")
    case False
    have "t div 16 < 16 ^ n" using Suc.prems by (simp add: div_less_iff_less_mult mult.commute)
    from Suc.IH [OF this] hex_loop_step [OF False] show ?thesis by simp
  qed (simp add: hex_loop.simps)
qed (simp add: hex_loop.simps)

lemma formatInteger_nat: "formatInteger (int n) = Inr (rev (decimals n))"
  by (simp add: formatInteger_def digit_loop_nonneg)

subsection \<open>Properties\<close>

text \<open>
  \<open>formatInteger\<close> of a number from 0 on, of any integer type, is its decimal notation: digits
  only, with that value and no leading zero. Of every negative number it reads before the start
  of the array of digits instead: the remainder it indexes with is negative.
\<close>

theorem formatInteger_correct:
  "case formatInteger v of
     Inr s \<Rightarrow> 0 \<le> v \<and> int (number_value 10 s) = v \<and> set s \<subseteq> set digits \<and> (hd s = CHR ''0'') = (v = 0) \<and> s \<noteq> []
   | Inl e \<Rightarrow> v < 0 \<and> e = OutOfBounds"
proof (cases "v < 0")
  case True
  then show ?thesis by (simp add: formatInteger_def digit_loop_negative)
next
  case False
  then obtain n where n: "v = int n" by (metis nonneg_int_cases not_less)
  have "decimals n \<noteq> []" "decimals 0 = ''0''" by (simp_all add: decimals.simps digits_def)
  then show ?thesis
    unfolding n formatInteger_nat
    using number_value_decimals [of n] decimals_set [of n] decimals_no_zero [of n]
    by (cases "n = 0") (simp_all add: hd_rev)
qed

text \<open>
  \<open>formatHex\<close> of a pointer is 0x and its hexadecimal notation, at most 18 characters in all;
  of the null pointer it is 0x and nothing.
\<close>

theorem formatHex_correct:
  "\<exists>s. formatHex v = ''0x'' @ s \<and> number_value 16 s = unat v \<and> length (formatHex v) \<le> 18 \<and> (s = [] \<longleftrightarrow> v = 0)"
proof (intro exI conjI)
  show "formatHex v = ''0x'' @ rev (hex_loop (unat v) [])" by (simp add: formatHex_def)
  show "number_value 16 (rev (hex_loop (unat v) [])) = unat v" by (rule number_value_hex)
  have "unat v < 16 ^ 16" using unsigned_less [of v] by simp
  then show "length (formatHex v) \<le> 18" using length_hex_loop by (force simp: formatHex_def)
  show "rev (hex_loop (unat v) []) = [] \<longleftrightarrow> v = 0"
  proof (cases "v = 0")
    case True
    then show ?thesis by (simp add: hex_loop.simps [of 0])
  next
    case False
    then have "unat v \<noteq> 0" by (simp add: unat_eq_0)
    with hex_loop_step [OF this] False show ?thesis by simp
  qed
qed

end
