(* ===== verification/ListDemo.thy ===== *)
theory ListDemo
  imports LinkedList LogFormat
begin

text \<open>
  The program \<open>ds/list.cpp\<close>, a client of the list of \<open>ds/list.h\<close>. Its text is all the standard
  output gets: what the program prints itself and the messages of the list about a bad position or
  an empty list, in their order. Input is an argument.
\<close>

subsection \<open>What the list prints\<close>

text \<open>The messages of one call, given the list before it; the names are those of \<open>list.h\<close>.\<close>

definition posPos_prints :: "int \<Rightarrow> int \<Rightarrow> string" where
  "posPos_prints len pos =
     (let neg = -1 * len - 1 in
      if pos < neg \<or> pos > len then ''List<T>::posPos bad pos'' @ [CHR 0x0A] else [])"

definition insert_prints :: "int \<Rightarrow> 'a list_obj \<Rightarrow> string" where
  "insert_prints pos ls = posPos_prints (to_int32 (int (l_len ls))) pos"

definition remove_prints :: "int \<Rightarrow> 'a list_obj \<Rightarrow> string" where
  "remove_prints pos ls =
     (if List_empty ls then ''Empty list!'' @ [CHR 0x0A] else posPos_prints (to_int32 (int (l_len ls - 1))) pos)"

definition get_prints :: "int \<Rightarrow> 'a list_obj \<Rightarrow> string" where
  "get_prints pos ls =
     (if List_empty ls then ''Empty list!'' @ [CHR 0x0A] else posPos_prints (to_int32 (int (l_len ls - 1))) pos)"

text \<open>The calls of the program: the state is the output so far and the list.\<close>

type_synonym 'a printing = "string \<times> 'a list_obj"

definition call_insert :: "int \<Rightarrow> 'a \<Rightarrow> 'a printing \<Rightarrow> (int \<times> 'a printing) res" where
  "call_insert pos x st =
     bindR (List_insert pos x (snd st)) (\<lambda>(r, ls). Inr (r, fst st @ insert_prints pos (snd st), ls))"

definition call_insertTail :: "'a \<Rightarrow> 'a printing \<Rightarrow> (int \<times> 'a printing) res" where
  "call_insertTail x st = call_insert (to_int32 (int (l_len (snd st)))) x st"

definition call_remove :: "'a \<Rightarrow> int \<Rightarrow> 'a printing \<Rightarrow> (int \<times> 'a printing) res" where
  "call_remove dflt pos st =
     bindR (List_remove dflt pos (snd st)) (\<lambda>(r, ls). Inr (r, fst st @ remove_prints pos (snd st), ls))"

definition call_get :: "int \<Rightarrow> 'a printing \<Rightarrow> ('a \<times> 'a printing) res" where
  "call_get pos st = bindR (List_get pos (snd st)) (\<lambda>x. Inr (x, fst st @ get_prints pos (snd st), snd st))"

definition prints :: "string \<Rightarrow> 'a printing \<Rightarrow> 'a printing" where
  "prints t st = (fst st @ t, snd st)"

subsection \<open>The program\<close>

text \<open>\<open>while (!ls.empty()) ls.remove(pos)\<close>, with what the body of the loop does before it removes.\<close>

partial_function (option) empty_loop ::
  "('a printing \<Rightarrow> 'a printing res) \<Rightarrow> 'a \<Rightarrow> int \<Rightarrow> 'a printing \<Rightarrow> 'a printing res option" where
  "empty_loop body dflt pos st =
     (if List_empty (snd st) then Some (Inr st)
      else case bindR (body st) (call_remove dflt pos) of
        Inl e \<Rightarrow> Some (Inl e)
      | Inr (r, st') \<Rightarrow> empty_loop body dflt pos st')"

text \<open>The destructor is such a loop as well: \<open>List_destroy\<close> with what \<open>remove\<close> prints.\<close>

definition call_destroy :: "'a \<Rightarrow> 'a printing \<Rightarrow> 'a printing res option" where
  "call_destroy dflt st = empty_loop Inr dflt 0 st"

definition intEmpty :: "string \<Rightarrow> int printing res option" where
  "intEmpty out =
     bindO (Some (assertR (List_empty (List_new :: int list_obj)))) (\<lambda>_.
     bindO (Some (foldR (\<lambda>i st. bindR (call_insert 0 10 st) (\<lambda>(r, st'). Inr st')) [0..<10] (out, List_new))) (\<lambda>st.
     bindO (Some (assertR (l_len (snd st) = 10))) (\<lambda>_.
     bindO (empty_loop Inr 0 0 st) (call_destroy 0))))"

definition insert_line :: "nat \<Rightarrow> string" where
  "insert_line i = ''inset to pos '' @ to_string (int i) @ '', value: '' @ to_string (int i) @ [CHR 0x0A]"

definition intInsert :: "int \<Rightarrow> string \<Rightarrow> int printing res option" where
  "intInsert n out =
     bindO (Some (foldR (\<lambda>i st. bindR (call_insert (int i) (int i) (prints (insert_line i) st)) (\<lambda>(r, st'). Inr st'))
       [0..<nat n] (out @ ''input num:'', List_new))) (\<lambda>st.
     bindO (Some (foldR (\<lambda>i st. bindR (call_get (int i) st) (\<lambda>(x, st'). bindR (assertR (x = int i)) (\<lambda>_. Inr st')))
       [0..<l_len (snd st)] st)) (call_destroy 0))"

text \<open>The loop that prints the items, and the newline behind it.\<close>

definition print_items :: "string printing \<Rightarrow> string printing res" where
  "print_items st =
     bindR (foldR (\<lambda>i st. bindR (call_get (int i) st) (\<lambda>(x, st'). Inr (prints x st'))) [0..<l_len (snd st)] st)
       (\<lambda>st'. Inr (prints [CHR 0x0A] st'))"

definition strInsert :: "string \<Rightarrow> string printing res option" where
  "strInsert out =
     bindO (Some (bindR (call_insertTail ''hello'' (out, List_new)) (\<lambda>(_, st).
       bindR (call_insertTail '' world,'' st) (\<lambda>(_, st).
       bindR (call_insertTail '' I am cwp.'' st) (\<lambda>(_, st).
       bindR (print_items st) (\<lambda>st.
       bindR (call_remove [] 3 st) (\<lambda>(r, st). bindR (assertR (-1 = r)) (\<lambda>_.
       bindR (call_remove [] (-4) st) (\<lambda>(r, st). bindR (assertR (-1 = r)) (\<lambda>_. Inr st)))))))))) (\<lambda>st.
     bindO (empty_loop print_items [] (-1) st) (\<lambda>st.
     bindO (Some (bindR (assertR (List_empty (snd st))) (\<lambda>_.
       bindR (call_remove [] (-5) st) (\<lambda>(_, st). bindR (call_remove [] 0 st) (\<lambda>(_, st). Inr st))))) (call_destroy [])))"

text \<open>\<open>main\<close> runs the three, one after the other; \<open>n\<close> is the number that is typed in.\<close>

definition list_main :: "int \<Rightarrow> string res option" where
  "list_main n =
     bindO (intEmpty []) (\<lambda>(out, _). bindO (intInsert n out) (\<lambda>(out, _). bindO (strInsert out) (\<lambda>(out, _).
     Some (Inr out))))"

subsection \<open>Calls at good positions print nothing\<close>

text \<open>The position tests of the code, as the calls of the program use them.\<close>

lemma quiet_insert:
  "rep ls xs \<Longrightarrow> length xs < 2 ^ 31 \<Longrightarrow> 0 \<le> pos \<Longrightarrow> pos \<le> int (length xs) \<Longrightarrow> insert_prints pos ls = []"
  using rep_length [of ls xs] by (simp add: insert_prints_def posPos_prints_def)

lemma quiet_remove:
  assumes "rep ls xs" "length xs < 2 ^ 31" "xs \<noteq> []" "pos = 0 \<or> pos = -1"
  shows "remove_prints pos ls = []"
proof -
  have "\<not> List_empty ls" "l_len ls = length xs" "0 < length xs"
    using assms rep_empty [OF assms(1)] rep_length [OF assms(1)] by auto
  with assms(2,4) show ?thesis by (auto simp: remove_prints_def posPos_prints_def)
qed

lemma quiet_get:
  assumes "rep ls xs" "length xs < 2 ^ 31" "i < length xs"
  shows "get_prints (int i) ls = []"
proof -
  have "\<not> List_empty ls" "l_len ls = length xs"
    using assms rep_empty [OF assms(1)] rep_length [OF assms(1)] by auto
  with assms(2,3) show ?thesis by (simp add: get_prints_def posPos_prints_def)
qed

lemma put_at:
  assumes "rep ls xs" "length xs < 2 ^ 31" "k \<le> length xs"
  shows "\<exists>ls'. call_insert (int k) x (out, ls) = Inr (0, out, ls') \<and> rep ls' (take k xs @ x # drop k xs)"
proof -
  have "index_insert (length xs) (int k) = Some k" using assms(3) by (simp add: index_insert_def)
  from list_obj.ins_law [OF assms(1,2) this, of x] quiet_insert [OF assms(1,2), of "int k"] assms(3)
  show ?thesis by (auto simp: call_insert_def)
qed

lemma put_tail:
  assumes "rep ls xs" "length xs < 2 ^ 31"
  shows "\<exists>ls'. call_insertTail x (out, ls) = Inr (0, out, ls') \<and> rep ls' (xs @ [x])"
  using put_at [OF assms order_refl, of x out] assms(2) rep_length [OF assms(1)] by (simp add: call_insertTail_def)

lemma take_first:
  assumes "rep ls (x # xs)" "length (x # xs) < 2 ^ 31"
  shows "\<exists>ls'. call_remove dflt 0 (out, ls) = Inr (0, out, ls') \<and> rep ls' xs"
proof -
  have "index_access (length (x # xs)) 0 = Some 0" by (simp add: index_access_def)
  from list_obj.rem_law [OF assms this, of dflt] quiet_remove [OF assms, of 0] show ?thesis
    by (auto simp: call_remove_def)
qed

lemma take_last:
  assumes "rep ls (xs @ [x])" "length (xs @ [x]) < 2 ^ 31"
  shows "\<exists>ls'. call_remove dflt (-1) (out, ls) = Inr (0, out, ls') \<and> rep ls' xs"
proof -
  have "index_access (length (xs @ [x])) (-1) = Some (length xs)" by (simp add: index_access_def)
  from list_obj.rem_law [OF assms this, of dflt] quiet_remove [OF assms, of "-1"] show ?thesis
    by (auto simp: call_remove_def)
qed

lemma get_nth:
  assumes "rep ls xs" "length xs < 2 ^ 31" "i < length xs"
  shows "call_get (int i) (out, ls) = Inr (xs ! i, out, ls)"
proof -
  have "List_get (int i) ls = Inr (xs ! i)"
    using assms by (intro list_obj.get_law) (simp_all add: index_access_def)
  then show ?thesis using quiet_get [OF assms] by (simp add: call_get_def)
qed

subsection \<open>Its loops\<close>

text \<open>Emptying from the front, and from the end with the items printed before each removal.\<close>

lemma empty_front:
  "rep ls xs \<Longrightarrow> length xs < 2 ^ 31 \<Longrightarrow> \<exists>ls'. empty_loop Inr dflt 0 (out, ls) = Some (Inr (out, ls')) \<and> rep ls' []"
proof (induction xs arbitrary: ls)
  case Nil
  then show ?case by (simp add: empty_loop.simps rep_empty)
next
  case (Cons x xs)
  from take_first [OF Cons.prems, of dflt out] obtain ls1 where
    "call_remove dflt 0 (out, ls) = Inr (0, out, ls1)" "rep ls1 xs" by blast
  moreover have "\<not> List_empty ls" using rep_empty [OF Cons.prems(1)] by simp
  ultimately show ?case using Cons.IH [of ls1] Cons.prems(2) by (subst empty_loop.simps) simp
qed

text \<open>The destructor, printing as it goes, does what \<open>List_destroy\<close> does.\<close>

lemma same_destructor:
  "rep ls xs \<Longrightarrow> length xs < 2 ^ 31 \<Longrightarrow>
   \<exists>ls'. call_destroy dflt (out, ls) = Some (Inr (out, ls')) \<and> List_destroy dflt ls = Some (Inr ls')"
proof (induction xs arbitrary: ls)
  case Nil
  then show ?case by (simp add: call_destroy_def empty_loop.simps List_destroy.simps rep_empty)
next
  case (Cons x xs)
  from take_first [OF Cons.prems, of dflt out] obtain ls1 where
    ls1: "call_remove dflt 0 (out, ls) = Inr (0, out, ls1)" "rep ls1 xs" by blast
  then have "List_remove dflt 0 ls = Inr (0, ls1)" by (auto simp: call_remove_def bindR_eq_Inr_iff)
  moreover have "\<not> List_empty ls" using rep_empty [OF Cons.prems(1)] by simp
  ultimately show ?case using Cons.IH [OF ls1(2)] Cons.prems(2) ls1(1)
    unfolding call_destroy_def by (subst empty_loop.simps, subst List_destroy.simps) simp
qed

lemma destroyed:
  assumes "rep ls xs" "length xs < 2 ^ 31"
  shows "\<exists>ls'. call_destroy dflt (out, ls) = Some (Inr (out, ls')) \<and> l_heap ls' = Map.empty"
  using same_destructor [OF assms, of dflt out] destroy_frees [OF assms, of dflt] by auto

lemma print_items:
  assumes "rep ls xs" "length xs < 2 ^ 31"
  shows "print_items (out, ls) = Inr (out @ concat xs @ [CHR 0x0A], ls)"
proof -
  have "foldR (\<lambda>i st. bindR (call_get (int i) st) (\<lambda>(x, st'). Inr (prints x st'))) [0..<m] (out, ls) =
      Inr (out @ concat (take m xs), ls)" if "m \<le> length xs" for m
    using that
  proof (induction m)
    case (Suc m)
    then show ?case using get_nth [OF assms, of m]
      by (simp add: foldR_append take_Suc_conv_app_nth prints_def)
  qed simp
  from this [of "length xs"] show ?thesis
    by (simp add: print_items_def rep_length [OF assms(1)] prints_def)
qed

fun shrinking :: "string list \<Rightarrow> string" where
  "shrinking xs = (if xs = [] then [] else concat xs @ [CHR 0x0A] @ shrinking (butlast xs))"

declare shrinking.simps [simp del]

lemma empty_back:
  "rep ls xs \<Longrightarrow> length xs < 2 ^ 31 \<Longrightarrow>
   \<exists>ls'. empty_loop print_items [] (-1) (out, ls) = Some (Inr (out @ shrinking xs, ls')) \<and> rep ls' []"
proof (induction xs arbitrary: ls out rule: rev_induct)
  case Nil
  then show ?case by (simp add: empty_loop.simps rep_empty shrinking.simps)
next
  case (snoc x xs)
  from take_last [OF snoc.prems, of "[]" "out @ concat (xs @ [x]) @ [CHR 0x0A]"] obtain ls1 where
    ls1: "call_remove [] (-1) (out @ concat (xs @ [x]) @ [CHR 0x0A], ls) =
      Inr (0, out @ concat (xs @ [x]) @ [CHR 0x0A], ls1)" "rep ls1 xs" by blast
  have "\<not> List_empty ls" using rep_empty [OF snoc.prems(1)] by simp
  with ls1(1) print_items [OF snoc.prems, of out] show ?case
    using snoc.IH [OF ls1(2), of "out @ concat (xs @ [x]) @ [CHR 0x0A]"] snoc.prems(2)
    by (subst empty_loop.simps) (simp add: shrinking.simps [of "xs @ [x]"])
qed

subsection \<open>Its parts\<close>

lemma intEmpty_runs: "\<exists>ls. intEmpty out = Some (Inr (out, ls)) \<and> l_heap ls = Map.empty"
proof -
  let ?put = "\<lambda>(i :: nat) st. bindR (call_insert 0 (10 :: int) st) (\<lambda>(r, st'). Inr st')"
  have put: "m < 2 ^ 31 \<Longrightarrow> \<exists>ls. foldR ?put [0..<m] (out, List_new) = Inr (out, ls) \<and> rep ls (replicate m 10)" for m
  proof (induction m)
    case (Suc m)
    then obtain ls where ls: "foldR ?put [0..<m] (out, List_new) = Inr (out, ls)" "rep ls (replicate m 10)" by auto
    from put_at [OF ls(2), of 0 10 out] Suc.prems ls(1) show ?case by (auto simp: foldR_append)
  qed (simp add: rep_new)
  from put [of 10] obtain ls where ls: "foldR ?put [0..<10] (out, List_new) = Inr (out, ls)" "rep ls (replicate 10 10)"
    by auto
  obtain ls' where ls': "empty_loop Inr 0 0 (out, ls) = Some (Inr (out, ls'))" "rep ls' []"
    using empty_front [OF ls(2), of 0 out] by auto
  have "l_len ls = 10" "List_empty (List_new :: int list_obj)"
    using rep_length [OF ls(2)] rep_empty [OF rep_new] by simp_all
  with ls(1) ls' destroyed [OF ls'(2), of 0 out] show ?thesis unfolding intEmpty_def by simp
qed

lemma intInsert_runs:
  assumes "n < 2 ^ 31"
  shows "\<exists>ls. intInsert n out = Some (Inr (out @ ''input num:'' @ concat (map insert_line [0..<nat n]), ls)) \<and>
    l_heap ls = Map.empty"
proof -
  let ?put = "\<lambda>i st. bindR (call_insert (int i) (int i) (prints (insert_line i) st)) (\<lambda>(r, st'). Inr st')"
  let ?out = "\<lambda>m. out @ ''input num:'' @ concat (map insert_line [0..<m])"
  have put: "m < 2 ^ 31 \<Longrightarrow> \<exists>ls. foldR ?put [0..<m] (out @ ''input num:'', List_new) = Inr (?out m, ls) \<and>
      rep ls (map int [0..<m])" for m
  proof (induction m)
    case (Suc m)
    then obtain ls where ls: "foldR ?put [0..<m] (out @ ''input num:'', List_new) = Inr (?out m, ls)"
      "rep ls (map int [0..<m])" by auto
    from put_at [OF ls(2), of m "int m" "?out (Suc m)"] Suc.prems obtain ls' where
      "call_insert (int m) (int m) (?out (Suc m), ls) = Inr (0, ?out (Suc m), ls')" "rep ls' (map int [0..<Suc m])" by auto
    with ls(1) show ?case by (auto simp: foldR_append prints_def)
  qed (simp add: rep_new)
  have n: "nat n < 2 ^ 31" using assms by simp
  from put [OF this] obtain ls where ls: "foldR ?put [0..<nat n] (out @ ''input num:'', List_new) = Inr (?out (nat n), ls)"
    "rep ls (map int [0..<nat n])" by blast
  have "foldR (\<lambda>i st. bindR (call_get (int i) st) (\<lambda>(x, st'). bindR (assertR (x = int i)) (\<lambda>_. Inr st')))
      [0..<m] (?out (nat n), ls) = Inr (?out (nat n), ls)" if "m \<le> nat n" for m
    using that
  proof (induction m)
    case (Suc m)
    then show ?case using get_nth [OF ls(2), of m] n by (simp add: foldR_append)
  qed simp
  then have "foldR (\<lambda>i st. bindR (call_get (int i) st) (\<lambda>(x, st'). bindR (assertR (x = int i)) (\<lambda>_. Inr st')))
      [0..<l_len ls] (?out (nat n), ls) = Inr (?out (nat n), ls)"
    using rep_length [OF ls(2)] by simp
  with ls(1) destroyed [OF ls(2), of 0 "?out (nat n)"] n show ?thesis unfolding intInsert_def by auto
qed

definition bad_pos_line :: string where
  "bad_pos_line = ''List<T>::posPos bad pos'' @ [CHR 0x0A]"

definition empty_line :: string where
  "empty_line = ''Empty list!'' @ [CHR 0x0A]"

text \<open>The two bad positions on three items, and the two removals from an empty list.\<close>

lemma bad_pos:
  assumes "rep ls xs" "length xs = 3" "pos = 3 \<or> pos = -4"
  shows "call_remove dflt pos (out, ls) = Inr (-1, out @ bad_pos_line, ls)"
proof -
  have "index_access (length xs) pos = None" using assms(2,3) by (auto simp: index_access_def)
  then have "List_remove dflt pos ls = Inr (-1, ls)" using remove_refused [OF assms(1)] assms(2) by simp
  moreover have "\<not> List_empty ls" "l_len ls = 3"
    using rep_empty [OF assms(1)] rep_length [OF assms(1)] assms(2) by auto
  ultimately show ?thesis using assms(3)
    by (auto simp: call_remove_def remove_prints_def posPos_prints_def bad_pos_line_def)
qed

lemma remove_none: "rep ls [] \<Longrightarrow> call_remove dflt pos (out, ls) = Inr (-1, out @ empty_line, ls)"
  using rep_empty [of ls "[]"] by (simp add: call_remove_def List_remove_def remove_prints_def empty_line_def)

lemma strInsert_runs:
  "\<exists>ls. strInsert out = Some (Inr (out @ concat [''hello'', '' world,'', '' I am cwp.''] @ [CHR 0x0A] @
    bad_pos_line @ bad_pos_line @ shrinking [''hello'', '' world,'', '' I am cwp.''] @ empty_line @ empty_line, ls)) \<and>
    l_heap ls = Map.empty"
proof -
  let ?xs = "[''hello'', '' world,'', '' I am cwp.'']"
  obtain ls1 where ls1: "call_insertTail ''hello'' (out, List_new) = Inr (0, out, ls1)" "rep ls1 [''hello'']"
    using put_tail [OF rep_new] by fastforce
  obtain ls2 where ls2: "call_insertTail '' world,'' (out, ls1) = Inr (0, out, ls2)" "rep ls2 [''hello'', '' world,'']"
    using put_tail [OF ls1(2)] by fastforce
  obtain ls3 where ls3: "call_insertTail '' I am cwp.'' (out, ls2) = Inr (0, out, ls3)" "rep ls3 ?xs"
    using put_tail [OF ls2(2)] by fastforce
  define out1 where "out1 = out @ concat ?xs @ [CHR 0x0A]"
  have print: "print_items (out, ls3) = Inr (out1, ls3)" unfolding out1_def using print_items [OF ls3(2)] by simp
  have refuse: "call_remove [] 3 (out1, ls3) = Inr (-1, out1 @ bad_pos_line, ls3)"
    "call_remove [] (-4) (out1 @ bad_pos_line, ls3) = Inr (-1, out1 @ bad_pos_line @ bad_pos_line, ls3)"
    using bad_pos [OF ls3(2)] by simp_all
  define out2 where "out2 = (out1 @ bad_pos_line @ bad_pos_line) @ shrinking ?xs"
  obtain ls4 where ls4: "empty_loop print_items [] (-1) (out1 @ bad_pos_line @ bad_pos_line, ls3) = Some (Inr (out2, ls4))"
    "rep ls4 []" unfolding out2_def using empty_back [OF ls3(2), of "out1 @ bad_pos_line @ bad_pos_line"] by auto
  have none: "List_empty ls4" "call_remove [] (-5) (out2, ls4) = Inr (-1, out2 @ empty_line, ls4)"
    "call_remove [] 0 (out2 @ empty_line, ls4) = Inr (-1, out2 @ empty_line @ empty_line, ls4)"
    using rep_empty [OF ls4(2)] remove_none [OF ls4(2)] by simp_all
  note run = ls1(1) ls2(1) ls3(1) print refuse ls4(1) none
  have "\<exists>ls. strInsert out = Some (Inr (out2 @ empty_line @ empty_line, ls)) \<and> l_heap ls = Map.empty"
    using destroyed [OF ls4(2), of "[]" "out2 @ empty_line @ empty_line"] unfolding strInsert_def by (simp add: run)
  then show ?thesis unfolding out2_def out1_def by (simp only: append_assoc)
qed

subsection \<open>Properties\<close>

text \<open>
  C40: Whatever number is typed in, the program runs to its end: no assertion fails, no pointer is
  misused and every list gives its items back. All it prints, with the messages of the list: the
  prompt, a line for every insertion, the strings, the two complaints about the bad positions 3 and
  -4, the strings again before each removal of the last one, and the two complaints about the
  removals from the empty list.
\<close>

theorem list_program:
  assumes "n < 2 ^ 31"
  shows "list_main n = Some (Inr (''input num:'' @ concat (map insert_line [0..<nat n]) @
      concat (map (\<lambda>l. l @ [CHR 0x0A])
        [''hello world, I am cwp.'', ''List<T>::posPos bad pos'', ''List<T>::posPos bad pos'',
         ''hello world, I am cwp.'', ''hello world,'', ''hello'', ''Empty list!'', ''Empty list!'']))) \<and>
    (\<exists>out1 ls1 out2 ls2 out3 ls3. intEmpty [] = Some (Inr (out1, ls1)) \<and> intInsert n out1 = Some (Inr (out2, ls2)) \<and>
      strInsert out2 = Some (Inr (out3, ls3)) \<and>
      l_heap ls1 = Map.empty \<and> l_heap ls2 = Map.empty \<and> l_heap ls3 = Map.empty)"
proof -
  define out2 where "out2 = ''input num:'' @ concat (map insert_line [0..<nat n])"
  define out3 where "out3 = out2 @ concat (map (\<lambda>l. l @ [CHR 0x0A])
        [''hello world, I am cwp.'', ''List<T>::posPos bad pos'', ''List<T>::posPos bad pos'',
         ''hello world, I am cwp.'', ''hello world,'', ''hello'', ''Empty list!'', ''Empty list!''])"
  obtain ls1 where ls1: "intEmpty [] = Some (Inr ([], ls1))" "l_heap ls1 = Map.empty" using intEmpty_runs by blast
  obtain ls2 where ls2: "intInsert n [] = Some (Inr (out2, ls2))" "l_heap ls2 = Map.empty"
    using intInsert_runs [OF assms, of "[]"] unfolding out2_def by auto
  have "out3 = out2 @ concat [''hello'', '' world,'', '' I am cwp.''] @ [CHR 0x0A] @
    bad_pos_line @ bad_pos_line @ shrinking [''hello'', '' world,'', '' I am cwp.''] @ empty_line @ empty_line"
    by (simp add: out3_def shrinking.simps bad_pos_line_def empty_line_def)
  then obtain ls3 where ls3: "strInsert out2 = Some (Inr (out3, ls3))" "l_heap ls3 = Map.empty"
    using strInsert_runs [of out2] by metis
  have "list_main n = Some (Inr out3)" by (simp only: list_main_def ls1 ls2 ls3 bindO_simps prod.case)
  with ls1 ls2 ls3 show ?thesis unfolding out3_def out2_def append_assoc by blast
qed

theorem list_program_witness:
  "list_main 2 = Some (Inr (''input num:inset to pos 0, value: 0'' @ [CHR 0x0A] @ ''inset to pos 1, value: 1'' @ [CHR 0x0A] @
    ''hello world, I am cwp.'' @ [CHR 0x0A] @ ''List<T>::posPos bad pos'' @ [CHR 0x0A] @
    ''List<T>::posPos bad pos'' @ [CHR 0x0A] @ ''hello world, I am cwp.'' @ [CHR 0x0A] @ ''hello world,'' @ [CHR 0x0A] @
    ''hello'' @ [CHR 0x0A] @ ''Empty list!'' @ [CHR 0x0A] @ ''Empty list!'' @ [CHR 0x0A]))"
proof -
  have "concat (map insert_line [0..<2]) = ''inset to pos 0, value: 0'' @ [CHR 0x0A] @ ''inset to pos 1, value: 1'' @ [CHR 0x0A]"
    by (simp add: insert_line_def to_string_def decimals.simps digits_def upt_rec)
  with list_program [of 2] show ?thesis by simp
qed

end
