(* ===== verification/SkipNodes.thy ===== *)
theory SkipNodes
  imports Prelude
begin

text \<open>
  The nodes of the skip list of \<open>ds/kv_skiplist.h\<close> and the walks over them. A node has an
  array of pointers, one for every level it is indexed on and one more; nodes live in a heap, so
  a pointer to a deleted node is a fault when followed.
\<close>

subsection \<open>Nodes and the heap\<close>

record ('k, 'v) node =
  n_key :: 'k
  n_val :: 'v
  n_next :: "nat option list"
  n_level :: nat

type_synonym ('k, 'v) nodes = "nat \<rightharpoonup> ('k, 'v) node"

definition createNode :: "'k \<Rightarrow> 'v \<Rightarrow> nat \<Rightarrow> ('k, 'v) node" where
  "createNode k v l = \<lparr>n_key = k, n_val = v, n_next = replicate (l + 1) None, n_level = l\<rparr>"

definition node_at :: "('k, 'v) nodes \<Rightarrow> nat option \<Rightarrow> ('k, 'v) node res" where
  "node_at h p =
     (case p of None \<Rightarrow> Inl NullDeref
      | Some a \<Rightarrow> (case h a of None \<Rightarrow> Inl UseAfterFree | Some nd \<Rightarrow> Inr nd))"

text \<open>Reading and assigning \<open>a->next[i]\<close>.\<close>

definition nxt :: "('k, 'v) nodes \<Rightarrow> nat \<Rightarrow> nat \<Rightarrow> nat option res" where
  "nxt h a i =
     bindR (node_at h (Some a)) (\<lambda>nd. if i < length (n_next nd) then Inr (n_next nd ! i) else Inl OutOfBounds)"

definition set_nxt :: "nat \<Rightarrow> nat \<Rightarrow> nat option \<Rightarrow> ('k, 'v) nodes \<Rightarrow> ('k, 'v) nodes res" where
  "set_nxt a i q h =
     bindR (node_at h (Some a)) (\<lambda>nd. if i < length (n_next nd)
       then Inr (h(a \<mapsto> nd\<lparr>n_next := (n_next nd)[i := q]\<rparr>)) else Inl OutOfBounds)"

subsection \<open>The walks\<close>

text \<open>
  The inner loop that \<open>findPre\<close>, \<open>insert\<close> and \<open>erase\<close> share:
  \<open>while (current->next[i] && current->next[i]->GetKey() < key) current = current->next[i]\<close>.
\<close>

partial_function (option) advance ::
  "('k :: linorder, 'v) nodes \<Rightarrow> 'k \<Rightarrow> nat \<Rightarrow> nat \<Rightarrow> nat res option" where
  "advance h k i cur =
     (case nxt h cur i of
        Inl e \<Rightarrow> Some (Inl e)
      | Inr None \<Rightarrow> Some (Inr cur)
      | Inr (Some b) \<Rightarrow> (case node_at h (Some b) of
          Inl e \<Rightarrow> Some (Inl e)
        | Inr nd \<Rightarrow> if n_key nd < k then advance h k i b else Some (Inr cur)))"

text \<open>
  The outer loop, \<open>n\<close> levels still to go: it records the last node before the key on each
  level in the array \<open>update\<close> and yields the one on the lowest.
\<close>

primrec descend ::
  "('k :: linorder, 'v) nodes \<Rightarrow> 'k \<Rightarrow> nat \<Rightarrow> nat \<Rightarrow> nat option list \<Rightarrow> (nat \<times> nat option list) res option"
  where
  "descend h k 0 cur upd = Some (Inr (cur, upd))"
| "descend h k (Suc i) cur upd =
     bindO (advance h k i cur) (\<lambda>c.
       if i < length upd then descend h k i c (upd[i := Some c]) else Some (Inl OutOfBounds))"

subsection \<open>Linked levels\<close>

text \<open>\<open>linked h i p as\<close>: on level \<open>i\<close> the nodes after \<open>p\<close> are \<open>as\<close>.\<close>

primrec linked :: "('k, 'v) nodes \<Rightarrow> nat \<Rightarrow> nat \<Rightarrow> nat list \<Rightarrow> bool" where
  "linked h i p [] \<longleftrightarrow> nxt h p i = Inr None"
| "linked h i p (a # as) \<longleftrightarrow> nxt h p i = Inr (Some a) \<and> linked h i a as"

text \<open>The key and the level of a node in the heap.\<close>

definition key_of :: "('k, 'v) nodes \<Rightarrow> nat \<Rightarrow> 'k" where
  "key_of h a = n_key (the (h a))"

definition level_of :: "('k, 'v) nodes \<Rightarrow> nat \<Rightarrow> nat" where
  "level_of h a = n_level (the (h a))"

lemma node_at_simps [simp]:
  "node_at h None = Inl NullDeref"
  "h a = Some nd \<Longrightarrow> node_at h (Some a) = Inr nd"
  "h a = None \<Longrightarrow> node_at h (Some a) = Inl UseAfterFree"
  by (simp_all add: node_at_def)

lemma nxt_Inr_dom: "nxt h a i = Inr q \<Longrightarrow> a \<in> dom h"
  by (cases "h a") (auto simp: nxt_def)

lemma linked_dom: "linked h i p as \<Longrightarrow> insert p (set as) \<subseteq> dom h"
  by (induction as arbitrary: p) (auto dest: nxt_Inr_dom)

text \<open>Entering the list of a level at any of its nodes.\<close>

lemma linked_append:
  "linked h i p (as @ bs) \<Longrightarrow> linked h i (last (p # as)) bs"
proof (induction as arbitrary: p)
  case (Cons a as)
  have *: "last (p # a # as) = last (a # as)" by simp
  show ?case unfolding * by (rule Cons.IH) (use Cons.prems in \<open>simp only: append_Cons linked.simps\<close>)
next
  case Nil
  then show ?case by (simp only: append_Nil last.simps simp_thms if_True)
qed

lemma linked_from:
  assumes "linked h i p (as @ bs)" "c \<in> set (p # as)"
  shows "\<exists>cs. linked h i c (cs @ bs) \<and> last (c # cs) = last (p # as) \<and> set cs \<subseteq> set as"
  using assms
proof (induction as arbitrary: p)
  case (Cons a as)
  show ?case
  proof (cases "c = p")
    case True
    with Cons.prems(1) show ?thesis by (intro exI [of _ "a # as"]) simp
  next
    case False
    with Cons.prems have "linked h i a (as @ bs)" "c \<in> set (a # as)" by simp_all
    from Cons.IH [OF this] obtain cs where
      "linked h i c (cs @ bs)" "last (c # cs) = last (a # as)" "set cs \<subseteq> set as" by blast
    then show ?thesis by (intro exI [of _ cs]) auto
  qed
qed (intro exI [of _ "[]"], simp)

lemma advance_linked:
  assumes "linked h i c (cs @ bs)" "\<forall>a \<in> set cs. key_of h a < k" "\<forall>a \<in> set bs. \<not> key_of h a < k"
  shows "advance h k i c = Some (Inr (last (c # cs)))"
  using assms
proof (induction cs arbitrary: c)
  case Nil
  show ?case
  proof (cases bs)
    case Nil
    with \<open>linked h i c ([] @ bs)\<close> show ?thesis by (subst advance.simps) simp
  next
    case (Cons b bs')
    with Nil.prems linked_dom [OF Nil.prems(1)] obtain nd where "h b = Some nd" by auto
    with Cons Nil.prems show ?thesis by (subst advance.simps) (simp add: key_of_def)
  qed
next
  case (Cons a cs)
  with linked_dom [OF Cons.prems(1)] obtain nd where "h a = Some nd" by auto
  with Cons show ?case by (subst advance.simps) (simp add: key_of_def)
qed

text \<open>The nodes of \<open>as\<close> that are indexed on level \<open>i\<close>.\<close>

definition on_level :: "('k, 'v) nodes \<Rightarrow> nat \<Rightarrow> nat list \<Rightarrow> nat list" where
  "on_level h i as = filter (\<lambda>a. i < level_of h a) as"

lemma on_level_simps [simp]:
  "on_level h i [] = []"
  "on_level h i (a # as) = (if i < level_of h a then a # on_level h i as else on_level h i as)"
  "on_level h i (as @ bs) = on_level h i as @ on_level h i bs"
  by (simp_all add: on_level_def)

lemma set_on_level: "set (on_level h i as) = {a \<in> set as. i < level_of h a}"
  by (simp add: on_level_def)

lemma on_level_none: "\<forall>a \<in> set as. level_of h a \<le> i \<Longrightarrow> on_level h i as = []"
  by (auto simp: on_level_def filter_empty_conv)

lemma on_level_all: "\<forall>a \<in> set as. i < level_of h a \<Longrightarrow> on_level h i as = as"
  by (simp add: on_level_def)

text \<open>The search: on every level it stops at the last node whose key is below the sought one.\<close>

lemma descend_linked:
  assumes "\<forall>i < n. linked h i p (on_level h i (as @ bs))"
    and "\<forall>a \<in> set as. key_of h a < k" "\<forall>a \<in> set bs. \<not> key_of h a < k"
    and "c = p \<or> c \<in> set (on_level h (n - 1) as)" "n \<le> length upd"
  shows "descend h k n c upd =
    Some (Inr (if n = 0 then c else last (p # on_level h 0 as),
      map (\<lambda>i. Some (last (p # on_level h i as))) [0..<n] @ drop n upd))"
  using assms(1,4,5)
proof (induction n arbitrary: c upd)
  case (Suc i)
  let ?c1 = "last (p # on_level h i as)"
  have "linked h i p (on_level h i as @ on_level h i bs)" using Suc.prems(1) by simp
  moreover have "c \<in> set (p # on_level h i as)" using Suc.prems(2) by simp
  ultimately obtain cs where cs: "linked h i c (cs @ on_level h i bs)" "last (c # cs) = ?c1"
    "set cs \<subseteq> set (on_level h i as)" using linked_from by blast
  have "\<forall>a \<in> set cs. key_of h a < k" "\<forall>a \<in> set (on_level h i bs). \<not> key_of h a < k"
    using assms(2,3) cs(3) by (auto simp: set_on_level)
  from advance_linked [OF cs(1) this] have "advance h k i c = Some (Inr ?c1)"
    unfolding cs(2) .
  moreover have "?c1 = p \<or> ?c1 \<in> set (on_level h (i - 1) as)"
    using last_in_set [of "p # on_level h i as"] by (auto simp: set_on_level split: if_splits)
  then have "descend h k i ?c1 (upd[i := Some ?c1]) =
    Some (Inr (if i = 0 then ?c1 else last (p # on_level h 0 as),
      map (\<lambda>i. Some (last (p # on_level h i as))) [0..<i] @ drop i (upd[i := Some ?c1])))"
    using Suc.IH [of ?c1 "upd[i := Some ?c1]"] Suc.prems(1,3) by simp
  moreover have "drop i (upd[i := Some ?c1]) = Some ?c1 # drop (Suc i) upd"
    using Suc.prems(3) by (simp add: drop_update_swap Cons_nth_drop_Suc [symmetric])
  ultimately show ?case using Suc.prems(3) by auto
qed simp

subsection \<open>Assigning a link\<close>

text \<open>Everything of the nodes but the links.\<close>

definition info :: "('k, 'v) nodes \<Rightarrow> nat \<Rightarrow> ('k \<times> 'v \<times> nat \<times> nat) option" where
  "info h a = map_option (\<lambda>nd. (n_key nd, n_val nd, n_level nd, length (n_next nd))) (h a)"

definition val_of :: "('k, 'v) nodes \<Rightarrow> nat \<Rightarrow> 'v" where
  "val_of h a = n_val (the (h a))"

definition size_of :: "('k, 'v) nodes \<Rightarrow> nat \<Rightarrow> nat" where
  "size_of h a = length (n_next (the (h a)))"

lemma info_eq_dom: "info h = info h' \<Longrightarrow> dom h = dom h'"
proof -
  have "a \<in> dom h \<longleftrightarrow> info h a \<noteq> None" for h :: "('a, 'b) nodes" and a
    by (auto simp: info_def)
  then show "info h = info h' \<Longrightarrow> dom h = dom h'" by (intro set_eqI) simp
qed

lemma info_eq_at:
  assumes "info h' = info h" "a \<in> dom h"
  shows "key_of h' a = key_of h a" "val_of h' a = val_of h a" "level_of h' a = level_of h a"
    "size_of h' a = size_of h a"
proof -
  have "info h' a = info h a" using assms(1) by simp
  moreover obtain nd where "h a = Some nd" using assms(2) by auto
  ultimately obtain nd' where "h' a = Some nd'" "n_key nd' = n_key nd" "n_val nd' = n_val nd"
    "n_level nd' = n_level nd" "length (n_next nd') = length (n_next nd)"
    by (cases "h' a") (auto simp: info_def)
  with \<open>h a = Some nd\<close> show "key_of h' a = key_of h a" "val_of h' a = val_of h a"
    "level_of h' a = level_of h a" "size_of h' a = size_of h a"
    by (simp_all add: key_of_def val_of_def level_of_def size_of_def)
qed

lemma info_eq_on_level:
  assumes "info h' = info h" "set as \<subseteq> dom h"
  shows "on_level h' i as = on_level h i as"
proof -
  have "level_of h' a = level_of h a" if "a \<in> set as" for a
    using info_eq_at(3) [OF assms(1)] assms(2) that by blast
  then show ?thesis by (simp add: on_level_def cong: filter_cong)
qed

lemma nxt_in: "a \<in> dom h \<Longrightarrow> i < size_of h a \<Longrightarrow> \<exists>q. nxt h a i = Inr q"
  by (auto simp: nxt_def size_of_def)

lemma set_nxt_at:
  assumes "a \<in> dom h" "i < size_of h a"
  shows "\<exists>h'. set_nxt a i q h = Inr h' \<and> info h' = info h \<and>
    (\<forall>b j. nxt h' b j = (if b = a \<and> j = i then Inr q else nxt h b j))"
proof -
  obtain nd where nd: "h a = Some nd" "i < length (n_next nd)"
    using assms by (auto simp: size_of_def)
  let ?h = "h(a \<mapsto> nd\<lparr>n_next := (n_next nd)[i := q]\<rparr>)"
  have "nxt ?h b j = (if b = a \<and> j = i then Inr q else nxt h b j)" for b j
    using nd by (simp add: nxt_def node_at_def)
  with nd show ?thesis
    by (intro exI [of _ ?h]) (simp add: set_nxt_def info_def fun_eq_iff)
qed

lemma linked_cong:
  "linked h i p as \<Longrightarrow> \<forall>a \<in> insert p (set as). nxt h' a i = nxt h a i \<Longrightarrow> linked h' i p as"
proof (induction as arbitrary: p)
  case (Cons a as)
  then show ?case using Cons.IH [of a] by simp
qed simp

text \<open>Putting a node between two parts of a level, and taking one out.\<close>

lemma linked_insert:
  assumes "linked h i p (as @ bs)" "distinct (p # as @ bs)" "n \<notin> set (p # as @ bs)"
    and "\<forall>b \<in> set (p # as @ bs) - {last (p # as)}. nxt h' b i = nxt h b i"
    and "nxt h' n i = nxt h (last (p # as)) i" "nxt h' (last (p # as)) i = Inr (Some n)"
  shows "linked h' i p (as @ n # bs)"
  using assms
proof (induction as arbitrary: p)
  case Nil
  have "linked h' i n bs"
  proof (cases bs)
    case Nil
    with \<open>linked h i p ([] @ bs)\<close> \<open>nxt h' n i = nxt h (last [p]) i\<close> show ?thesis by simp
  next
    case (Cons b bs')
    from Nil.prems Cons have "linked h i b bs'" "\<forall>a \<in> insert b (set bs'). nxt h' a i = nxt h a i" by auto
    then have "linked h' i b bs'" by (rule linked_cong)
    with Nil.prems Cons show ?thesis by simp
  qed
  with Nil.prems show ?case by simp
next
  case (Cons a as)
  have *: "last (p # a # as) = last (a # as)" by simp
  have "p \<noteq> last (a # as)" using Cons.prems(2) last_in_set [of "a # as"] by auto
  then have "nxt h' p i = Inr (Some a)" using Cons.prems(1,4) by simp
  moreover have "linked h' i a (as @ n # bs)"
    using Cons.prems unfolding * by (intro Cons.IH) auto
  ultimately show ?case by simp
qed

lemma linked_remove:
  assumes "linked h i p (as @ n # bs)" "distinct (p # as @ n # bs)"
    and "\<forall>b \<in> set (p # as @ bs) - {last (p # as)}. nxt h' b i = nxt h b i"
    and "nxt h' (last (p # as)) i = nxt h n i"
  shows "linked h' i p (as @ bs)"
  using assms
proof (induction as arbitrary: p)
  case Nil
  show ?case
  proof (cases bs)
    case Nil
    with Nil.prems show ?thesis by simp
  next
    case (Cons b bs')
    from Nil.prems Cons have "linked h i b bs'" "\<forall>a \<in> insert b (set bs'). nxt h' a i = nxt h a i" by auto
    then have "linked h' i b bs'" by (rule linked_cong)
    with Nil.prems Cons show ?thesis by simp
  qed
next
  case (Cons a as)
  have *: "last (p # a # as) = last (a # as)" by simp
  have "p \<noteq> last (a # as)" using Cons.prems(2) last_in_set [of "a # as"] by auto
  then have "nxt h' p i = Inr (Some a)" using Cons.prems(1,3) by simp
  moreover have "linked h' i a (as @ bs)"
    using Cons.prems unfolding * by (intro Cons.IH) auto
  ultimately show ?case by simp
qed

subsection \<open>Deleting a node\<close>

definition free :: "nat \<Rightarrow> ('k, 'v) nodes \<Rightarrow> ('k, 'v) nodes" where
  "free a h = h(a := None)"

lemma free_apply [simp]: "free a h a = None" "b \<noteq> a \<Longrightarrow> free a h b = h b"
  by (simp_all add: free_def)

lemma dom_free [simp]: "dom (free a h) = dom h - {a}"
  by (simp add: free_def)

lemma nxt_free [simp]: "b \<noteq> a \<Longrightarrow> nxt (free a h) b i = nxt h b i"
  by (simp add: nxt_def node_at_def)

lemma linked_free: "linked h i p as \<Longrightarrow> a \<notin> insert p (set as) \<Longrightarrow> linked (free a h) i p as"
  by (erule linked_cong) (metis nxt_free)

lemma of_free [simp]:
  assumes "b \<noteq> a"
  shows "key_of (free a h) b = key_of h b" "val_of (free a h) b = val_of h b"
    "level_of (free a h) b = level_of h b" "size_of (free a h) b = size_of h b"
  using assms by (simp_all add: key_of_def val_of_def level_of_def size_of_def)

lemma on_level_free [simp]: "a \<notin> set as \<Longrightarrow> on_level (free a h) i as = on_level h i as"
  unfolding on_level_def by (rule filter_cong) (metis of_free(3))+

text \<open>Walking into a node that was deleted but is still linked.\<close>

lemma advance_freed:
  assumes "linked h i c (cs @ a # bs)" "a \<notin> set (c # cs)" "\<forall>b \<in> set cs. key_of h b < k"
  shows "advance (free a h) k i c = Some (Inl UseAfterFree)"
  using assms
proof (induction cs arbitrary: c)
  case Nil
  then show ?case by (subst advance.simps) simp
next
  case (Cons b cs)
  with linked_dom [OF Cons.prems(1)] obtain nd where "h b = Some nd" by auto
  with Cons show ?case by (subst advance.simps) (simp add: key_of_def)
qed

lemma descend_freed:
  assumes "\<forall>i < n. linked h i p (on_level h i (as @ a # bs))" "0 < level_of h a" "0 < n"
    and "\<forall>b \<in> set as. key_of h b < k" "\<forall>b \<in> set bs. \<not> key_of h b < k" "distinct (p # as @ a # bs)"
    and "c = p \<or> c \<in> set (on_level h (n - 1) as)" "n \<le> length upd"
  shows "descend (free a h) k n c upd = Some (Inl UseAfterFree)"
  using assms(1,3,7,8)
proof (induction n arbitrary: c upd)
  case (Suc i)
  have on: "c \<in> set (p # on_level h i as)" using Suc.prems(3) by simp
  show ?case
  proof (cases "i < level_of h a")
    case True
    then have "linked h i p (on_level h i as @ a # on_level h i bs)" using Suc.prems(1) by simp
    from linked_from [OF this on] obtain cs where cs: "linked h i c (cs @ a # on_level h i bs)"
      "set cs \<subseteq> set (on_level h i as)" by blast
    have "advance (free a h) k i c = Some (Inl UseAfterFree)"
      using assms(4,6) cs(2) on by (intro advance_freed [OF cs(1)]) (auto simp: set_on_level)
    then show ?thesis by simp
  next
    case False
    let ?c1 = "last (p # on_level h i as)"
    have "linked h i p (on_level h i as @ on_level h i bs)"
      using Suc.prems(1) [rule_format, of i] False by simp
    then have "linked (free a h) i p (on_level h i as @ on_level h i bs)"
      using assms(6) by (intro linked_free) (auto simp: set_on_level)
    from linked_from [OF this on] obtain cs where cs: "linked (free a h) i c (cs @ on_level h i bs)"
      "last (c # cs) = ?c1" "set cs \<subseteq> set (on_level h i as)" by blast
    have "a \<notin> set cs" "a \<notin> set (on_level h i bs)" using assms(6) cs(3) by (auto simp: set_on_level)
    then have "\<forall>b \<in> set cs. key_of (free a h) b < k"
      "\<forall>b \<in> set (on_level h i bs). \<not> key_of (free a h) b < k"
      using assms(4,5) cs(3) by (metis of_free(1) set_on_level mem_Collect_eq subsetD)+
    from advance_linked [OF cs(1) this] have "advance (free a h) k i c = Some (Inr ?c1)"
      unfolding cs(2) .
    moreover have "?c1 = p \<or> ?c1 \<in> set (on_level h (i - 1) as)"
      using last_in_set [of "p # on_level h i as"] by (auto simp: set_on_level split: if_splits)
    moreover have "0 < i" using False assms(2) by simp
    ultimately show ?thesis using Suc.IH [of ?c1 "upd[i := Some ?c1]"] Suc.prems(1,4) by simp
  qed
qed simp

end
