(* ===== verification/SkipList.thy ===== *)
theory SkipList
  imports SkipNodes
begin

text \<open>
  The class \<open>SkipList\<close> of \<open>ds/kv_skiplist.h\<close>, a key-value store, over the nodes of
  \<open>SkipNodes\<close>. Every operation runs under the lock of the object, so it is a function of the
  state. The results of the calls of \<open>rand\<close> are an argument. Log and console messages of
  \<open>insert\<close> and \<open>erase\<close> are left out, the output of \<open>display\<close> is its result.
\<close>

subsection \<open>State\<close>

record ('k, 'v) skiplist =
  s_maxLevel :: nat
  s_curLevel :: nat
  s_head :: nat
  s_counts :: int
  s_heap :: "('k, 'v) nodes"
  s_brk :: nat

text \<open>The key and the value of the head node are not initialised; \<open>k0\<close> and \<open>v0\<close> stand for them.\<close>

definition SkipList_new :: "'k \<Rightarrow> 'v \<Rightarrow> nat \<Rightarrow> ('k, 'v) skiplist" where
  "SkipList_new k0 v0 maxLevel =
     \<lparr>s_maxLevel = maxLevel, s_curLevel = 0, s_head = 0, s_counts = 0,
      s_heap = [0 \<mapsto> createNode k0 v0 maxLevel], s_brk = 1\<rparr>"

definition SkipList_destroy :: "('k, 'v) skiplist \<Rightarrow> ('k, 'v) skiplist" where
  "SkipList_destroy s = s\<lparr>s_heap := free (s_head s) (s_heap s)\<rparr>"

subsection \<open>Operations\<close>

text \<open>The first lines of \<open>findPre\<close>, \<open>insert\<close> and \<open>erase\<close>.\<close>

definition search :: "'k :: linorder \<Rightarrow> ('k, 'v) skiplist \<Rightarrow> (nat \<times> nat option list) res option" where
  "search k s =
     descend (s_heap s) k (s_curLevel s + 1) (s_head s) (replicate (s_maxLevel s + 1) None)"

definition findPre :: "'k :: linorder \<Rightarrow> ('k, 'v) skiplist \<Rightarrow> nat res option" where
  "findPre k s = bindO (search k s) (\<lambda>(c, upd). Some (Inr c))"

text \<open>\<open>current && current->GetKey() == key\<close>\<close>

definition has_key :: "('k, 'v) nodes \<Rightarrow> nat option \<Rightarrow> 'k \<Rightarrow> bool res" where
  "has_key h p k =
     (case p of None \<Rightarrow> Inr False | Some _ \<Rightarrow> bindR (node_at h p) (\<lambda>nd. Inr (n_key nd = k)))"

definition SkipList_find :: "'k :: linorder \<Rightarrow> ('k, 'v) skiplist \<Rightarrow> nat option res option" where
  "SkipList_find k s =
     bindO (findPre k s) (\<lambda>c.
     bindO (Some (nxt (s_heap s) c 0)) (\<lambda>p.
     bindO (Some (has_key (s_heap s) p k)) (\<lambda>b. Some (Inr (if b then p else None)))))"

text \<open>\<open>None\<close>: the given results of \<open>rand\<close> are all odd and the loop goes on.\<close>

fun random_k :: "nat \<Rightarrow> nat list \<Rightarrow> nat option" where
  "random_k k [] = None"
| "random_k k (r # rs) = (if r mod 2 \<noteq> 0 then random_k (k + 1) rs else Some k)"

definition getRandomLevel :: "nat \<Rightarrow> nat list \<Rightarrow> nat option" where
  "getRandomLevel maxLevel rs =
     (case random_k 1 rs of None \<Rightarrow> None | Some k \<Rightarrow> Some (if k < maxLevel then k else maxLevel))"

text \<open>One round of the loop that links the new node \<open>np\<close>.\<close>

definition link_level :: "nat \<Rightarrow> nat option list \<Rightarrow> nat \<Rightarrow> ('k, 'v) nodes \<Rightarrow> ('k, 'v) nodes res" where
  "link_level np upd i h =
     (case upd ! i of None \<Rightarrow> Inl NullDeref
      | Some p \<Rightarrow> bindR (nxt h p i) (\<lambda>q. bindR (set_nxt np i q h) (set_nxt p i (Some np))))"

definition SkipList_insert ::
  "nat list \<Rightarrow> 'k :: linorder \<Rightarrow> 'v \<Rightarrow> ('k, 'v) skiplist \<Rightarrow> (int \<times> ('k, 'v) skiplist) res option" where
  "SkipList_insert rs k v s =
     bindO (search k s) (\<lambda>(c, upd).
     bindO (Some (nxt (s_heap s) c 0)) (\<lambda>p.
     bindO (Some (has_key (s_heap s) p k)) (\<lambda>b.
     if b then Some (Inr (1, s))
     else case getRandomLevel (s_maxLevel s) rs of None \<Rightarrow> None | Some lvl \<Rightarrow>
       let upd' = (if lvl > s_curLevel s
                   then fold (\<lambda>i u. u[i := Some (s_head s)]) [s_curLevel s + 1..<lvl] upd else upd);
           s' = (if lvl > s_curLevel s then s\<lparr>s_curLevel := lvl\<rparr> else s);
           np = s_brk s in
       bindO (Some (foldR (link_level np upd') [0..<lvl] ((s_heap s)(np \<mapsto> createNode k v lvl)))) (\<lambda>h.
       Some (Inr (0, s'\<lparr>s_heap := h, s_brk := np + 1, s_counts := s_counts s + 1\<rparr>))))))"

text \<open>The loop of \<open>erase\<close> over the levels: it stops where the node is not the next one.\<close>

fun unlink :: "nat option list \<Rightarrow> nat \<Rightarrow> nat list \<Rightarrow> ('k, 'v) nodes \<Rightarrow> ('k, 'v) nodes res" where
  "unlink upd a [] h = Inr h"
| "unlink upd a (i # is) h =
     (case upd ! i of None \<Rightarrow> Inl NullDeref
      | Some p \<Rightarrow> bindR (nxt h p i) (\<lambda>q.
          if q \<noteq> Some a then Inr h
          else bindR (nxt h a i) (\<lambda>r. bindR (set_nxt p i r h) (unlink upd a is))))"

primrec lower :: "('k, 'v) nodes \<Rightarrow> nat \<Rightarrow> nat \<Rightarrow> nat res" where
  "lower h hp 0 = Inr 0"
| "lower h hp (Suc c) =
     bindR (nxt h hp (Suc c)) (\<lambda>q. case q of None \<Rightarrow> lower h hp c | Some _ \<Rightarrow> Inr (Suc c))"

definition delete :: "nat option \<Rightarrow> ('k, 'v) nodes \<Rightarrow> ('k, 'v) nodes res" where
  "delete p h =
     (case p of None \<Rightarrow> Inr h | Some a \<Rightarrow> if h a = None then Inl UseAfterFree else Inr (free a h))"

definition SkipList_erase :: "'k :: linorder \<Rightarrow> ('k, 'v) skiplist \<Rightarrow> ('k, 'v) skiplist res option" where
  "SkipList_erase k s =
     bindO (search k s) (\<lambda>(c, upd).
     bindO (Some (nxt (s_heap s) c 0)) (\<lambda>p.
     bindO (Some (has_key (s_heap s) p k)) (\<lambda>b.
     bindO (Some (if b then unlink upd (the p) [0..<s_curLevel s] (s_heap s) else Inr (s_heap s))) (\<lambda>h.
     bindO (Some (lower h (s_head s) (s_curLevel s))) (\<lambda>cl.
     bindO (Some (delete p h)) (\<lambda>h'.
     Some (Inr (s\<lparr>s_curLevel := cl, s_heap := h', s_counts := s_counts s - 1\<rparr>))))))))"

text \<open>The loop of \<open>display\<close> over one level, and its output; \<open>sk\<close> and \<open>sv\<close> print a key and a value.\<close>

partial_function (option) display_level ::
  "('k \<Rightarrow> string) \<Rightarrow> ('v \<Rightarrow> string) \<Rightarrow> ('k, 'v) nodes \<Rightarrow> nat \<Rightarrow> nat option \<Rightarrow> bool \<Rightarrow> string \<Rightarrow> string res option"
  where
  "display_level sk sv h i cur first out =
     (case cur of None \<Rightarrow> Some (Inr (out @ [CHR 0x0A]))
      | Some a \<Rightarrow> (case node_at h cur of Inl e \<Rightarrow> Some (Inl e) | Inr nd \<Rightarrow> (case nxt h a i of Inl e \<Rightarrow> Some (Inl e)
        | Inr q \<Rightarrow> display_level sk sv h i q False
            (out @ (if first then [] else [CHR 0x09]) @
             ''(key: '' @ sk (n_key nd) @ '', val: '' @ sv (n_val nd) @ '')''))))"

primrec display_levels ::
  "('k \<Rightarrow> string) \<Rightarrow> ('v \<Rightarrow> string) \<Rightarrow> ('k, 'v) nodes \<Rightarrow> nat \<Rightarrow> nat \<Rightarrow> string \<Rightarrow> string res option"
  where
  "display_levels sk sv h hp 0 out = Some (Inr out)"
| "display_levels sk sv h hp (Suc i) out =
     bindO (Some (nxt h hp i)) (\<lambda>p.
     bindO (display_level sk sv h i p True out) (display_levels sk sv h hp i))"

definition SkipList_display ::
  "('k \<Rightarrow> string) \<Rightarrow> ('v \<Rightarrow> string) \<Rightarrow> ('k, 'v) skiplist \<Rightarrow> string res option" where
  "SkipList_display sk sv s =
     display_levels sk sv (s_heap s) (s_head s) (s_curLevel s + 1)
       ([CHR 0x0A] @ ''****** Skip List *******'' @ [CHR 0x0A])"

subsection \<open>Well-formed skip lists\<close>

text \<open>
  \<open>skl_inv s as\<close>: the nodes \<open>as\<close> are in strict order of their keys and, with the head, are
  all there is in the heap; level \<open>i\<close> links those of them whose level is above \<open>i\<close>, so the
  pointer at the level of a node itself is not used; the search starts at \<open>_curLevel\<close>, which
  is high enough to see every level that is not empty.
\<close>

definition skl_inv :: "('k :: linorder, 'v) skiplist \<Rightarrow> nat list \<Rightarrow> bool" where
  "skl_inv s as \<longleftrightarrow>
     1 \<le> s_maxLevel s \<and> s_curLevel s \<le> s_maxLevel s \<and>
     distinct (s_head s # as) \<and> dom (s_heap s) = insert (s_head s) (set as) \<and>
     (\<forall>a \<in> dom (s_heap s). a < s_brk s) \<and>
     size_of (s_heap s) (s_head s) = s_maxLevel s + 1 \<and>
     (\<forall>a \<in> set as. 1 \<le> level_of (s_heap s) a \<and> level_of (s_heap s) a \<le> s_maxLevel s \<and>
        level_of (s_heap s) a \<le> s_curLevel s + 1 \<and>
        size_of (s_heap s) a = level_of (s_heap s) a + 1) \<and>
     sorted_wrt (<) (map (key_of (s_heap s)) as) \<and>
     (\<forall>i \<le> s_maxLevel s. linked (s_heap s) i (s_head s) (on_level (s_heap s) i as)) \<and>
     s_counts s = int (length as)"

definition contents :: "('k, 'v) skiplist \<Rightarrow> nat list \<Rightarrow> 'k \<rightharpoonup> 'v" where
  "contents s as = map_of (map (\<lambda>a. (key_of (s_heap s) a, val_of (s_heap s) a)) as)"

lemma skl_invD:
  assumes "skl_inv s as"
  shows "1 \<le> s_maxLevel s" "s_curLevel s \<le> s_maxLevel s" "distinct (s_head s # as)"
    "dom (s_heap s) = insert (s_head s) (set as)" "\<And>a. a \<in> dom (s_heap s) \<Longrightarrow> a < s_brk s"
    "size_of (s_heap s) (s_head s) = s_maxLevel s + 1"
    "\<And>a. a \<in> set as \<Longrightarrow> 1 \<le> level_of (s_heap s) a"
    "\<And>a. a \<in> set as \<Longrightarrow> level_of (s_heap s) a \<le> s_maxLevel s"
    "\<And>a. a \<in> set as \<Longrightarrow> level_of (s_heap s) a \<le> s_curLevel s + 1"
    "\<And>a. a \<in> set as \<Longrightarrow> size_of (s_heap s) a = level_of (s_heap s) a + 1"
    "sorted_wrt (<) (map (key_of (s_heap s)) as)"
    "\<And>i. i \<le> s_maxLevel s \<Longrightarrow> linked (s_heap s) i (s_head s) (on_level (s_heap s) i as)"
    "s_counts s = int (length as)"
  using assms by (simp_all add: skl_inv_def)

lemma skl_inv_new: "1 \<le> m \<Longrightarrow> skl_inv (SkipList_new k0 v0 m) []"
  by (simp add: skl_inv_def SkipList_new_def createNode_def size_of_def nxt_def nth_Cons split: nat.split)

lemma contents_new [simp]: "contents s [] = Map.empty"
  by (simp add: contents_def)

text \<open>Where a key is, or would be, among the nodes.\<close>

lemma split_at_key:
  assumes "sorted_wrt (<) (map f as)"
  obtains bs cs where "as = bs @ cs" "\<forall>b \<in> set bs. f b < k" "\<forall>c \<in> set cs. \<not> f c < (k :: 'k :: linorder)"
proof
  show "as = takeWhile (\<lambda>a. f a < k) as @ dropWhile (\<lambda>a. f a < k) as" by simp
  show "\<forall>b \<in> set (takeWhile (\<lambda>a. f a < k) as). f b < k" by (auto dest: set_takeWhileD)
  show "\<forall>c \<in> set (dropWhile (\<lambda>a. f a < k) as). \<not> f c < k"
    using assms
  proof (induction as)
    case (Cons a as)
    have less: "\<forall>c \<in> set as. f a < f c" and sorted: "sorted_wrt (<) (map f as)"
      using Cons.prems by simp_all
    show ?case
    proof (cases "f a < k")
      case True
      with Cons.IH [OF sorted] show ?thesis by (simp only: dropWhile.simps if_True)
    next
      case False
      then have "\<not> f c < k" if "c \<in> set as" for c
        using bspec [OF less that] by (meson order_less_trans)
      with False show ?thesis by simp
    qed
  qed simp
qed

lemma sorted_keys_after:
  assumes "sorted_wrt (<) (map f (bs @ c # cs))"
  shows "\<forall>d \<in> set cs. f c < f d" "\<forall>b \<in> set bs. f b < (f c :: 'k :: linorder)"
  using assms by (auto simp: sorted_wrt_append)

text \<open>What the key of the first node at or after the place tells.\<close>

definition here :: "('k, 'v) nodes \<Rightarrow> 'k \<Rightarrow> nat list \<Rightarrow> bool" where
  "here h k cs = (case cs of [] \<Rightarrow> False | c # _ \<Rightarrow> key_of h c = k)"

lemma contents_split:
  assumes "skl_inv s (bs @ cs)" "\<forall>b \<in> set bs. key_of (s_heap s) b < k"
    "\<forall>c \<in> set cs. \<not> key_of (s_heap s) c < k"
  shows "contents s (bs @ cs) k =
    (if here (s_heap s) k cs then Some (val_of (s_heap s) (hd cs)) else None)"
proof -
  have bs: "map_of (map (\<lambda>a. (key_of (s_heap s) a, val_of (s_heap s) a)) bs) k = None"
    using assms(2) by (auto simp: map_of_eq_None_iff)
  show ?thesis
  proof (cases cs)
    case Nil
    with bs show ?thesis by (simp add: contents_def here_def)
  next
    case (Cons c cs')
    have "\<forall>d \<in> set cs'. key_of (s_heap s) c < key_of (s_heap s) d"
      using skl_invD(11) [OF assms(1)] Cons by (auto simp: sorted_wrt_append)
    then have "map_of (map (\<lambda>a. (key_of (s_heap s) a, val_of (s_heap s) a)) cs') k = None"
      if "key_of (s_heap s) c \<noteq> k"
      using that assms(3) Cons by (force simp: map_of_eq_None_iff)
    with bs Cons show ?thesis by (simp add: contents_def here_def map_add_def)
  qed
qed

subsection \<open>Search\<close>

lemma search_split:
  assumes "skl_inv s (bs @ cs)" "\<forall>b \<in> set bs. key_of (s_heap s) b < k"
    "\<forall>c \<in> set cs. \<not> key_of (s_heap s) c < k"
  shows "search k s = Some (Inr (last (s_head s # bs),
    map (\<lambda>i. Some (last (s_head s # on_level (s_heap s) i bs))) [0..<s_curLevel s + 1] @
    replicate (s_maxLevel s - s_curLevel s) None))"
proof -
  note inv = skl_invD [OF assms(1)]
  have "\<forall>i < s_curLevel s + 1. linked (s_heap s) i (s_head s) (on_level (s_heap s) i (bs @ cs))"
    using inv(2,12) by auto
  from descend_linked [OF this assms(2,3), where upd = "replicate (s_maxLevel s + 1) None" and c = "s_head s"]
  have *: "search k s = Some (Inr (last (s_head s # on_level (s_heap s) 0 bs),
    map (\<lambda>i. Some (last (s_head s # on_level (s_heap s) i bs))) [0..<s_curLevel s + 1] @
    drop (s_curLevel s + 1) (replicate (s_maxLevel s + 1) None)))"
    using inv(2) unfolding search_def by (simp del: upt_Suc replicate_Suc)
  have "on_level (s_heap s) 0 bs = bs"
    by (rule on_level_all) (use inv(7) in \<open>auto simp: Suc_le_eq\<close>)
  with * show ?thesis by (simp del: upt_Suc replicate_Suc)
qed

lemma next_split:
  assumes "skl_inv s (bs @ cs)"
  shows "nxt (s_heap s) (last (s_head s # bs)) 0 = Inr (case cs of [] \<Rightarrow> None | c # _ \<Rightarrow> Some c)"
    "has_key (s_heap s) (case cs of [] \<Rightarrow> None | c # _ \<Rightarrow> Some c) k = Inr (here (s_heap s) k cs)"
proof -
  note inv = skl_invD [OF assms]
  have "on_level (s_heap s) 0 (bs @ cs) = bs @ cs"
    by (rule on_level_all) (use inv(7) in \<open>auto simp: Suc_le_eq\<close>)
  with inv(12) [of 0] have l: "linked (s_heap s) 0 (s_head s) (bs @ cs)" by simp
  from linked_append [OF this] show
    "nxt (s_heap s) (last (s_head s # bs)) 0 = Inr (case cs of [] \<Rightarrow> None | c # _ \<Rightarrow> Some c)"
    by (cases cs) simp_all
  have "set cs \<subseteq> dom (s_heap s)" using linked_dom [OF l] by simp
  then show "has_key (s_heap s) (case cs of [] \<Rightarrow> None | c # _ \<Rightarrow> Some c) k = Inr (here (s_heap s) k cs)"
    by (cases cs) (auto simp: has_key_def here_def key_of_def)
qed

lemma find_split:
  assumes "skl_inv s (bs @ cs)" "\<forall>b \<in> set bs. key_of (s_heap s) b < k"
    "\<forall>c \<in> set cs. \<not> key_of (s_heap s) c < k"
  shows "SkipList_find k s = Some (Inr (if here (s_heap s) k cs then Some (hd cs) else None))"
  unfolding SkipList_find_def findPre_def search_split [OF assms]
  using next_split [OF assms(1)] by (cases cs) (simp_all add: here_def)

text \<open>\<open>find\<close> yields a node of the list with the key, if there is one.\<close>

lemma find_contents:
  assumes "skl_inv s as"
  shows "\<exists>p. SkipList_find k s = Some (Inr p) \<and>
    (case p of None \<Rightarrow> contents s as k = None
     | Some a \<Rightarrow> a \<in> set as \<and> key_of (s_heap s) a = k \<and> contents s as k = Some (val_of (s_heap s) a))"
proof -
  obtain bs cs where split: "as = bs @ cs" "\<forall>b \<in> set bs. key_of (s_heap s) b < k"
    "\<forall>c \<in> set cs. \<not> key_of (s_heap s) c < k"
    using split_at_key [OF skl_invD(11) [OF assms]] by blast
  then show ?thesis
    using find_split [OF assms [unfolded split(1)] split(2,3)]
      contents_split [OF assms [unfolded split(1)] split(2,3)]
    by (cases cs) (auto simp: here_def)
qed

subsection \<open>Insertion\<close>

lemma fold_head:
  "i < length u \<Longrightarrow>
   fold (\<lambda>i u. u[i := q]) [m..<n] u ! i = (if m \<le> i \<and> i < n then q else u ! i)"
proof (induction n)
  case (Suc n)
  have "length (fold (\<lambda>i u. u[i := q]) [m..<n] u) = length u"
    by (induction n) auto
  with Suc show ?case by (auto simp: nth_list_update less_Suc_eq)
qed simp

lemma nxt_new:
  assumes "np \<notin> dom h"
  shows "b \<noteq> np \<Longrightarrow> nxt (h(np \<mapsto> nd)) b i = nxt h b i"
  using assms by (simp add: nxt_def node_at_def)

text \<open>Linking the new node on the levels below its own.\<close>

lemma link_levels:
  assumes "\<forall>i < n. upd ! i = Some (last (p # L i))" "\<forall>i < n. linked h i p (L i @ R i)"
    and "\<forall>i < n. distinct (p # L i @ R i) \<and> np \<notin> set (p # L i @ R i)"
    and "np \<in> dom h" "n \<le> size_of h np"
  shows "\<exists>h'. foldR (link_level np upd) [0..<n] h = Inr h' \<and> info h' = info h \<and>
    (\<forall>i < n. linked h' i p (L i @ np # R i)) \<and> (\<forall>i \<ge> n. \<forall>b. nxt h' b i = nxt h b i)"
  using assms
proof (induction n)
  case (Suc n)
  then obtain h1 where h1: "foldR (link_level np upd) [0..<n] h = Inr h1" "info h1 = info h"
    "\<forall>i < n. linked h1 i p (L i @ np # R i)" "\<forall>i \<ge> n. \<forall>b. nxt h1 b i = nxt h b i"
    by auto
  let ?q = "last (p # L n)"
  have lh: "linked h n p (L n @ R n)" using Suc.prems(2) by simp
  have "linked h n ?q (R n)" by (rule linked_append [OF lh])
  then obtain r where r: "nxt h ?q n = Inr r" by (cases "R n") auto
  have dom1: "dom h1 = dom h" by (rule info_eq_dom [OF h1(2)])
  have nq: "np \<noteq> ?q" using Suc.prems(3) last_in_set [of "p # L n"] by auto
  have "n < size_of h1 np" using info_eq_at(4) [OF h1(2) Suc.prems(4)] Suc.prems(5) by simp
  with set_nxt_at [of np h1 n r] dom1 Suc.prems(4) obtain h2 where h2: "set_nxt np n r h1 = Inr h2"
    "info h2 = info h1" "\<forall>b j. nxt h2 b j = (if b = np \<and> j = n then Inr r else nxt h1 b j)" by auto
  have "nxt h2 ?q n = Inr r" using h2(3) h1(4) r nq by simp
  then have "?q \<in> dom h2" "n < size_of h2 ?q"
    by (auto dest: nxt_Inr_dom) (auto simp: nxt_def node_at_def size_of_def split: option.splits if_splits)
  with set_nxt_at [of ?q h2 n "Some np"] obtain h3 where h3: "set_nxt ?q n (Some np) h2 = Inr h3"
    "info h3 = info h2" "\<forall>b j. nxt h3 b j = (if b = ?q \<and> j = n then Inr (Some np) else nxt h2 b j)" by auto
  have link: "link_level np upd n h1 = Inr h3"
    using Suc.prems(1) h1(4) r h2(1) h3(1) by (simp add: link_level_def)
  have "linked h3 n p (L n @ np # R n)"
  proof (rule linked_insert [OF lh])
    show "\<forall>b \<in> set (p # L n @ R n) - {?q}. nxt h3 b n = nxt h b n"
    proof
      fix b assume "b \<in> set (p # L n @ R n) - {?q}"
      with Suc.prems(3) have "b \<noteq> ?q" "b \<noteq> np" by auto
      with h3(3) h2(3) h1(4) show "nxt h3 b n = nxt h b n" by simp
    qed
  qed (use Suc.prems(3) [rule_format, of n] h3(3) h2(3) r nq in simp_all)
  moreover have "linked h3 i p (L i @ np # R i)" if "i < n" for i
    by (rule linked_cong [OF h1(3) [rule_format, OF that]]) (use h3(3) h2(3) that in simp)
  ultimately have "\<forall>i < Suc n. linked h3 i p (L i @ np # R i)" by (simp add: less_Suc_eq)
  moreover have "\<forall>i \<ge> Suc n. \<forall>b. nxt h3 b i = nxt h b i" using h3(3) h2(3) h1(4) by simp
  moreover have "foldR (link_level np upd) [0..<Suc n] h = Inr h3"
    using h1(1) link by (simp add: foldR_append)
  moreover have "info h3 = info h" using h1(2) h2(2) h3(2) by simp
  ultimately show ?case by blast
qed simp

lemma getRandomLevel_bounds:
  "getRandomLevel m rs = Some l \<Longrightarrow> 1 \<le> m \<Longrightarrow> 1 \<le> l \<and> l \<le> m"
proof -
  have "random_k k rs = Some l \<Longrightarrow> k \<le> l" for k l
    by (induction k rs rule: random_k.induct) (auto split: if_splits)
  then show "getRandomLevel m rs = Some l \<Longrightarrow> 1 \<le> m \<Longrightarrow> 1 \<le> l \<and> l \<le> m"
    by (fastforce simp: getRandomLevel_def split: option.splits if_splits)
qed

lemma getRandomLevel_returns: "\<exists>r \<in> set rs. even r \<Longrightarrow> \<exists>l. getRandomLevel m rs = Some l"
proof -
  have "\<exists>r \<in> set rs. even r \<Longrightarrow> \<exists>l. random_k k rs = Some l" for k
    by (induction k rs rule: random_k.induct) (auto simp: odd_iff_mod_2_eq_one)
  then show "\<exists>r \<in> set rs. even r \<Longrightarrow> \<exists>l. getRandomLevel m rs = Some l"
    by (metis getRandomLevel_def option.simps(5))
qed

lemma insert_present:
  assumes "skl_inv s as" "contents s as k \<noteq> None"
  shows "SkipList_insert rs k v s = Some (Inr (1, s))"
proof -
  obtain bs cs where split: "as = bs @ cs" "\<forall>b \<in> set bs. key_of (s_heap s) b < k"
    "\<forall>c \<in> set cs. \<not> key_of (s_heap s) c < k"
    using split_at_key [OF skl_invD(11) [OF assms(1)]] by blast
  note inv = assms(1) [unfolded split(1)]
  have "here (s_heap s) k cs"
    using contents_split [OF inv split(2,3)] assms(2) split(1) by (simp split: if_splits)
  then show ?thesis
    unfolding SkipList_insert_def search_split [OF inv split(2,3)]
    by (simp add: next_split [OF inv] del: upt_Suc last.simps)
qed

text \<open>The array \<open>update\<close> of an insertion names the last node before the key on every level used.\<close>

lemma update_array:
  assumes "skl_inv s (bs @ cs)" "lvl \<le> s_maxLevel s" "i < lvl"
  defines "upd \<equiv> map (\<lambda>i. Some (last (s_head s # on_level (s_heap s) i bs))) [0..<s_curLevel s + 1] @
    replicate (s_maxLevel s - s_curLevel s) None"
  shows "(if lvl > s_curLevel s
          then fold (\<lambda>i u. u[i := Some (s_head s)]) [s_curLevel s + 1..<lvl] upd else upd) ! i =
    Some (last (s_head s # on_level (s_heap s) i bs))"
proof -
  note inv = skl_invD [OF assms(1)]
  have len: "length upd = s_maxLevel s + 1" using inv(2) by (simp add: upd_def)
  have low: "upd ! i = Some (last (s_head s # on_level (s_heap s) i bs))" if "i \<le> s_curLevel s"
    using that unfolding upd_def by (simp add: nth_append del: upt_Suc)
  have high: "on_level (s_heap s) i bs = []" if "s_curLevel s < i"
  proof (rule on_level_none, rule)
    fix a assume "a \<in> set bs"
    with inv(9) [of a] that show "level_of (s_heap s) a \<le> i" by simp
  qed
  show ?thesis
  proof (cases "i \<le> s_curLevel s")
    case True
    with low len assms(2,3) show ?thesis by (simp add: fold_head del: upt_Suc)
  next
    case False
    with high len assms(2,3) show ?thesis by (simp add: fold_head del: upt_Suc)
  qed
qed

text \<open>The nodes after an insertion, read off the nodes before it.\<close>

lemma of_new:
  assumes "np \<notin> dom h" "info h' = info (h(np \<mapsto> createNode k v lvl))"
  shows "dom h' = insert np (dom h)" "key_of h' np = k" "val_of h' np = v" "level_of h' np = lvl"
    "size_of h' np = lvl + 1"
    "a \<in> dom h \<Longrightarrow> key_of h' a = key_of h a" "a \<in> dom h \<Longrightarrow> val_of h' a = val_of h a"
    "a \<in> dom h \<Longrightarrow> level_of h' a = level_of h a" "a \<in> dom h \<Longrightarrow> size_of h' a = size_of h a"
proof -
  let ?h = "h(np \<mapsto> createNode k v lvl)"
  have np: "key_of ?h np = k" "val_of ?h np = v" "level_of ?h np = lvl" "size_of ?h np = lvl + 1"
    by (simp_all add: key_of_def val_of_def level_of_def size_of_def createNode_def)
  have old: "key_of ?h a = key_of h a" "val_of ?h a = val_of h a" "level_of ?h a = level_of h a"
    "size_of ?h a = size_of h a" if "a \<in> dom h" for a
  proof -
    have "a \<noteq> np" using that assms(1) by blast
    then show "key_of ?h a = key_of h a" "val_of ?h a = val_of h a" "level_of ?h a = level_of h a"
      "size_of ?h a = size_of h a"
      by (simp_all add: key_of_def val_of_def level_of_def size_of_def)
  qed
  show "dom h' = insert np (dom h)" using info_eq_dom [OF assms(2)] by simp
  show "key_of h' np = k" "val_of h' np = v" "level_of h' np = lvl" "size_of h' np = lvl + 1"
    using info_eq_at [OF assms(2), of np] np by simp_all
  show "key_of h' a = key_of h a" "val_of h' a = val_of h a" "level_of h' a = level_of h a"
    "size_of h' a = size_of h a" if "a \<in> dom h" for a
    using info_eq_at [OF assms(2), of a] old [OF that] that by simp_all
qed

lemma contents_insert:
  assumes "skl_inv s (bs @ cs)" "\<forall>b \<in> set bs. key_of (s_heap s) b < k" "np \<notin> dom (s_heap s)"
    and "info (s_heap s') = info ((s_heap s)(np \<mapsto> createNode k v lvl))"
  shows "contents s' (bs @ np # cs) = (contents s (bs @ cs))(k \<mapsto> v)"
proof -
  let ?f = "\<lambda>s a. (key_of (s_heap s) a, val_of (s_heap s) a)"
  note new = of_new [OF assms(3,4)]
  have "set bs \<union> set cs \<subseteq> dom (s_heap s)" using skl_invD(4) [OF assms(1)] by auto
  then have "?f s' a = ?f s a" if "a \<in> set bs \<union> set cs" for a
    using new(6,7) [of a] that by blast
  then have "map (?f s') bs = map (?f s) bs" "map (?f s') cs = map (?f s) cs"
    by (auto cong: map_cong)
  moreover have "k \<notin> dom (map_of (map (?f s) bs))"
    using assms(2) by (auto simp: dom_map_of_conv_image_fst image_image)
  ultimately show ?thesis
    using new(2,3) by (simp add: contents_def map_add_upd_left del: map_eq_conv)
qed

lemma skl_inv_insert:
  assumes "skl_inv s (bs @ cs)" "\<forall>b \<in> set bs. key_of (s_heap s) b < k"
    "\<forall>c \<in> set cs. k < key_of (s_heap s) c" "1 \<le> lvl" "lvl \<le> s_maxLevel s" "np = s_brk s"
    and h': "info h' = info ((s_heap s)(np \<mapsto> createNode k v lvl))"
      "\<forall>i < lvl. linked h' i (s_head s) (on_level (s_heap s) i bs @ np # on_level (s_heap s) i cs)"
      "\<forall>i \<ge> lvl. \<forall>b. nxt h' b i = nxt ((s_heap s)(np \<mapsto> createNode k v lvl)) b i"
  shows "skl_inv (s\<lparr>s_curLevel := max lvl (s_curLevel s), s_heap := h', s_brk := np + 1,
                   s_counts := s_counts s + 1\<rparr>) (bs @ np # cs)"
proof -
  note inv = skl_invD [OF assms(1)]
  have np: "np \<notin> dom (s_heap s)" using inv(5) [of np] assms(6) by auto
  note new = of_new [OF np h'(1)]
  have sub: "set (bs @ cs) \<subseteq> dom (s_heap s)" using inv(4) by auto
  have lev: "on_level h' i xs = on_level (s_heap s) i xs" if "set xs \<subseteq> dom (s_heap s)" for i xs
  proof -
    have "level_of h' a = level_of (s_heap s) a" if "a \<in> set xs" for a
      using new(8) [of a] subsetD [OF \<open>set xs \<subseteq> dom (s_heap s)\<close> that] by blast
    then show ?thesis by (simp add: on_level_def cong: filter_cong)
  qed
  have keys: "map (key_of h') xs = map (key_of (s_heap s)) xs" if "set xs \<subseteq> dom (s_heap s)" for xs
  proof -
    have "key_of h' a = key_of (s_heap s) a" if "a \<in> set xs" for a
      using new(6) [of a] subsetD [OF \<open>set xs \<subseteq> dom (s_heap s)\<close> that] by blast
    then show ?thesis by simp
  qed
  have linked: "linked h' i (s_head s) (on_level h' i (bs @ np # cs))" if "i \<le> s_maxLevel s" for i
  proof (cases "i < lvl")
    case True
    then show ?thesis using h'(2) lev sub new(4) by simp
  next
    case False
    have "linked h' i (s_head s) (on_level (s_heap s) i (bs @ cs))"
    proof (rule linked_cong [OF inv(12) [OF that]], rule)
      fix a assume "a \<in> insert (s_head s) (set (on_level (s_heap s) i (bs @ cs)))"
      then have "a \<noteq> np" using np inv(4) by (auto simp: set_on_level)
      then show "nxt h' a i = nxt (s_heap s) a i" using False h'(3) nxt_new [OF np] by simp
    qed
    then show ?thesis using False lev sub new(4) by simp
  qed
  have *: "map (key_of h') (bs @ np # cs) = map (key_of (s_heap s)) bs @ k # map (key_of (s_heap s)) cs"
    using keys [of bs] keys [of cs] sub new(2) by (simp del: map_eq_conv)
  have "sorted_wrt (<) (map (key_of h') (bs @ np # cs))"
    unfolding * using inv(11) assms(2,3) by (simp add: sorted_wrt_append)
  moreover have "\<forall>a \<in> set (bs @ np # cs). 1 \<le> level_of h' a \<and> level_of h' a \<le> s_maxLevel s \<and>
      level_of h' a \<le> max lvl (s_curLevel s) + 1 \<and> size_of h' a = level_of h' a + 1"
  proof
    fix a assume "a \<in> set (bs @ np # cs)"
    then consider "a = np" | "a \<in> set (bs @ cs)" by auto
    then show "1 \<le> level_of h' a \<and> level_of h' a \<le> s_maxLevel s \<and>
      level_of h' a \<le> max lvl (s_curLevel s) + 1 \<and> size_of h' a = level_of h' a + 1"
    proof cases
      case 1
      then show ?thesis using new(4,5) assms(4,5) by simp
    next
      case 2
      with sub have "a \<in> dom (s_heap s)" by blast
      with 2 show ?thesis using inv(7-10) [of a] new(8,9) by simp
    qed
  qed
  moreover have "size_of h' (s_head s) = s_maxLevel s + 1" using new(9) inv(4,6) by simp
  moreover have "\<forall>a \<in> dom h'. a < np + 1" using new(1) inv(5) assms(6) by (auto intro: less_SucI)
  moreover have "distinct (s_head s # bs @ np # cs)" using inv(3,4) np by auto
  moreover have "dom h' = insert (s_head s) (set (bs @ np # cs))" using new(1) inv(4) by auto
  ultimately show ?thesis
    unfolding skl_inv_def using inv(1,2,13) assms(5) linked by simp
qed

lemma insert_absent:
  assumes "skl_inv s as" "contents s as k = None" "getRandomLevel (s_maxLevel s) rs = Some lvl"
  shows "\<exists>s' as'. SkipList_insert rs k v s = Some (Inr (0, s')) \<and> skl_inv s' as' \<and>
    contents s' as' = (contents s as)(k \<mapsto> v) \<and>
    ((\<forall>a \<in> set as. level_of (s_heap s) a \<le> s_curLevel s) \<longrightarrow>
     (\<forall>a \<in> set as'. level_of (s_heap s') a \<le> s_curLevel s'))"
proof -
  obtain bs cs where split: "as = bs @ cs" "\<forall>b \<in> set bs. key_of (s_heap s) b < k"
    "\<forall>c \<in> set cs. \<not> key_of (s_heap s) c < k"
    using split_at_key [OF skl_invD(11) [OF assms(1)]] by blast
  note sinv = assms(1) [unfolded split(1)]
  note inv = skl_invD [OF sinv]
  have nh: "\<not> here (s_heap s) k cs"
    using contents_split [OF sinv split(2,3)] assms(2) split(1) by (simp split: if_splits)
  have above: "\<forall>c \<in> set cs. k < key_of (s_heap s) c"
  proof (cases cs)
    case (Cons c cs')
    with inv(11) have "\<forall>d \<in> set cs'. key_of (s_heap s) c < key_of (s_heap s) d"
      by (simp add: sorted_wrt_append)
    moreover have "k < key_of (s_heap s) c" using nh split(3) Cons by (auto simp: here_def)
    ultimately show ?thesis using Cons by (auto intro: order_less_trans)
  qed simp
  have lvl: "1 \<le> lvl" "lvl \<le> s_maxLevel s" using getRandomLevel_bounds [OF assms(3)] inv(1) by auto
  let ?np = "s_brk s"
  let ?h = "(s_heap s)(?np \<mapsto> createNode k v lvl)"
  let ?upd = "map (\<lambda>i. Some (last (s_head s # on_level (s_heap s) i bs))) [0..<s_curLevel s + 1] @
    replicate (s_maxLevel s - s_curLevel s) None"
  let ?upd' = "if lvl > s_curLevel s
    then fold (\<lambda>i u. u[i := Some (s_head s)]) [s_curLevel s + 1..<lvl] ?upd else ?upd"
  have np: "?np \<notin> dom (s_heap s)" using inv(5) [of ?np] by auto
  have "\<exists>h'. foldR (link_level ?np ?upd') [0..<lvl] ?h = Inr h' \<and> info h' = info ?h \<and>
    (\<forall>i < lvl. linked h' i (s_head s) (on_level (s_heap s) i bs @ ?np # on_level (s_heap s) i cs)) \<and>
    (\<forall>i \<ge> lvl. \<forall>b. nxt h' b i = nxt ?h b i)"
  proof (rule link_levels)
    show "\<forall>i < lvl. ?upd' ! i = Some (last (s_head s # on_level (s_heap s) i bs))"
      using update_array [OF sinv lvl(2)] by blast
    show "\<forall>i < lvl. linked ?h i (s_head s) (on_level (s_heap s) i bs @ on_level (s_heap s) i cs)"
    proof (intro allI impI)
      fix i assume "i < lvl"
      with inv(12) [of i] lvl(2) have
        "linked (s_heap s) i (s_head s) (on_level (s_heap s) i bs @ on_level (s_heap s) i cs)" by simp
      then show "linked ?h i (s_head s) (on_level (s_heap s) i bs @ on_level (s_heap s) i cs)"
        by (rule linked_cong, intro ballI nxt_new [OF np])
          (use np inv(4) in \<open>auto simp: set_on_level\<close>)
    qed
    show "\<forall>i < lvl. distinct (s_head s # on_level (s_heap s) i bs @ on_level (s_heap s) i cs) \<and>
      ?np \<notin> set (s_head s # on_level (s_heap s) i bs @ on_level (s_heap s) i cs)"
      using inv(3,4) np by (auto simp: on_level_def)
    show "?np \<in> dom ?h" "lvl \<le> size_of ?h ?np" by (simp_all add: size_of_def createNode_def)
  qed
  then obtain h' where h': "foldR (link_level ?np ?upd') [0..<lvl] ?h = Inr h'" "info h' = info ?h"
    "\<forall>i < lvl. linked h' i (s_head s) (on_level (s_heap s) i bs @ ?np # on_level (s_heap s) i cs)"
    "\<forall>i \<ge> lvl. \<forall>b. nxt h' b i = nxt ?h b i" by blast
  let ?s' = "s\<lparr>s_curLevel := max lvl (s_curLevel s), s_heap := h', s_brk := ?np + 1,
                   s_counts := s_counts s + 1\<rparr>"
  have cur: "(if lvl > s_curLevel s then s\<lparr>s_curLevel := lvl\<rparr> else s) = s\<lparr>s_curLevel := max lvl (s_curLevel s)\<rparr>"
    by (simp add: max_def)
  have run: "SkipList_insert rs k v s = Some (Inr (0, ?s'))"
    unfolding SkipList_insert_def search_split [OF sinv split(2,3)] Let_def cur bindO_simps
      prod.case next_split [OF sinv] assms(3) option.case h'(1) if_not_P [OF nh] by simp
  have "contents ?s' (bs @ ?np # cs) = (contents s as)(k \<mapsto> v)"
    using contents_insert [OF sinv split(2) np, of ?s' v lvl] h'(2) split(1) by simp
  moreover have "skl_inv ?s' (bs @ ?np # cs)"
    using skl_inv_insert [OF sinv split(2) above lvl _ h'(2-4)] by simp
  moreover have "\<forall>a \<in> set (bs @ ?np # cs). level_of h' a \<le> max lvl (s_curLevel s)"
    if "\<forall>a \<in> set as. level_of (s_heap s) a \<le> s_curLevel s"
  proof
    fix a assume "a \<in> set (bs @ ?np # cs)"
    then consider "a = ?np" | "a \<in> set as" "a \<in> dom (s_heap s)" using split(1) inv(4) by auto
    then show "level_of h' a \<le> max lvl (s_curLevel s)"
      using of_new(4,8) [OF np h'(2)] that by cases auto
  qed
  ultimately show ?thesis
    using run by (intro exI [of _ ?s'] exI [of _ "bs @ ?np # cs"]) simp
qed

subsection \<open>Erasure\<close>

lemma nxt_size: "nxt h a i = Inr q \<Longrightarrow> i < size_of h a"
  by (auto simp: nxt_def node_at_def size_of_def split: option.splits if_splits)

text \<open>The loop unlinks the node on the levels from \<open>m\<close> on that are below both its own and \<open>c\<close>.\<close>

lemma unlink_levels:
  assumes "\<forall>i. m \<le> i \<and> i < c \<longrightarrow> upd ! i = Some (last (p # L i)) \<and>
      linked h i p (L i @ (if i < lv then [a] else []) @ R i) \<and> distinct (p # L i @ a # R i)"
  shows "\<exists>h'. unlink upd a [m..<c] h = Inr h' \<and> info h' = info h \<and>
    (\<forall>i. m \<le> i \<and> i < c \<longrightarrow> linked h' i p (L i @ R i)) \<and>
    (\<forall>i. \<not> (m \<le> i \<and> i < c \<and> i < lv) \<longrightarrow> (\<forall>b. nxt h' b i = nxt h b i))"
  using assms
proof (induction "c - m" arbitrary: m h)
  case (Suc n)
  let ?q = "last (p # L m)"
  have mc: "m < c" using Suc.hyps(2) by simp
  with Suc.prems have m: "upd ! m = Some ?q" "linked h m p (L m @ (if m < lv then [a] else []) @ R m)"
    "distinct (p # L m @ a # R m)" by auto
  have from_q: "linked h m ?q ((if m < lv then [a] else []) @ R m)" by (rule linked_append [OF m(2)])
  show ?case
  proof (cases "m < lv")
    case False
    then obtain r where "nxt h ?q m = Inr r" "r \<noteq> Some a"
      using from_q m(3) by (cases "R m") auto
    then have "unlink upd a [m..<c] h = Inr h" using m(1) mc by (simp add: upt_conv_Cons)
    moreover have "linked h i p (L i @ R i)" if "m \<le> i" "i < c" for i
      using Suc.prems [rule_format, of i] that False by simp
    ultimately show ?thesis by blast
  next
    case True
    then have qa: "nxt h ?q m = Inr (Some a)" "linked h m a (R m)" using from_q by simp_all
    then obtain r where r: "nxt h a m = Inr r" by (cases "R m") auto
    from set_nxt_at [OF _ nxt_size [OF qa(1)], of r] nxt_Inr_dom [OF qa(1)] obtain h1 where
      h1: "set_nxt ?q m r h = Inr h1" "info h1 = info h"
      "\<forall>b j. nxt h1 b j = (if b = ?q \<and> j = m then Inr r else nxt h b j)" by blast
    have "\<forall>i. Suc m \<le> i \<and> i < c \<longrightarrow> upd ! i = Some (last (p # L i)) \<and>
      linked h1 i p (L i @ (if i < lv then [a] else []) @ R i) \<and> distinct (p # L i @ a # R i)"
    proof (intro allI impI conjI)
      fix i assume i: "Suc m \<le> i \<and> i < c"
      then have "m \<le> i \<and> i < c" by simp
      note pr = Suc.prems [rule_format, OF this]
      then show "upd ! i = Some (last (p # L i))" "distinct (p # L i @ a # R i)" by blast+
      show "linked h1 i p (L i @ (if i < lv then [a] else []) @ R i)"
        by (rule linked_cong [OF conjunct1 [OF conjunct2 [OF pr]]]) (use h1(3) i in simp)
    qed
    moreover have "n = c - Suc m" using Suc.hyps(2) by simp
    ultimately obtain h' where h': "unlink upd a [Suc m..<c] h1 = Inr h'"
      "info h' = info h1" "\<forall>i. Suc m \<le> i \<and> i < c \<longrightarrow> linked h' i p (L i @ R i)"
      "\<forall>i. \<not> (Suc m \<le> i \<and> i < c \<and> i < lv) \<longrightarrow> (\<forall>b. nxt h' b i = nxt h1 b i)"
      using Suc.hyps(1) by blast
    have "unlink upd a [m..<c] h = Inr h'"
      using m(1) mc qa(1) r h1(1) h'(1) by (simp add: upt_conv_Cons del: last.simps)
    moreover have "linked h' m p (L m @ R m)"
    proof (rule linked_remove [of h m p "L m" a "R m"])
      show "linked h m p (L m @ a # R m)" using m(2) True by simp
      show "\<forall>b \<in> set (p # L m @ R m) - {?q}. nxt h' b m = nxt h b m" using h'(4) h1(3) by simp
      show "nxt h' ?q m = nxt h a m" using h'(4) h1(3) r by simp
    qed (rule m(3))
    then have "linked h' i p (L i @ R i)" if "m \<le> i" "i < c" for i
      using h'(3) that by (cases "i = m") auto
    moreover have "nxt h' b i = nxt h b i" if "\<not> (m \<le> i \<and> i < c \<and> i < lv)" for b i
    proof -
      have "i \<noteq> m" using that mc True by blast
      then show ?thesis using h'(4) h1(3) that by (metis Suc_leD)
    qed
    ultimately show ?thesis using h'(2) h1(2) by (intro exI [of _ h']) auto
  qed
qed auto

lemma lower_to_links:
  assumes "\<forall>i \<le> c. linked h i p (ls i)"
  shows "\<exists>c'. lower h p c = Inr c' \<and> c' \<le> c \<and> (\<forall>i. c' < i \<and> i \<le> c \<longrightarrow> ls i = []) \<and>
    (c' = 0 \<or> ls c' \<noteq> [])"
  using assms
proof (induction c)
  case (Suc c)
  then obtain c' where c': "lower h p c = Inr c'" "c' \<le> c" "\<forall>i. c' < i \<and> i \<le> c \<longrightarrow> ls i = []"
    "c' = 0 \<or> ls c' \<noteq> []" by (metis le_Suc_eq)
  have "linked h (Suc c) p (ls (Suc c))" using Suc.prems by simp
  then show ?case
    using c' by (cases "ls (Suc c)") (auto simp: le_Suc_eq)
qed simp

text \<open>The state of an erasure of a key that is there, before the levels are counted.\<close>

lemma erase_present:
  assumes "skl_inv s (bs @ a # cs)" "k = key_of (s_heap s) a"
  shows "\<exists>h1. info h1 = info (s_heap s) \<and>
    SkipList_erase k s = bindO (Some (lower h1 (s_head s) (s_curLevel s))) (\<lambda>cl.
      Some (Inr (s\<lparr>s_curLevel := cl, s_heap := free a h1, s_counts := s_counts s - 1\<rparr>))) \<and>
    (\<forall>i \<le> s_maxLevel s. i < s_curLevel s \<or> level_of (s_heap s) a \<le> i \<longrightarrow>
      linked h1 i (s_head s) (on_level (s_heap s) i (bs @ cs))) \<and>
    (\<forall>i \<ge> s_curLevel s. \<forall>b. nxt h1 b i = nxt (s_heap s) b i)"
proof -
  note inv = skl_invD [OF assms(1)]
  note keys = sorted_keys_after [OF inv(11)]
  have below: "\<forall>b \<in> set bs. key_of (s_heap s) b < k" "\<forall>c \<in> set (a # cs). \<not> key_of (s_heap s) c < k"
    using keys assms(2) by auto
  let ?L = "\<lambda>i. on_level (s_heap s) i bs" and ?R = "\<lambda>i. on_level (s_heap s) i cs"
  let ?upd = "map (\<lambda>i. Some (last (s_head s # on_level (s_heap s) i bs))) [0..<s_curLevel s + 1] @
    replicate (s_maxLevel s - s_curLevel s) None"
  have "\<forall>i. 0 \<le> i \<and> i < s_curLevel s \<longrightarrow> ?upd ! i = Some (last (s_head s # ?L i)) \<and>
    linked (s_heap s) i (s_head s) (?L i @ (if i < level_of (s_heap s) a then [a] else []) @ ?R i) \<and>
    distinct (s_head s # ?L i @ a # ?R i)"
  proof (intro allI impI conjI)
    fix i assume i: "0 \<le> i \<and> i < s_curLevel s"
    then show "?upd ! i = Some (last (s_head s # ?L i))"
      by (simp add: nth_append del: upt_Suc last.simps)
    show "linked (s_heap s) i (s_head s) (?L i @ (if i < level_of (s_heap s) a then [a] else []) @ ?R i)"
      using inv(12) [of i] inv(2) i by (simp split: if_splits)
    show "distinct (s_head s # ?L i @ a # ?R i)" using inv(3) by (auto simp: on_level_def)
  qed
  from unlink_levels [OF this] obtain h1 where h1: "unlink ?upd a [0..<s_curLevel s] (s_heap s) = Inr h1"
    "info h1 = info (s_heap s)" "\<forall>i. 0 \<le> i \<and> i < s_curLevel s \<longrightarrow> linked h1 i (s_head s) (?L i @ ?R i)"
    "\<forall>i. \<not> (0 \<le> i \<and> i < s_curLevel s \<and> i < level_of (s_heap s) a) \<longrightarrow>
       (\<forall>b. nxt h1 b i = nxt (s_heap s) b i)" by blast
  have "dom h1 = dom (s_heap s)" by (rule info_eq_dom [OF h1(2)])
  then have "h1 a \<noteq> None" using inv(4) by auto
  then have del: "delete (Some a) h1 = Inr (free a h1)" by (simp add: delete_def)
  have here: "here (s_heap s) k (a # cs)" using assms(2) by (simp add: here_def)
  with next_split(2) [OF assms(1), of k] have hk: "has_key (s_heap s) (Some a) k = Inr True" by simp
  have "SkipList_erase k s = bindO (Some (lower h1 (s_head s) (s_curLevel s))) (\<lambda>cl.
      Some (Inr (s\<lparr>s_curLevel := cl, s_heap := free a h1, s_counts := s_counts s - 1\<rparr>)))"
    unfolding SkipList_erase_def search_split [OF assms(1) below] bindO_simps prod.case
      next_split(1) [OF assms(1)] list.case hk if_True option.sel h1(1) del by simp
  moreover have "linked h1 i (s_head s) (on_level (s_heap s) i (bs @ cs))"
    if "i \<le> s_maxLevel s" "i < s_curLevel s \<or> level_of (s_heap s) a \<le> i" for i
  proof (cases "i < s_curLevel s")
    case True
    then show ?thesis using h1(3) by simp
  next
    case False
    with that inv(12) [of i] have "linked (s_heap s) i (s_head s) (on_level (s_heap s) i (bs @ cs))"
      by simp
    then show ?thesis by (rule linked_cong) (use h1(4) False in simp)
  qed
  ultimately show ?thesis using h1(2,4) by (intro exI [of _ h1]) simp
qed

lemma map_of_drop_key:
  "k \<notin> fst ` set (xs @ ys) \<Longrightarrow> (map_of (xs @ (k, v) # ys))(k := None) = map_of (xs @ ys)"
proof -
  assume "k \<notin> fst ` set (xs @ ys)"
  then have "map_of xs k = None" "map_of ys k = None" by (auto simp: map_of_eq_None_iff)
  then show ?thesis by (auto simp: fun_eq_iff map_add_def split: option.splits)
qed

text \<open>The nodes after an erasure that unlinked its node on every level.\<close>

lemma skl_inv_erase:
  assumes "skl_inv s (bs @ a # cs)" "info h1 = info (s_heap s)"
    and "\<forall>i \<le> s_maxLevel s. linked h1 i (s_head s) (on_level (s_heap s) i (bs @ cs))"
    and "cl \<le> s_curLevel s" "\<forall>i. cl < i \<and> i \<le> s_curLevel s \<longrightarrow> on_level (s_heap s) i (bs @ cs) = []"
  defines "s' \<equiv> s\<lparr>s_curLevel := cl, s_heap := free a h1, s_counts := s_counts s - 1\<rparr>"
  shows "skl_inv s' (bs @ cs)"
    "contents s' (bs @ cs) = (contents s (bs @ a # cs))(key_of (s_heap s) a := None)"
proof -
  note inv = skl_invD [OF assms(1)]
  have a: "a \<noteq> s_head s" "a \<notin> set (bs @ cs)" using inv(3) by auto
  have dom: "dom h1 = dom (s_heap s)" by (rule info_eq_dom [OF assms(2)])
  have same: "key_of (free a h1) b = key_of (s_heap s) b" "val_of (free a h1) b = val_of (s_heap s) b"
    "level_of (free a h1) b = level_of (s_heap s) b" "size_of (free a h1) b = size_of (s_heap s) b"
    if "b \<in> insert (s_head s) (set (bs @ cs))" for b
  proof -
    have "b \<noteq> a" "b \<in> dom (s_heap s)" using that a inv(4) by auto
    then show "key_of (free a h1) b = key_of (s_heap s) b" "val_of (free a h1) b = val_of (s_heap s) b"
      "level_of (free a h1) b = level_of (s_heap s) b" "size_of (free a h1) b = size_of (s_heap s) b"
      using info_eq_at [OF assms(2), of b] by simp_all
  qed
  have lev: "on_level (free a h1) i (bs @ cs) = on_level (s_heap s) i (bs @ cs)" for i
    unfolding on_level_def by (rule filter_cong [OF refl]) (use same(3) in simp)
  have keys: "map (key_of (free a h1)) (bs @ cs) = map (key_of (s_heap s)) (bs @ cs)"
    using same(1) by (intro map_cong) simp_all
  have linked: "linked (free a h1) i (s_head s) (on_level (free a h1) i (bs @ cs))"
    if "i \<le> s_maxLevel s" for i
    unfolding lev using assms(3) that a by (intro linked_free) (auto simp: set_on_level)
  have levels: "\<forall>b \<in> set (bs @ cs). 1 \<le> level_of (free a h1) b \<and> level_of (free a h1) b \<le> s_maxLevel s \<and>
      level_of (free a h1) b \<le> cl + 1 \<and> size_of (free a h1) b = level_of (free a h1) b + 1"
  proof
    fix b assume b: "b \<in> set (bs @ cs)"
    have "\<not> (cl + 1 < level_of (s_heap s) b)"
    proof
      assume "cl + 1 < level_of (s_heap s) b"
      moreover have "level_of (s_heap s) b \<le> s_curLevel s + 1" using inv(9) [of b] b by auto
      ultimately have "b \<in> set (on_level (s_heap s) (cl + 1) (bs @ cs))" "cl + 1 \<le> s_curLevel s"
        using b by (auto simp: set_on_level)
      with assms(5) show False by (metis empty_iff empty_set less_add_one)
    qed
    then show "1 \<le> level_of (free a h1) b \<and> level_of (free a h1) b \<le> s_maxLevel s \<and>
      level_of (free a h1) b \<le> cl + 1 \<and> size_of (free a h1) b = level_of (free a h1) b + 1"
      using same [of b] inv(7,8,10) [of b] b by auto
  qed
  have sorted: "sorted_wrt (<) (map (key_of (free a h1)) (bs @ cs))"
    unfolding keys using inv(11) by (auto simp: sorted_wrt_append)
  have size: "size_of (free a h1) (s_head s) = s_maxLevel s + 1" using same(4) inv(6) by simp
  have dom': "dom (free a h1) = insert (s_head s) (set (bs @ cs))" using dom inv(3,4) by auto
  have brk: "\<forall>b \<in> dom (free a h1). b < s_brk s" using dom inv(5) by auto
  have dist: "distinct (s_head s # bs @ cs)" using inv(3) by auto
  show "skl_inv s' (bs @ cs)"
    unfolding skl_inv_def s'_def
    using inv(1,2,13) assms(4) linked levels sorted size dom' brk dist by simp
  let ?f = "\<lambda>b. (key_of (s_heap s) b, val_of (s_heap s) b)"
  have "contents s' (bs @ cs) = map_of (map ?f (bs @ cs))"
    unfolding contents_def s'_def using same(1,2) by (intro arg_cong [of _ _ map_of] map_cong) simp_all
  also have "\<dots> = (map_of (map ?f bs @ ?f a # map ?f cs))(key_of (s_heap s) a := None)"
    using sorted_keys_after [OF inv(11)]
    by (subst map_of_drop_key) (auto simp: image_image)
  finally show "contents s' (bs @ cs) = (contents s (bs @ a # cs))(key_of (s_heap s) a := None)"
    by (simp add: contents_def)
qed

lemma erase_ok:
  assumes "skl_inv s (bs @ a # cs)" "level_of (s_heap s) a \<le> s_curLevel s"
  shows "\<exists>s'. SkipList_erase (key_of (s_heap s) a) s = Some (Inr s') \<and> skl_inv s' (bs @ cs) \<and>
    contents s' (bs @ cs) = (contents s (bs @ a # cs))(key_of (s_heap s) a := None) \<and>
    (bs @ cs \<noteq> [] \<longrightarrow> (\<exists>b \<in> set (bs @ cs). level_of (s_heap s') b = s_curLevel s' + 1))"
proof -
  note inv = skl_invD [OF assms(1)]
  obtain h1 where h1: "info h1 = info (s_heap s)"
    "SkipList_erase (key_of (s_heap s) a) s = bindO (Some (lower h1 (s_head s) (s_curLevel s))) (\<lambda>cl.
      Some (Inr (s\<lparr>s_curLevel := cl, s_heap := free a h1, s_counts := s_counts s - 1\<rparr>)))"
    "\<forall>i \<le> s_maxLevel s. i < s_curLevel s \<or> level_of (s_heap s) a \<le> i \<longrightarrow>
      linked h1 i (s_head s) (on_level (s_heap s) i (bs @ cs))"
    using erase_present [OF assms(1) refl] by blast
  have links: "\<forall>i \<le> s_maxLevel s. linked h1 i (s_head s) (on_level (s_heap s) i (bs @ cs))"
    using h1(3) assms(2) by (meson le_trans not_le)
  then have "\<forall>i \<le> s_curLevel s. linked h1 i (s_head s) (on_level (s_heap s) i (bs @ cs))"
    using inv(2) by simp
  from lower_to_links [OF this] obtain cl where cl: "lower h1 (s_head s) (s_curLevel s) = Inr cl"
    "cl \<le> s_curLevel s" "\<forall>i. cl < i \<and> i \<le> s_curLevel s \<longrightarrow> on_level (s_heap s) i (bs @ cs) = []"
    "cl = 0 \<or> on_level (s_heap s) cl (bs @ cs) \<noteq> []" by blast
  let ?s' = "s\<lparr>s_curLevel := cl, s_heap := free a h1, s_counts := s_counts s - 1\<rparr>"
  note post = skl_inv_erase [OF assms(1) h1(1) links cl(2,3)]
  have "\<exists>b \<in> set (bs @ cs). level_of (s_heap ?s') b = s_curLevel ?s' + 1" if "bs @ cs \<noteq> []"
  proof -
    have "\<exists>b \<in> set (bs @ cs). cl < level_of (s_heap s) b"
    proof (cases "cl = 0")
      case True
      from that obtain b where "b \<in> set (bs @ cs)" by (metis hd_in_set)
      with True inv(7) [of b] show ?thesis by (intro bexI [of _ b]) auto
    next
      case False
      with cl(4) obtain b where "b \<in> set (on_level (s_heap s) cl (bs @ cs))" by (metis hd_in_set)
      then show ?thesis by (auto simp: set_on_level)
    qed
    then obtain b where b: "b \<in> set (bs @ cs)" "cl < level_of (s_heap s) b" by blast
    have ba: "b \<noteq> a" "b \<in> dom (s_heap s)" using b(1) inv(3,4) by auto
    then have "level_of (free a h1) b = level_of (s_heap s) b"
      using info_eq_at(3) [OF h1(1), of b] by simp
    with b skl_invD(9) [OF post(1), of b] show ?thesis by (intro bexI [of _ b]) simp_all
  qed
  with h1(2) cl(1) post show ?thesis by (intro exI [of _ ?s']) simp
qed

text \<open>
  A node one level above \<open>_curLevel\<close> stays linked on its highest level, and the next search
  for its key follows the pointer.
\<close>

lemma erase_dangling:
  assumes "skl_inv s (bs @ a # cs)" "level_of (s_heap s) a = s_curLevel s + 1"
  shows "\<exists>s'. SkipList_erase (key_of (s_heap s) a) s = Some (Inr s') \<and>
    search (key_of (s_heap s) a) s' = Some (Inl UseAfterFree)"
proof -
  note inv = skl_invD [OF assms(1)]
  let ?k = "key_of (s_heap s) a" and ?c = "s_curLevel s"
  obtain h1 where h1: "info h1 = info (s_heap s)"
    "SkipList_erase ?k s = bindO (Some (lower h1 (s_head s) ?c)) (\<lambda>cl.
      Some (Inr (s\<lparr>s_curLevel := cl, s_heap := free a h1, s_counts := s_counts s - 1\<rparr>)))"
    "\<forall>i \<ge> ?c. \<forall>b. nxt h1 b i = nxt (s_heap s) b i"
    using erase_present [OF assms(1) refl] by blast
  have "linked (s_heap s) ?c (s_head s) (on_level (s_heap s) ?c bs @ a # on_level (s_heap s) ?c cs)"
    using inv(12) [of ?c] inv(2) assms(2) by simp
  then have top: "linked h1 ?c (s_head s) (on_level (s_heap s) ?c bs @ a # on_level (s_heap s) ?c cs)"
    by (rule linked_cong) (use h1(3) in simp)
  then obtain q where "nxt h1 (s_head s) ?c = Inr (Some q)"
    by (cases "on_level (s_heap s) ?c bs") auto
  then have low: "lower h1 (s_head s) ?c = Inr ?c" by (cases ?c) simp_all
  have "advance (free a h1) ?k ?c (s_head s) = Some (Inl UseAfterFree)"
  proof (rule advance_freed [OF top])
    show "a \<notin> set (s_head s # on_level (s_heap s) ?c bs)" using inv(3) by (auto simp: on_level_def)
    show "\<forall>b \<in> set (on_level (s_heap s) ?c bs). key_of h1 b < ?k"
    proof
      fix b assume "b \<in> set (on_level (s_heap s) ?c bs)"
      then have "b \<in> set bs" by (simp add: set_on_level)
      moreover from this have "b \<in> dom (s_heap s)" using inv(4) by auto
      ultimately show "key_of h1 b < ?k"
        using info_eq_at(1) [OF h1(1)] sorted_keys_after(2) [OF inv(11)] by simp
    qed
  qed
  then have "search ?k (s\<lparr>s_curLevel := ?c, s_heap := free a h1, s_counts := s_counts s - 1\<rparr>) =
      Some (Inl UseAfterFree)" by (simp add: search_def)
  with h1(2) low show ?thesis by simp
qed

lemma search_fault: "search k s = Some (Inl e) \<Longrightarrow> SkipList_find k s = Some (Inl e)"
  by (simp add: SkipList_find_def findPre_def)

text \<open>Erasing a key that is not there deletes the node after its place.\<close>

lemma erase_missing:
  assumes "skl_inv s (bs @ cs)" "\<forall>b \<in> set bs. key_of (s_heap s) b < k"
    "\<forall>c \<in> set cs. k < key_of (s_heap s) c"
  shows "\<exists>s'. SkipList_erase k s = Some (Inr s') \<and> s_counts s' = s_counts s - 1 \<and>
    (case cs of [] \<Rightarrow> \<forall>k'. SkipList_find k' s' = SkipList_find k' s \<and> s_heap s' = s_heap s
     | c # cs' \<Rightarrow> SkipList_find (key_of (s_heap s) c) s' = Some (Inl UseAfterFree))"
proof -
  note inv = skl_invD [OF assms(1)]
  have above: "\<forall>c \<in> set cs. \<not> key_of (s_heap s) c < k" using assms(3) by auto
  have nh: "\<not> here (s_heap s) k cs" using assms(3) by (cases cs) (auto simp: here_def)
  have "\<forall>i \<le> s_curLevel s. linked (s_heap s) i (s_head s) (on_level (s_heap s) i (bs @ cs))"
    using inv(2,12) by simp
  from lower_to_links [OF this] obtain cl where cl: "lower (s_heap s) (s_head s) (s_curLevel s) = Inr cl"
    "cl \<le> s_curLevel s" "\<forall>i. cl < i \<and> i \<le> s_curLevel s \<longrightarrow> on_level (s_heap s) i (bs @ cs) = []" by blast
  note run = search_split [OF assms(1,2) above] next_split [OF assms(1)] cl(1) nh
  show ?thesis
  proof (cases cs)
    case Nil
    let ?s' = "s\<lparr>s_curLevel := cl, s_counts := s_counts s - 1\<rparr>"
    have er: "SkipList_erase k s = Some (Inr ?s')"
      using run unfolding SkipList_erase_def Nil by (simp add: delete_def del: upt_Suc last.simps)
    have "\<forall>a \<in> set (bs @ cs). level_of (s_heap s) a \<le> cl + 1"
    proof
      fix a assume a: "a \<in> set (bs @ cs)"
      show "level_of (s_heap s) a \<le> cl + 1"
      proof (rule ccontr)
        assume "\<not> level_of (s_heap s) a \<le> cl + 1"
        then have "a \<in> set (on_level (s_heap s) (cl + 1) (bs @ cs))" "cl + 1 \<le> s_curLevel s"
          using a inv(9) [OF a] by (auto simp: set_on_level)
        with cl(3) show False by (metis empty_iff empty_set less_add_one)
      qed
    qed
    then have "skl_inv (?s'\<lparr>s_counts := s_counts s\<rparr>) (bs @ cs)"
      using assms(1) cl(2) by (simp add: skl_inv_def)
    then have "SkipList_find k' ?s' = SkipList_find k' s" for k'
    proof -
      obtain xs ys where split: "bs @ cs = xs @ ys" "\<forall>b \<in> set xs. key_of (s_heap s) b < k'"
        "\<forall>c \<in> set ys. \<not> key_of (s_heap s) c < k'" using split_at_key [OF inv(11)] by blast
      have "SkipList_find k' (?s'\<lparr>s_counts := s_counts s\<rparr>) = SkipList_find k' s"
        using find_split [of s xs ys k'] find_split [of "?s'\<lparr>s_counts := s_counts s\<rparr>" xs ys k'] split
          assms(1) \<open>skl_inv (?s'\<lparr>s_counts := s_counts s\<rparr>) (bs @ cs)\<close> by simp
      then show ?thesis by (simp add: SkipList_find_def findPre_def search_def)
    qed
    then show ?thesis using er Nil by simp
  next
    case (Cons c cs')
    let ?s' = "s\<lparr>s_curLevel := cl, s_heap := free c (s_heap s), s_counts := s_counts s - 1\<rparr>"
    have "s_heap s c \<noteq> None" using inv(4) Cons by auto
    then have er: "SkipList_erase k s = Some (Inr ?s')"
      using run unfolding SkipList_erase_def Cons by (simp add: delete_def del: upt_Suc last.simps)
    have "descend (free c (s_heap s)) (key_of (s_heap s) c) (cl + 1) (s_head s)
        (replicate (s_maxLevel s + 1) None) = Some (Inl UseAfterFree)"
    proof (rule descend_freed [where as = bs and bs = cs'])
      show "\<forall>i < cl + 1. linked (s_heap s) i (s_head s) (on_level (s_heap s) i (bs @ c # cs'))"
        using inv(2,12) cl(2) Cons by auto
      show "0 < level_of (s_heap s) c" using inv(7) [of c] Cons by auto
      show "\<forall>b \<in> set bs. key_of (s_heap s) b < key_of (s_heap s) c"
        "\<forall>b \<in> set cs'. \<not> key_of (s_heap s) b < key_of (s_heap s) c"
        using sorted_keys_after [OF inv(11) [unfolded Cons]] by auto
      show "distinct (s_head s # bs @ c # cs')" using inv(3) Cons by simp
    qed (use inv(2) cl(2) in simp_all)
    then have "search (key_of (s_heap s) c) ?s' = Some (Inl UseAfterFree)" by (simp add: search_def)
    then show ?thesis using er Cons search_fault by simp
  qed
qed

subsection \<open>The interface of a key-value store\<close>

text \<open>
  What a user of a store relies on: \<open>put\<close> adds a key that is not there and reports, without a
  change, a key that is; \<open>get\<close> yields the value. \<open>r\<close> is what a \<open>put\<close> is given besides.
\<close>

locale kv_store =
  fixes put :: "'r \<Rightarrow> 'k \<Rightarrow> 'v \<Rightarrow> 's \<Rightarrow> (int \<times> 's) res option"
    and get :: "'k \<Rightarrow> 's \<Rightarrow> 'v option res option"
    and store :: "'s \<Rightarrow> ('k \<rightharpoonup> 'v) \<Rightarrow> bool"
    and ok :: "'r \<Rightarrow> bool"
  assumes put_old: "store s m \<Longrightarrow> m k \<noteq> None \<Longrightarrow> put r k v s = Some (Inr (1, s))"
    and put_new: "store s m \<Longrightarrow> m k = None \<Longrightarrow> ok r \<Longrightarrow>
      \<exists>s'. put r k v s = Some (Inr (0, s')) \<and> store s' (m(k \<mapsto> v))"
    and get_law: "store s m \<Longrightarrow> get k s = Some (Inr (m k))"

text \<open>A run of insertions, what it does to a map and which numbers it returns.\<close>

fun puts :: "('r \<Rightarrow> 'k \<Rightarrow> 'v \<Rightarrow> 's \<Rightarrow> (int \<times> 's) res option) \<Rightarrow> ('r \<times> 'k \<times> 'v) list \<Rightarrow> 's \<Rightarrow>
  (int list \<times> 's) res option" where
  "puts put [] s = Some (Inr ([], s))"
| "puts put ((r, k, v) # es) s =
     bindO (put r k v s) (\<lambda>(c, s1). bindO (puts put es s1) (\<lambda>(cs, s2). Some (Inr (c # cs, s2))))"

fun puts_spec :: "('r \<times> 'k \<times> 'v) list \<Rightarrow> ('k \<rightharpoonup> 'v) \<Rightarrow> int list \<times> ('k \<rightharpoonup> 'v)" where
  "puts_spec [] m = ([], m)"
| "puts_spec ((r, k, v) # es) m =
     (let (cs, m') = puts_spec es (if m k = None then m(k \<mapsto> v) else m) in
      ((if m k = None then 0 else 1) # cs, m'))"

context kv_store begin

lemma puts_law:
  "store s m \<Longrightarrow> \<forall>(r, k, v) \<in> set es. ok r \<Longrightarrow>
   \<exists>s'. puts put es s = Some (Inr (fst (puts_spec es m), s')) \<and> store s' (snd (puts_spec es m))"
proof (induction es arbitrary: s m)
  case (Cons e es)
  obtain r k v where e: "e = (r, k, v)" by (cases e)
  let ?m = "if m k = None then m(k \<mapsto> v) else m"
  obtain s1 where "put r k v s = Some (Inr (if m k = None then 0 else 1, s1))" "store s1 ?m"
    using put_old [OF Cons.prems(1), of k r v] put_new [OF Cons.prems(1), of k r v] Cons.prems e
    by (cases "m k = None") auto
  with Cons.IH [of s1 ?m] Cons.prems(2) e show ?case
    by (auto simp: case_prod_beta Let_def)
qed auto

text \<open>The first of several values put under a key is the one found.\<close>

lemma puts_first:
  assumes "store s Map.empty" "\<forall>(r, k, v) \<in> set es. ok r"
  shows "\<exists>s'. puts put es s = Some (Inr (fst (puts_spec es Map.empty), s')) \<and>
    store s' (map_of (map snd es)) \<and> (\<forall>k. get k s' = Some (Inr (map_of (map snd es) k)))"
proof -
  have "snd (puts_spec es m) k = (case m k of None \<Rightarrow> map_of (map snd es) k | Some v \<Rightarrow> Some v)" for m k
  proof (induction es arbitrary: m)
    case (Cons e es)
    obtain r k' v where "e = (r, k', v)" by (cases e)
    then show ?case
      using Cons.IH [of "if m k' = None then m(k' \<mapsto> v) else m"]
      by (auto simp: case_prod_beta Let_def split: option.splits if_splits)
  qed (simp split: option.split)
  then have "snd (puts_spec es Map.empty) = map_of (map snd es)" by (simp add: fun_eq_iff)
  with puts_law [OF assms] get_law show ?thesis by fastforce
qed

end

text \<open>\<open>find\<close> and \<open>GetVal\<close> of the node found.\<close>

definition SkipList_lookup :: "'k :: linorder \<Rightarrow> ('k, 'v) skiplist \<Rightarrow> 'v option res option" where
  "SkipList_lookup k s =
     bindO (SkipList_find k s) (\<lambda>p. case p of None \<Rightarrow> Some (Inr None)
       | Some _ \<Rightarrow> Some (bindR (node_at (s_heap s) p) (\<lambda>nd. Inr (Some (n_val nd)))))"

lemma lookup_contents:
  assumes "skl_inv s as"
  shows "SkipList_lookup k s = Some (Inr (contents s as k))"
proof -
  obtain p where p: "SkipList_find k s = Some (Inr p)"
    "case p of None \<Rightarrow> contents s as k = None
     | Some a \<Rightarrow> a \<in> set as \<and> key_of (s_heap s) a = k \<and> contents s as k = Some (val_of (s_heap s) a)"
    using find_contents [OF assms] by blast
  have "a \<in> dom (s_heap s)" if "p = Some a" for a
    using p(2) that skl_invD(4) [OF assms] by auto
  with p show ?thesis
    by (cases p) (auto simp: SkipList_lookup_def val_of_def)
qed

text \<open>Lists only inserted into: \<open>_curLevel\<close> is as high as the highest node.\<close>

definition skl_store :: "('k :: linorder, 'v) skiplist \<Rightarrow> ('k \<rightharpoonup> 'v) \<Rightarrow> bool" where
  "skl_store s m \<longleftrightarrow> (\<exists>as. skl_inv s as \<and> contents s as = m \<and>
     (\<forall>a \<in> set as. level_of (s_heap s) a \<le> s_curLevel s))"

lemma skl_store_new: "1 \<le> m \<Longrightarrow> skl_store (SkipList_new k0 v0 m) Map.empty"
  using skl_inv_new [of m k0 v0] by (fastforce simp: skl_store_def)

interpretation skl: kv_store SkipList_insert SkipList_lookup skl_store "\<lambda>rs. \<exists>r \<in> set rs. even r"
proof unfold_locales
  fix s :: "('a, 'b) skiplist" and m k r v
  assume "skl_store s m" "m k \<noteq> None"
  then show "SkipList_insert r k v s = Some (Inr (1, s))"
    using insert_present by (metis skl_store_def)
next
  fix s :: "('a, 'b) skiplist" and m k v and r :: "nat list"
  assume *: "skl_store s m" "m k = None" "\<exists>x \<in> set r. even x"
  obtain lvl where lvl: "getRandomLevel (s_maxLevel s) r = Some lvl"
    using getRandomLevel_returns [OF *(3)] by blast
  from *(1) obtain as where as: "skl_inv s as" "contents s as = m"
    "\<forall>a \<in> set as. level_of (s_heap s) a \<le> s_curLevel s" by (auto simp: skl_store_def)
  have "contents s as k = None" using as(2) *(2) by simp
  from insert_absent [OF as(1) this lvl, of v] as(3) show
    "\<exists>s'. SkipList_insert r k v s = Some (Inr (0, s')) \<and> skl_store s' (m(k \<mapsto> v))"
    unfolding skl_store_def as(2) by blast
next
  fix s :: "('a, 'b) skiplist" and m k
  assume "skl_store s m"
  then show "SkipList_lookup k s = Some (Inr (m k))"
    using lookup_contents by (auto simp: skl_store_def)
qed

subsection \<open>Display\<close>

text \<open>What \<open>display\<close> prints of one entry and of the nodes of one level.\<close>

definition entry :: "('k \<Rightarrow> string) \<Rightarrow> ('v \<Rightarrow> string) \<Rightarrow> 'k \<times> 'v \<Rightarrow> string" where
  "entry sk sv e = ''(key: '' @ sk (fst e) @ '', val: '' @ sv (snd e) @ '')''"

fun entries :: "('k \<Rightarrow> string) \<Rightarrow> ('v \<Rightarrow> string) \<Rightarrow> bool \<Rightarrow> ('k \<times> 'v) list \<Rightarrow> string" where
  "entries sk sv first [] = [CHR 0x0A]"
| "entries sk sv first (e # es) = (if first then [] else [CHR 0x09]) @ entry sk sv e @ entries sk sv False es"

definition listing :: "('k, 'v) nodes \<Rightarrow> nat list \<Rightarrow> ('k \<times> 'v) list" where
  "listing h as = map (\<lambda>a. (key_of h a, val_of h a)) as"

lemma display_level_linked:
  "linked h i p as \<Longrightarrow>
   display_level sk sv h i (case as of [] \<Rightarrow> None | a # _ \<Rightarrow> Some a) first out =
     Some (Inr (out @ entries sk sv first (listing h as)))"
proof (induction as arbitrary: p first out)
  case Nil
  show ?case by (subst display_level.simps) (simp add: listing_def)
next
  case (Cons a as)
  then have l: "linked h i a as" by simp
  then obtain q where q: "nxt h a i = Inr q" "q = (case as of [] \<Rightarrow> None | b # _ \<Rightarrow> Some b)"
    by (cases as) auto
  obtain nd where nd: "h a = Some nd" using nxt_Inr_dom [OF q(1)] by auto
  have "display_level sk sv h i (Some a) first out =
    display_level sk sv h i q False (out @ (if first then [] else [CHR 0x09]) @ entry sk sv (n_key nd, n_val nd))"
    by (subst display_level.simps) (simp add: nd q(1) entry_def)
  then show ?case
    unfolding q(2) Cons.IH [OF l] using nd by (simp add: listing_def key_of_def val_of_def)
qed

lemma display_levels_linked:
  "\<forall>i < n. linked h i p (ls i) \<Longrightarrow>
   display_levels sk sv h p n out =
     Some (Inr (out @ concat (map (\<lambda>i. entries sk sv True (listing h (ls i))) (rev [0..<n]))))"
proof (induction n arbitrary: out)
  case (Suc i)
  then have l: "linked h i p (ls i)" by simp
  then have "nxt h p i = Inr (case ls i of [] \<Rightarrow> None | b # _ \<Rightarrow> Some b)" by (cases "ls i") auto
  with display_level_linked [OF l, of sk sv True out] Suc show ?case by simp
qed simp

lemma display_inv:
  assumes "skl_inv s as"
  shows "SkipList_display sk sv s = Some (Inr (
    [CHR 0x0A] @ ''****** Skip List *******'' @ [CHR 0x0A] @
    concat (map (entries sk sv True)
      (map (\<lambda>i. listing (s_heap s) (on_level (s_heap s) i as)) (rev [1..<s_curLevel s + 1]) @
       [listing (s_heap s) as]))))"
proof -
  note inv = skl_invD [OF assms]
  have all: "on_level (s_heap s) 0 as = as"
    by (rule on_level_all) (use inv(7) in \<open>auto simp: Suc_le_eq\<close>)
  have "[0..<s_curLevel s + 1] = 0 # [1..<s_curLevel s + 1]" by (simp add: upt_rec)
  then have "rev [0..<s_curLevel s + 1] = rev [1..<s_curLevel s + 1] @ [0]" by simp
  moreover have "\<forall>i < s_curLevel s + 1. linked (s_heap s) i (s_head s) (on_level (s_heap s) i as)"
    using inv(2,12) by simp
  note display_levels_linked [OF this]
  ultimately show ?thesis
    unfolding SkipList_display_def by (simp only: map_append map_map comp_def list.map all append_assoc)
qed

subsection \<open>Properties\<close>

text \<open>Every list of insertions whose calls of \<open>rand\<close> yield an even number at some time.\<close>

definition ends :: "(nat list \<times> 'k \<times> 'v) list \<Rightarrow> bool" where
  "ends es \<longleftrightarrow> (\<forall>(rs, k, v) \<in> set es. \<exists>r \<in> set rs. even r)"

text \<open>
  C15: Any insertions into a new skip list of at least one level return, whatever levels \<open>rand\<close>
  chooses, and faultlessly: 0 for a new key and 1, with no change, for a key that is there. Any
  key is found afterwards with the value first inserted under it, and no other key is found.
\<close>

theorem skiplist_insert_find:
  assumes "1 \<le> m" "ends es"
  shows "\<exists>s. puts SkipList_insert es (SkipList_new k0 v0 m) = Some (Inr (fst (puts_spec es Map.empty), s)) \<and>
    (\<forall>k. SkipList_lookup k s = Some (Inr (map_of (map snd es) k)))"
  using skl.puts_first [OF skl_store_new [OF assms(1)] assms(2) [unfolded ends_def]] by blast

theorem skiplist_insert_find_witness:
  "\<exists>s. puts SkipList_insert [([1, 1, 2], 5, ''five''), ([4], 3, ''three''), ([7, 8], 5, ''cinq'')]
      (SkipList_new 0 [] 2) = Some (Inr ([0, 0, 1], s)) \<and>
    (\<forall>k :: int. SkipList_lookup k s =
      Some (Inr (map_of [(5, ''five''), (3, ''three''), (5, ''cinq'')] k)))"
  using skiplist_insert_find [of 2 "[([1, 1, 2], 5 :: int, ''five''), ([4], 3, ''three''), ([7, 8], 5, ''cinq'')]" 0 "[]"]
  by (simp add: ends_def)

lemma puts_store:
  assumes "1 \<le> m" "ends es"
  obtains s as where "puts SkipList_insert es (SkipList_new k0 v0 m) = Some (Inr (fst (puts_spec es Map.empty), s))"
    "skl_inv s as" "contents s as = map_of (map snd es)"
    "\<forall>a \<in> set as. level_of (s_heap s) a \<le> s_curLevel s"
  using skl.puts_first [OF skl_store_new [OF assms(1)] assms(2) [unfolded ends_def]]
  unfolding skl_store_def by blast

lemma node_with_key:
  assumes "skl_inv s as" "contents s as k \<noteq> None"
  obtains bs a cs where "as = bs @ a # cs" "key_of (s_heap s) a = k"
proof -
  have "k \<in> fst ` set (map (\<lambda>a. (key_of (s_heap s) a, val_of (s_heap s) a)) as)"
    using assms(2) unfolding contents_def by (metis map_of_eq_None_iff)
  then have "k \<in> key_of (s_heap s) ` set as" by (simp add: image_image)
  then show thesis using that by (metis imageE split_list)
qed

lemma dom_contents: "dom (contents s as) = key_of (s_heap s) ` set as"
  by (simp add: contents_def dom_map_of_conv_image_fst image_image)

lemma counts_card:
  assumes "skl_inv s as"
  shows "s_counts s = int (card (dom (contents s as)))"
proof -
  have "distinct (map (key_of (s_heap s)) as)"
    using skl_invD(11) [OF assms] strict_sorted_iff by blast
  then show ?thesis
    unfolding dom_contents using skl_invD(13) [OF assms] by (simp add: distinct_map card_image distinct_card)
qed

lemma split_at_missing_key:
  assumes "skl_inv s as" "contents s as k = None"
  obtains bs cs where "as = bs @ cs" "\<forall>b \<in> set bs. key_of (s_heap s) b < k"
    "\<forall>c \<in> set cs. k < key_of (s_heap s) c"
proof -
  obtain bs cs where split: "as = bs @ cs" "\<forall>b \<in> set bs. key_of (s_heap s) b < k"
    "\<forall>c \<in> set cs. \<not> key_of (s_heap s) c < k"
    using split_at_key [OF skl_invD(11) [OF assms(1)]] by blast
  have "k \<notin> key_of (s_heap s) ` set as" using assms(2) dom_contents [of s as] by auto
  with split that show ?thesis by (metis Un_iff image_eqI linorder_less_linear set_append)
qed

text \<open>
  C27: After any insertions the first erasure of a key that is there removes that key and nothing
  else, and the number of entries goes down with it.
\<close>

theorem skiplist_first_erase:
  assumes "1 \<le> m" "ends es" "map_of (map snd es) k \<noteq> None"
  shows "\<exists>cs s s'. puts SkipList_insert es (SkipList_new k0 v0 m) = Some (Inr (cs, s)) \<and>
    SkipList_erase k s = Some (Inr s') \<and>
    (\<forall>k'. SkipList_lookup k' s' = Some (Inr (((map_of (map snd es))(k := None)) k'))) \<and>
    s_counts s = int (card (dom (map_of (map snd es)))) \<and> s_counts s' = s_counts s - 1"
proof -
  obtain s as where s: "puts SkipList_insert es (SkipList_new k0 v0 m) = Some (Inr (fst (puts_spec es Map.empty), s))"
    "skl_inv s as" "contents s as = map_of (map snd es)" "\<forall>a \<in> set as. level_of (s_heap s) a \<le> s_curLevel s"
    using puts_store [OF assms(1,2)] by blast
  obtain bs a cs where split: "as = bs @ a # cs" "key_of (s_heap s) a = k"
    using node_with_key [OF s(2)] assms(3) s(3) by metis
  obtain s' where s': "SkipList_erase k s = Some (Inr s')" "skl_inv s' (bs @ cs)"
    "contents s' (bs @ cs) = (contents s as)(k := None)"
    using erase_ok [OF s(2) [unfolded split(1)]] s(4) split by auto
  have "s_counts s' = s_counts s - 1"
    using skl_invD(13) [OF s(2)] skl_invD(13) [OF s'(2)] split(1) by simp
  with s' s(1,3) counts_card [OF s(2)] lookup_contents [OF s'(2)] show ?thesis by metis
qed

theorem skiplist_first_erase_witness:
  "\<exists>cs s s'. puts SkipList_insert [([1, 2], 5, ''five''), ([4], 3, ''three'')] (SkipList_new 0 [] 2) =
      Some (Inr (cs, s)) \<and> SkipList_erase (5 :: int) s = Some (Inr s') \<and>
    SkipList_lookup 5 s' = Some (Inr None) \<and> SkipList_lookup 3 s' = Some (Inr (Some ''three''))"
  using skiplist_first_erase [of 2 "[([1, 2], 5 :: int, ''five''), ([4], 3, ''three'')]" 5 0 "[]"]
  by (fastforce simp: ends_def)

text \<open>
  C28: After that first erasure, if keys are left, there is one whose erasure leaves a pointer to
  its deleted node: \<open>_curLevel\<close> was set one too low, so the node stays linked on its highest
  level, and the next search for the key, by any operation, follows the pointer.
\<close>

theorem skiplist_second_erase:
  assumes "1 \<le> m" "ends es" "map_of (map snd es) k \<noteq> None" "dom (map_of (map snd es)) \<noteq> {k}"
  shows "\<exists>cs s s1 k2 s2. puts SkipList_insert es (SkipList_new k0 v0 m) = Some (Inr (cs, s)) \<and>
    SkipList_erase k s = Some (Inr s1) \<and>
    k2 \<noteq> k \<and> map_of (map snd es) k2 \<noteq> None \<and> SkipList_erase k2 s1 = Some (Inr s2) \<and>
    SkipList_find k2 s2 = Some (Inl UseAfterFree) \<and> SkipList_erase k2 s2 = Some (Inl UseAfterFree) \<and>
    (\<forall>rs v. SkipList_insert rs k2 v s2 = Some (Inl UseAfterFree))"
proof -
  obtain s as where s: "puts SkipList_insert es (SkipList_new k0 v0 m) = Some (Inr (fst (puts_spec es Map.empty), s))"
    "skl_inv s as" "contents s as = map_of (map snd es)" "\<forall>a \<in> set as. level_of (s_heap s) a \<le> s_curLevel s"
    using puts_store [OF assms(1,2)] by blast
  obtain bs a cs where split: "as = bs @ a # cs" "key_of (s_heap s) a = k"
    using node_with_key [OF s(2)] assms(3) s(3) by metis
  obtain s1 where s1: "SkipList_erase k s = Some (Inr s1)" "skl_inv s1 (bs @ cs)"
    "contents s1 (bs @ cs) = (contents s as)(k := None)"
    "bs @ cs \<noteq> [] \<longrightarrow> (\<exists>b \<in> set (bs @ cs). level_of (s_heap s1) b = s_curLevel s1 + 1)"
    using erase_ok [OF s(2) [unfolded split(1)]] s(4) split by auto
  obtain k' where "k' \<noteq> k" "map_of (map snd es) k' \<noteq> None" using assms(3,4) by blast
  with s1(3) s(3) have "contents s1 (bs @ cs) k' \<noteq> None" by simp
  then have "bs @ cs \<noteq> []" by (metis contents_new)
  with s1(4) obtain b where b: "b \<in> set (bs @ cs)" "level_of (s_heap s1) b = s_curLevel s1 + 1" by blast
  from split_list [OF b(1)] obtain xs ys where xy: "bs @ cs = xs @ b # ys" by blast
  let ?k2 = "key_of (s_heap s1) b"
  obtain s2 where s2: "SkipList_erase ?k2 s1 = Some (Inr s2)" "search ?k2 s2 = Some (Inl UseAfterFree)"
    using erase_dangling [OF s1(2) [unfolded xy] b(2)] by blast
  have "?k2 \<in> dom (contents s1 (bs @ cs))" unfolding dom_contents using b(1) by blast
  then have "?k2 \<noteq> k" "map_of (map snd es) ?k2 \<noteq> None"
    using s1(3) s(3) by (auto split: if_splits)
  moreover have "SkipList_find ?k2 s2 = Some (Inl UseAfterFree)" by (rule search_fault [OF s2(2)])
  moreover have "SkipList_erase ?k2 s2 = Some (Inl UseAfterFree)"
    "\<forall>rs v. SkipList_insert rs ?k2 v s2 = Some (Inl UseAfterFree)"
    using s2(2) by (simp_all add: SkipList_erase_def SkipList_insert_def)
  ultimately show ?thesis using s(1) s1(1) s2(1) by blast
qed

theorem skiplist_second_erase_witness:
  "\<exists>cs s s1 s2. puts SkipList_insert [([0], 1, ''codroc''), ([2], 2, ''hello'')] (SkipList_new 0 [] 8) =
      Some (Inr (cs, s)) \<and> SkipList_erase (1 :: int) s = Some (Inr s1) \<and>
    SkipList_erase 2 s1 = Some (Inr s2) \<and> SkipList_find 2 s2 = Some (Inl UseAfterFree)"
  using skiplist_second_erase [of 8 "[([0], 1 :: int, ''codroc''), ([2], 2, ''hello'')]" 1 0 "[]"]
  by (fastforce simp: ends_def split: if_splits)

text \<open>
  C29: Erasing a key that is not there still lowers the number of entries. If greater keys are
  there, the node of the least of them is deleted while it is linked, so looking that key up
  afterwards follows a pointer to a deleted node; if none is, every lookup is as before.
\<close>

theorem skiplist_erase_missing:
  assumes "1 \<le> m" "ends es" "map_of (map snd es) k = None"
  shows "\<exists>cs s s'. puts SkipList_insert es (SkipList_new k0 v0 m) = Some (Inr (cs, s)) \<and>
    SkipList_erase k s = Some (Inr s') \<and> s_counts s' = int (card (dom (map_of (map snd es)))) - 1 \<and>
    (let greater = {k' \<in> dom (map_of (map snd es)). k < k'} in
     if greater = {} then \<forall>k'. SkipList_lookup k' s' = Some (Inr (map_of (map snd es) k'))
     else SkipList_find (Min greater) s' = Some (Inl UseAfterFree))"
proof -
  obtain s as where s: "puts SkipList_insert es (SkipList_new k0 v0 m) = Some (Inr (fst (puts_spec es Map.empty), s))"
    "skl_inv s as" "contents s as = map_of (map snd es)"
    using puts_store [OF assms(1,2)] by blast
  obtain bs cs where split: "as = bs @ cs" "\<forall>b \<in> set bs. key_of (s_heap s) b < k"
    "\<forall>c \<in> set cs. k < key_of (s_heap s) c"
    using split_at_missing_key [OF s(2)] s(3) assms(3) by metis
  have greater: "{k' \<in> dom (map_of (map snd es)). k < k'} = key_of (s_heap s) ` set cs"
    using dom_contents [of s as] s(3) split by (force dest: order_less_asym)
  obtain s' where s': "SkipList_erase k s = Some (Inr s')" "s_counts s' = s_counts s - 1"
    "case cs of [] \<Rightarrow> \<forall>k'. SkipList_find k' s' = SkipList_find k' s \<and> s_heap s' = s_heap s
     | c # cs' \<Rightarrow> SkipList_find (key_of (s_heap s) c) s' = Some (Inl UseAfterFree)"
    using erase_missing [OF s(2) [unfolded split(1)] split(2,3)] by blast
  have "if key_of (s_heap s) ` set cs = {}
    then \<forall>k'. SkipList_lookup k' s' = Some (Inr (map_of (map snd es) k'))
    else SkipList_find (Min (key_of (s_heap s) ` set cs)) s' = Some (Inl UseAfterFree)"
  proof (cases cs)
    case Nil
    with s'(3) have "SkipList_lookup k' s' = SkipList_lookup k' s" for k'
      by (simp add: SkipList_lookup_def cong: option.case_cong)
    with lookup_contents [OF s(2)] s(3) Nil show ?thesis by simp
  next
    case (Cons c cs')
    then have "Min (key_of (s_heap s) ` set cs) = key_of (s_heap s) c"
      using sorted_keys_after(1) [OF skl_invD(11) [OF s(2) [unfolded split(1) Cons]]]
      by (intro Min_eqI) (auto intro: less_imp_le)
    with s'(3) Cons show ?thesis by simp
  qed
  then show ?thesis unfolding Let_def greater
    using s(1,3) s'(1,2) counts_card [OF s(2)] by auto
qed

theorem skiplist_erase_missing_witness:
  "\<exists>cs s s'. puts SkipList_insert [([0], 1, ''codroc''), ([2], 4, ''hello'')] (SkipList_new 0 [] 8) =
      Some (Inr (cs, s)) \<and> SkipList_erase (3 :: int) s = Some (Inr s') \<and>
    s_counts s' = 1 \<and> SkipList_find 4 s' = Some (Inl UseAfterFree)"
proof -
  let ?es = "[([0], 1 :: int, ''codroc''), ([2], 4, ''hello'')]"
  have greater: "{k' \<in> dom (map_of (map snd ?es)). 3 < k'} = {4}" by auto
  have "1 \<le> (8 :: nat)" "ends ?es" "map_of (map snd ?es) 3 = None" by (simp_all add: ends_def)
  from skiplist_erase_missing [OF this, of 0 "[]", unfolded Let_def greater] show ?thesis by simp
qed

text \<open>
  After any insertions \<open>display\<close> returns and prints a line for every level in use, the
  lowest last; that line holds exactly the entries of the list in the order of their keys, and
  every other line holds some of them.
\<close>

theorem skiplist_display:
  assumes "1 \<le> m" "ends es"
  shows "\<exists>cs s lines kvs. puts SkipList_insert es (SkipList_new k0 v0 m) = Some (Inr (cs, s)) \<and>
    SkipList_display sk sv s = Some (Inr ([CHR 0x0A] @ ''****** Skip List *******'' @ [CHR 0x0A] @
      concat (map (entries sk sv True) (lines @ [kvs])))) \<and>
    length lines = s_curLevel s \<and> (\<forall>l \<in> set lines. set l \<subseteq> set kvs) \<and>
    sorted_wrt (<) (map fst kvs) \<and> map_of kvs = map_of (map snd es)"
proof -
  obtain s as where s: "puts SkipList_insert es (SkipList_new k0 v0 m) = Some (Inr (fst (puts_spec es Map.empty), s))"
    "skl_inv s as" "contents s as = map_of (map snd es)"
    using puts_store [OF assms] by blast
  let ?lines = "map (\<lambda>i. listing (s_heap s) (on_level (s_heap s) i as)) (rev [1..<s_curLevel s + 1])"
  have "sorted_wrt (<) (map fst (listing (s_heap s) as))"
    using skl_invD(11) [OF s(2)] by (simp add: listing_def comp_def)
  moreover have "map_of (listing (s_heap s) as) = map_of (map snd es)"
    using s(3) by (simp add: contents_def listing_def)
  moreover have "\<forall>l \<in> set ?lines. set l \<subseteq> set (listing (s_heap s) as)"
    by (auto simp: listing_def set_on_level)
  moreover have "length ?lines = s_curLevel s" by (simp del: upt_Suc)
  ultimately show ?thesis using s(1) display_inv [OF s(2), of sk sv] by blast
qed

theorem skiplist_display_witness:
  "\<exists>cs s lines kvs. puts SkipList_insert [([0], 2, ''b''), ([2], 1, ''a'')] (SkipList_new 0 [] 8) =
      Some (Inr (cs, s)) \<and>
    SkipList_display (\<lambda>k :: int. if k = 1 then ''1'' else ''2'') id s =
      Some (Inr ([CHR 0x0A] @ ''****** Skip List *******'' @ [CHR 0x0A] @
        concat (map (entries (\<lambda>k. if k = 1 then ''1'' else ''2'') id True) (lines @ [kvs])))) \<and>
    length lines = s_curLevel s \<and> (\<forall>l \<in> set lines. set l \<subseteq> set kvs) \<and>
    sorted_wrt (<) (map fst kvs) \<and> map_of kvs = [1 :: int \<mapsto> ''a'', 2 \<mapsto> ''b'']"
proof -
  have m: "map_of (map snd [([0 :: nat], 2 :: int, ''b''), ([2], 1, ''a'')]) = [1 \<mapsto> ''a'', 2 \<mapsto> ''b'']"
    by auto
  have "1 \<le> (8 :: nat)" "ends [([0], 2 :: int, ''b''), ([2], 1, ''a'')]" by (simp_all add: ends_def)
  from skiplist_display [OF this, of 0 "[]" "\<lambda>k. if k = 1 then ''1'' else ''2''" id, unfolded m]
  show ?thesis .
qed

end
