(* ===== verification/DateTime.thy ===== *)
theory DateTime
  imports LogFormat
begin

text \<open>
  The date and the time of day in a log line: \<open>FastSecondToDate\<close> of \<open>log/logStream.cpp\<close> and a
  calendar to compare it with, day by day.
\<close>

subsection \<open>FastSecondToDate\<close>

text \<open>The fields of \<open>struct tm\<close> the function sets; \<open>tm_year\<close> counts from 1900, \<open>tm_mon\<close> from 0.\<close>

record tm =
  tm_sec :: int
  tm_min :: int
  tm_hour :: int
  tm_mday :: int
  tm_mon :: int
  tm_year :: int

text \<open>
  \<open>unix_sec\<close> is a \<open>time_t\<close> of 64 bits, every other number an \<open>int\<close>. The sum with the time zone
  is the only one that can leave the range of its type.
\<close>

definition FastSecondToDate :: "int \<Rightarrow> int \<Rightarrow> tm res" where
  "FastSecondToDate unix_sec time_zone =
     (let sec = unix_sec smod 60;
          i = to_int32 (unix_sec sdiv 60);
          min = i smod 60;
          i = i sdiv 60 in
      if i + time_zone < - (2 ^ 31) \<or> 2 ^ 31 \<le> i + time_zone then Inl SignedOverflow
      else
        let hour = (i + time_zone) smod 24;
            mday = (i + time_zone) sdiv 24;
            a = mday + 2472632;
            b = (a * 4 + 3) sdiv 146097;
            c = (- b * 146097) sdiv 4 + a;
            d = (c * 4 + 3) sdiv 1461;
            e = - d * 1461;
            e = e sdiv 4 + c;
            m = (5 * e + 2) sdiv 153 in
        Inr \<lparr>tm_sec = sec, tm_min = min, tm_hour = hour,
             tm_mday = (- (153 * m + 2)) sdiv 5 + e + 1,
             tm_mon = ((- m) sdiv 10) * 12 + m + 2,
             tm_year = b * 100 + d - 6700 + m sdiv 10\<rparr>)"

subsection \<open>The Gregorian calendar, day by day\<close>

definition leap :: "int \<Rightarrow> bool" where
  "leap y \<longleftrightarrow> 4 dvd y \<and> (\<not> 100 dvd y \<or> 400 dvd y)"

definition days_in_month :: "int \<Rightarrow> int \<Rightarrow> int" where
  "days_in_month y mon =
     (if mon = 1 then (if leap y then 29 else 28)
      else if mon \<in> {3, 5, 8, 10} then 30 else 31)"

text \<open>Year, month from 0 and day of the month from 1.\<close>

definition next_day :: "int \<times> int \<times> int \<Rightarrow> int \<times> int \<times> int" where
  "next_day = (\<lambda>(y, mon, day).
     if day < days_in_month y mon then (y, mon, day + 1)
     else if mon < 11 then (y, mon + 1, 1) else (y + 1, 0, 1))"

primrec day_date :: "nat \<Rightarrow> int \<times> int \<times> int" where
  "day_date 0 = (1970, 0, 1)"
| "day_date (Suc n) = next_day (day_date n)"

subsection \<open>Counting days in years that start in March\<close>

text \<open>
  \<open>b\<close> centuries, \<open>d\<close> years, \<open>m\<close> months and \<open>k\<close> days since the first of March 4801 BC: the
  numbers the code computes, and the day they stand for.
\<close>

definition month_length :: "int \<Rightarrow> int \<Rightarrow> int \<Rightarrow> int" where
  "month_length b d m =
     (if m = 11 then (if d mod 4 = 3 \<and> (d \<noteq> 99 \<or> b mod 4 = 3) then 29 else 28)
      else if m = 1 \<or> m = 3 \<or> m = 6 \<or> m = 8 then 30 else 31)"

definition valid_count :: "int \<Rightarrow> int \<Rightarrow> int \<Rightarrow> int \<Rightarrow> bool" where
  "valid_count b d m k \<longleftrightarrow>
     0 \<le> b \<and> 0 \<le> d \<and> d \<le> 99 \<and> 0 \<le> m \<and> m \<le> 11 \<and> 0 \<le> k \<and> k < month_length b d m"

definition count_days :: "int \<Rightarrow> int \<Rightarrow> int \<Rightarrow> int \<Rightarrow> int" where
  "count_days b d m k = 36524 * b + b div 4 + 365 * d + d div 4 + (153 * m + 2) div 5 + k"

definition civil :: "int \<Rightarrow> int \<Rightarrow> int \<Rightarrow> int \<Rightarrow> int \<times> int \<times> int" where
  "civil b d m k = (100 * b + d - 4800 + m div 10, m + 2 - 12 * (m div 10), k + 1)"

lemma month_cases:
  "0 \<le> m \<Longrightarrow> m \<le> 11 \<Longrightarrow>
   m = 0 \<or> m = 1 \<or> m = 2 \<or> m = 3 \<or> m = 4 \<or> m = 5 \<or> m = 6 \<or> m = 7 \<or> m = 8 \<or> m = 9 \<or> m = 10 \<or> m = (11 :: int)"
  by presburger

lemma leap_count:
  assumes "0 \<le> d" "d \<le> 99"
  shows "leap (100 * b + d - 4800 + 1) \<longleftrightarrow> d mod 4 = 3 \<and> (d \<noteq> 99 \<or> b mod 4 = 3)"
proof -
  have "4 dvd 4 * (25 * b - 1200) + (d + 1) \<longleftrightarrow> 4 dvd d + 1"
    by (rule dvd_add_right_iff) simp
  moreover have "4 dvd d + 1 \<longleftrightarrow> d mod 4 = 3" by presburger
  ultimately have 1: "4 dvd 100 * b + d - 4800 + 1 \<longleftrightarrow> d mod 4 = 3" by (simp add: algebra_simps)
  have "100 dvd 100 * (b - 48) + (d + 1) \<longleftrightarrow> 100 dvd d + 1"
    by (rule dvd_add_right_iff) simp
  moreover have "100 dvd d + 1 \<longleftrightarrow> d = 99" using assms zdvd_imp_le [of 100 "d + 1"] by auto
  ultimately have 2: "100 dvd 100 * b + d - 4800 + 1 \<longleftrightarrow> d = 99" by (simp add: algebra_simps)
  have "400 dvd 100 * (b + 1 - 48) \<longleftrightarrow> 4 dvd b + 1 - 48"
    using dvd_times_left_cancel_iff [of "100 :: int" 4 "b + 1 - 48"] by simp
  moreover have "4 dvd b + 1 - 48 \<longleftrightarrow> b mod 4 = 3" by presburger
  ultimately have 3: "400 dvd 100 * b + 99 - 4800 + 1 \<longleftrightarrow> b mod 4 = 3" by (simp add: algebra_simps)
  show ?thesis using 1 2 3 by (auto simp: leap_def)
qed

text \<open>The months in both ways of counting.\<close>

lemma days_month_length:
  assumes "0 \<le> d" "d \<le> 99" "0 \<le> m" "m \<le> 11"
  shows "days_in_month (100 * b + d - 4800 + m div 10) (m + 2 - 12 * (m div 10)) = month_length b d m"
  using month_cases [OF assms(3,4)] leap_count [OF assms(1,2), of b]
  by (elim disjE) (simp_all add: days_in_month_def month_length_def)

lemma next_month:
  assumes "0 \<le> m" "m < 11"
  shows "(153 * (m + 1) + 2) div 5 = (153 * m + 2) div 5 + month_length b d m"
    "(m + 1) div 10 = (if m = 9 then 1 else m div 10)"
proof -
  have m: "0 \<le> m" "m \<le> 11" "m \<noteq> 11" using assms by simp_all
  show "(153 * (m + 1) + 2) div 5 = (153 * m + 2) div 5 + month_length b d m"
    using month_cases [OF m(1,2)] m(3) by (elim disjE) (simp_all add: month_length_def)
  show "(m + 1) div 10 = (if m = 9 then 1 else m div 10)"
    using month_cases [OF m(1,2)] m(3) by (elim disjE) simp_all
qed

text \<open>The next day in both ways of counting.\<close>

lemma count_next:
  assumes "valid_count b d m k"
  shows "\<exists>b' d' m' k'. valid_count b' d' m' k' \<and> count_days b' d' m' k' = count_days b d m k + 1 \<and>
    civil b' d' m' k' = next_day (civil b d m k)"
proof -
  have v: "0 \<le> b" "0 \<le> d" "d \<le> 99" "0 \<le> m" "m \<le> 11" "0 \<le> k" "k < month_length b d m"
    using assms by (simp_all add: valid_count_def)
  have positive: "0 < month_length b d m" for b d m by (simp add: month_length_def)
  note days = days_month_length [OF v(2-5), of b]
  consider "k + 1 < month_length b d m" | "k + 1 = month_length b d m" "m < 11"
    | "k + 1 = month_length b d m" "m = 11" "d < 99" | "k + 1 = month_length b d m" "m = 11" "d = 99"
    using v by linarith
  then show ?thesis
  proof cases
    case 1
    then have "valid_count b d m (k + 1)" using v by (simp add: valid_count_def)
    moreover have "count_days b d m (k + 1) = count_days b d m k + 1" by (simp add: count_days_def)
    moreover have "civil b d m (k + 1) = next_day (civil b d m k)"
      using 1 days by (simp add: civil_def next_day_def)
    ultimately show ?thesis by blast
  next
    case 2
    have "valid_count b d (m + 1) 0" using v 2 positive by (simp add: valid_count_def)
    moreover have "count_days b d (m + 1) 0 = count_days b d m k + 1"
      using next_month(1) [OF v(4) 2(2), of b d] 2(1) by (simp add: count_days_def)
    moreover have "civil b d (m + 1) 0 = next_day (civil b d m k)"
      using days 2 month_cases [OF v(4,5)] next_month(2) [OF v(4) 2(2)]
      by (auto simp: civil_def next_day_def)
    ultimately show ?thesis by blast
  next
    case 3
    have "valid_count b (d + 1) 0 0" using v 3 positive by (simp add: valid_count_def)
    moreover have "(d + 1) div 4 = d div 4 + (if d mod 4 = 3 then 1 else 0)" by presburger
    then have "count_days b (d + 1) 0 0 = count_days b d m k + 1"
      using 3 by (simp add: count_days_def month_length_def split: if_splits)
    moreover have "civil b (d + 1) 0 0 = next_day (civil b d m k)"
      using days 3 by (simp add: civil_def next_day_def)
    ultimately show ?thesis by blast
  next
    case 4
    have "valid_count (b + 1) 0 0 0" using v 4 positive by (simp add: valid_count_def)
    moreover have "(b + 1) div 4 = b div 4 + (if b mod 4 = 3 then 1 else 0)" by presburger
    then have "count_days (b + 1) 0 0 0 = count_days b d m k + 1"
      using 4 by (simp add: count_days_def month_length_def split: if_splits)
    moreover have "civil (b + 1) 0 0 0 = next_day (civil b d m k)"
      using days 4 by (simp add: civil_def next_day_def)
    ultimately show ?thesis by blast
  qed
qed

lemma count_day_date:
  "\<exists>b d m k. valid_count b d m k \<and> count_days b d m k = int n + 2472632 \<and> civil b d m k = day_date n"
proof (induction n)
  case 0
  show ?case
    by (intro exI [of _ 67] exI [of _ 69] exI [of _ 10] exI [of _ 0])
      (simp add: valid_count_def count_days_def civil_def month_length_def)
next
  case (Suc n)
  then obtain b d m k where v: "valid_count b d m k" "count_days b d m k = int n + 2472632"
    "civil b d m k = day_date n" by blast
  from count_next [OF v(1)] v(2,3) show ?case by (metis day_date.simps(2) of_nat_Suc add.commute add.left_commute)
qed

subsection \<open>The code computes the count\<close>

lemma sdiv_nonneg [simp]: "0 \<le> x \<Longrightarrow> 0 < y \<Longrightarrow> x sdiv y = x div (y :: int)"
  by (cases "x = 0") (simp_all add: signed_divide_int_def)

lemma sdiv_minus [simp]: "0 \<le> x \<Longrightarrow> 0 < y \<Longrightarrow> (- x) sdiv y = - (x div (y :: int))"
  by (cases "x = 0") (simp_all add: signed_divide_int_def)

lemma smod_nonneg [simp]: "0 \<le> x \<Longrightarrow> 0 < y \<Longrightarrow> x smod y = x mod (y :: int)"
  by (cases "x = 0") (simp_all add: signed_modulo_int_def)

lemma div_eqI: "x = q * y + r \<Longrightarrow> 0 \<le> r \<Longrightarrow> r < y \<Longrightarrow> x div y = (q :: int)"
  by (simp add: int_div_pos_eq mult.commute)

text \<open>Each step of the computation undoes one part of the count.\<close>

lemma year_day:
  assumes "valid_count b d m k"
  defines "e \<equiv> (153 * m + 2) div 5 + k"
  shows "0 \<le> e" "e \<le> 364 \<or> e = 365 \<and> d mod 4 = 3 \<and> (d \<noteq> 99 \<or> b mod 4 = 3)"
    "(5 * e + 2) div 153 = m"
proof -
  have v: "0 \<le> m" "m \<le> 11" "0 \<le> k" "k < month_length b d m"
    using assms by (simp_all add: valid_count_def)
  show "0 \<le> e" using v by (simp add: e_def)
  show "e \<le> 364 \<or> e = 365 \<and> d mod 4 = 3 \<and> (d \<noteq> 99 \<or> b mod 4 = 3)"
  proof (cases "m = 11")
    case True
    define long where "long \<longleftrightarrow> d mod 4 = 3 \<and> (d \<noteq> 99 \<or> b mod 4 = 3)"
    have "k < (if long then 29 else 28)" using v(4) True by (simp add: month_length_def long_def)
    then have "k \<le> 27 \<or> k = 28 \<and> long" by (cases long) auto
    moreover have "e = 337 + k" using True by (simp add: e_def)
    ultimately show ?thesis unfolding long_def [symmetric] by auto
  next
    case False
    then have "(153 * m + 2) div 5 \<le> (153 * 10 + 2) div 5" using v(2) by (intro zdiv_mono1) simp_all
    with v(4) show ?thesis by (simp add: e_def month_length_def split: if_splits)
  qed
  have "k \<le> (if m = 1 \<or> m = 3 \<or> m = 6 \<or> m = 8 then 29 else if m = 11 then 28 else 30)"
    using v(4) by (simp add: month_length_def split: if_splits)
  then have "153 * m \<le> 5 * e + 2 \<and> 5 * e + 2 < 153 * m + 153"
    using month_cases [OF v(1,2)] v(3) unfolding e_def by (elim disjE) simp_all
  then show "(5 * e + 2) div 153 = m" by (intro div_eqI [of _ _ _ "5 * e + 2 - 153 * m"]) simp_all
qed

lemma century_div:
  assumes "valid_count b d m k"
  shows "(count_days b d m k * 4 + 3) div 146097 = b"
proof -
  let ?c = "365 * d + d div 4 + (153 * m + 2) div 5 + k"
  have d: "0 \<le> d" "d \<le> 99" using assms by (simp_all add: valid_count_def)
  have e: "0 \<le> (153 * m + 2) div 5 + k" "(153 * m + 2) div 5 + k \<le> 364 \<or> (153 * m + 2) div 5 + k = 365 \<and>
    d mod 4 = 3 \<and> (d \<noteq> 99 \<or> b mod 4 = 3)" using year_day [OF assms] by simp_all
  have "0 \<le> ?c" using d e(1) by simp
  moreover have "?c \<le> 36523 \<or> ?c = 36524 \<and> b mod 4 = 3"
  proof (cases "d = 99")
    case True
    with e(2) show ?thesis by auto
  next
    case False
    then have "365 * d \<le> 365 * 98" "d div 4 \<le> 98 div 4" using d by (simp_all add: zdiv_mono1)
    with e(2) show ?thesis by auto
  qed
  moreover have "b mod 4 = b - 4 * (b div 4)" by (simp add: minus_mult_div_eq_mod)
  moreover have "0 \<le> b mod 4" "b mod 4 \<le> 3" by simp_all
  ultimately have "0 \<le> 4 * ?c + 3 - b mod 4" "4 * ?c + 3 - b mod 4 < 146097"
    "count_days b d m k * 4 + 3 = b * 146097 + (4 * ?c + 3 - b mod 4)"
    by (auto simp: count_days_def)
  then show ?thesis by (intro div_eqI)
qed

lemma year_div:
  assumes "valid_count b d m k"
  shows "((365 * d + d div 4 + (153 * m + 2) div 5 + k) * 4 + 3) div 1461 = d"
proof -
  let ?e = "(153 * m + 2) div 5 + k"
  have e: "0 \<le> ?e" "?e \<le> 364 \<or> ?e = 365 \<and> d mod 4 = 3" using year_day [OF assms] by auto
  have "d mod 4 = d - 4 * (d div 4)" by (simp add: minus_mult_div_eq_mod)
  moreover have "0 \<le> d mod 4" "d mod 4 \<le> 3" by simp_all
  ultimately have "0 \<le> 4 * ?e + 3 - d mod 4" "4 * ?e + 3 - d mod 4 < 1461"
    "(365 * d + d div 4 + (153 * m + 2) div 5 + k) * 4 + 3 = d * 1461 + (4 * ?e + 3 - d mod 4)"
    using e by auto
  then show ?thesis by (intro div_eqI)
qed

lemma quarter: "(146097 * b) div 4 = 36524 * b + b div (4 :: int)" "(1461 * d) div 4 = 365 * d + d div (4 :: int)"
proof -
  have "146097 * b = b + 4 * (36524 * b)" "1461 * d = d + 4 * (365 * d)" by simp_all
  then show "(146097 * b) div 4 = 36524 * b + b div 4" "(1461 * d) div 4 = 365 * d + d div 4"
    by (simp_all only: div_mult_self2 zero_neq_numeral simp_thms add.commute)
qed

text \<open>The date and the time of day of a second since 1970 in a time zone of whole hours.\<close>

lemma FastSecondToDate_fields:
  assumes "0 \<le> t" "t div 60 < 2 ^ 31" "0 \<le> t div 3600 + tz" "t div 3600 + tz < 2 ^ 31"
  shows "\<exists>r. FastSecondToDate t tz = Inr r \<and>
    (tm_year r + 1900, tm_mon r, tm_mday r) = day_date (nat ((t div 3600 + tz) div 24)) \<and>
    tm_hour r = (t div 3600 + tz) mod 24 \<and> tm_min r = t div 60 mod 60 \<and> tm_sec r = t mod 60"
proof -
  let ?h = "t div 3600 + tz"
  have i: "to_int32 (t sdiv 60) = t div 60" using assms(1,2) by simp
  have h: "(t div 60) sdiv 60 = t div 3600" using assms(1) by (simp add: zdiv_zmult2_eq [symmetric])
  obtain b d m k where v: "valid_count b d m k" "count_days b d m k = int (nat (?h div 24)) + 2472632"
    "civil b d m k = day_date (nat (?h div 24))" using count_day_date by blast
  have a: "?h div 24 + 2472632 = count_days b d m k" using v(2) assms(3) by simp
  let ?e = "(153 * m + 2) div 5 + k"
  have nn: "0 \<le> b" "0 \<le> d" "0 \<le> m" "0 \<le> k" using v(1) by (simp_all add: valid_count_def)
  have b: "(count_days b d m k * 4 + 3) sdiv 146097 = b"
    using century_div [OF v(1)] a assms(3) by (simp add: add.commute)
  have c: "(- b * 146097) sdiv 4 + count_days b d m k = 365 * d + d div 4 + ?e"
    using nn quarter(1) [of b] sdiv_minus [of "146097 * b" 4] by (simp add: count_days_def mult.commute)
  have d: "((365 * d + d div 4 + ?e) * 4 + 3) sdiv 1461 = d"
    using year_div [OF v(1)] nn by (simp add: add.assoc)
  have e: "(- d * 1461) sdiv 4 + (365 * d + d div 4 + ?e) = ?e"
    using nn quarter(2) [of d] sdiv_minus [of "1461 * d" 4] by (simp add: mult.commute)
  have m: "(5 * ?e + 2) sdiv 153 = m" using year_day(1,3) [OF v(1)] by simp
  have day: "(- (153 * m + 2)) sdiv 5 + ?e + 1 = k + 1" using nn sdiv_minus [of "153 * m + 2" 5] by simp
  have mon: "(- m) sdiv 10 * 12 + m + 2 = m + 2 - 12 * (m div 10)" "m sdiv 10 = m div 10" using nn by simp_all
  have range: "\<not> (?h < - (2 ^ 31) \<or> 2 ^ 31 \<le> ?h)" using assms(3,4) by simp
  have h24: "?h smod 24 = ?h mod 24" "?h sdiv 24 = ?h div 24" using assms(3) by simp_all
  have low: "t smod 60 = t mod 60" "(t div 60) smod 60 = t div 60 mod 60" using assms(1) by simp_all
  have "FastSecondToDate t tz = Inr \<lparr>tm_sec = t mod 60, tm_min = t div 60 mod 60, tm_hour = ?h mod 24,
      tm_mday = k + 1, tm_mon = m + 2 - 12 * (m div 10), tm_year = b * 100 + d - 6700 + m div 10\<rparr>"
    unfolding FastSecondToDate_def Let_def i h h24 low a b c d e m day mon if_not_P [OF range] ..
  then show ?thesis using v(3) by (simp add: civil_def algebra_simps)
qed

text \<open>The ranges the fields stay in.\<close>

lemma day_date_ranges:
  assumes "day_date n = (y, mon, day)"
  shows "1970 \<le> y" "0 \<le> mon" "mon \<le> 11" "1 \<le> day" "day \<le> 31" "n < 2000000 \<Longrightarrow> y < 10000"
proof -
  obtain b d m k where v: "valid_count b d m k" "count_days b d m k = int n + 2472632"
    "civil b d m k = (y, mon, day)" using count_day_date [of n] assms by auto
  have r: "0 \<le> b" "0 \<le> d" "d \<le> 99" "0 \<le> m" "m \<le> 11" "0 \<le> k" "k < month_length b d m"
    using v(1) by (simp_all add: valid_count_def)
  have c: "y = 100 * b + d - 4800 + m div 10" "mon = m + 2 - 12 * (m div 10)" "day = k + 1"
    using v(3) by (simp_all add: civil_def)
  show "0 \<le> mon" "mon \<le> 11" using c(2) month_cases [OF r(4,5)] by auto
  show "1 \<le> day" using c(3) r(6) by simp
  show "day \<le> 31" using c(3) r(7) by (simp add: month_length_def split: if_splits)
  have "1970 \<le> fst (day_date n)"
  proof (induction n)
    case (Suc n)
    then show ?case by (auto simp: next_day_def split: prod.splits)
  qed simp
  then show "1970 \<le> y" using assms by simp
  have "0 \<le> (153 * m + 2) div 5" "0 \<le> b div 4" "0 \<le> d div 4" using r(1,2,4) by simp_all
  moreover have "36524 * b + b div 4 + 365 * d + d div 4 + (153 * m + 2) div 5 + k = int n + 2472632"
    using v(2) by (simp add: count_days_def)
  moreover have "m div 10 \<le> 1" using r(5) by simp
  ultimately show "y < 10000" if "n < 2000000" using that c(1) r(2,3,6) by simp
qed

subsection \<open>formatTime\<close>

text \<open>
  What the C library prints of a number from 0 on with \<open>%0wd\<close>, and of a time with
  \<open>%Y-%m-%d %H:%M:%S\<close>.
\<close>

definition padded :: "nat \<Rightarrow> int \<Rightarrow> string" where
  "padded w n = (let ds = rev (decimals (nat n)) in replicate (w - length ds) CHR ''0'' @ ds)"

definition strftime :: "tm \<Rightarrow> string" where
  "strftime r = padded 1 (tm_year r + 1900) @ ''-'' @ padded 2 (tm_mon r + 1) @ ''-'' @ padded 2 (tm_mday r) @
     '' '' @ padded 2 (tm_hour r) @ '':'' @ padded 2 (tm_min r) @ '':'' @ padded 2 (tm_sec r)"

text \<open>
  The variables of a thread that \<open>formatTime\<close> uses. \<open>t_formatTime\<close> is a zeroed array at first;
  its value here is the string it holds, up to the first null character.
\<close>

record time_cache =
  t_formatTime :: string
  t_lastSecs :: int
  t_needFlush :: bool

definition time_cache_init :: time_cache where
  "time_cache_init = \<lparr>t_formatTime = [], t_lastSecs = 0, t_needFlush = False\<rparr>"

text \<open>
  \<open>full\<close>: the buffer level is \<open>kFullBuffer\<close>; \<open>micros\<close>: the clock. The second branch prints
  six digits at offset 20; behind the null character of a shorter string they do not show.
\<close>

definition formatTime :: "bool \<Rightarrow> int \<Rightarrow> time_cache \<Rightarrow> (string \<times> time_cache) res" where
  "formatTime full micros c =
     (let secs = micros sdiv 1000000; us = micros smod 1000000 in
      if secs \<noteq> t_lastSecs c then
        let flush = (if t_lastSecs c \<noteq> 0 \<and> full then True else t_needFlush c) in
        bindR (FastSecondToDate secs 8) (\<lambda>tm.
          let s = strftime tm @ ''.'' @ padded 6 us in
          Inr (s, \<lparr>t_formatTime = s, t_lastSecs = secs, t_needFlush = flush\<rparr>))
      else
        let s = (if length (t_formatTime c) < 20 then t_formatTime c
                 else take 20 (t_formatTime c) @ padded 6 us) in
        Inr (s, c\<lparr>t_formatTime := s\<rparr>))"

text \<open>The text of an instant in the time zone UTC+8, by the calendar.\<close>

definition second_text :: "int \<Rightarrow> string" where
  "second_text secs =
     (let z = secs + 28800; (y, mon, day) = day_date (nat (z div 86400)); s = z mod 86400 in
      padded 1 y @ ''-'' @ padded 2 (mon + 1) @ ''-'' @ padded 2 day @ '' '' @
      padded 2 (s div 3600) @ '':'' @ padded 2 (s div 60 mod 60) @ '':'' @ padded 2 (s mod 60))"

definition instant_text :: "int \<Rightarrow> string" where
  "instant_text micros = second_text (micros div 1000000) @ ''.'' @ padded 6 (micros mod 1000000)"

lemma length_decimals: "n < 10 ^ w \<Longrightarrow> 0 < w \<Longrightarrow> length (decimals n) \<le> w"
proof (induction w arbitrary: n)
  case (Suc w)
  show ?case
  proof (cases "n < 10")
    case False
    then have "w \<noteq> 0" using Suc.prems(1) by (cases w) auto
    moreover have "n div 10 < 10 ^ w" using Suc.prems(1) by (simp add: div_less_iff_less_mult mult.commute)
    ultimately show ?thesis using Suc.IH [of "n div 10"] by (subst decimals.simps) simp
  qed (simp add: decimals.simps)
qed simp

lemma length_padded: "0 \<le> n \<Longrightarrow> n < 10 ^ w \<Longrightarrow> 0 < w \<Longrightarrow> length (padded w n) = w"
proof -
  assume n: "0 \<le> n" "n < 10 ^ w" "0 < w"
  have "nat n < 10 ^ w" using n(1,2) by (metis nat_less_numeral_power_cancel_iff nat_less_iff of_nat_numeral of_nat_power)
  from length_decimals [OF this n(3)] show ?thesis by (simp add: padded_def Let_def)
qed

lemma length_padded_year: "1000 \<le> n \<Longrightarrow> n < 10000 \<Longrightarrow> length (padded 1 n) = 4"
proof -
  assume n: "1000 \<le> n" "n < 10000"
  define N where "N = nat n"
  have N: "1000 \<le> N" "N < 10000" using n by (auto simp: N_def)
  then have "\<not> N < 10" "\<not> N div 10 < 10" "\<not> N div 100 < 10" "N div 1000 < 10" by auto
  then have "length (decimals N) = 4"
    by (simp add: decimals.simps div_mult2_eq [symmetric])
  then have "length (decimals (nat n)) = 4" by (simp add: N_def)
  then show ?thesis by (simp add: padded_def Let_def)
qed

text \<open>The seconds the code handles: the number of minutes fits an \<open>int\<close>.\<close>

definition second_ok :: "int \<Rightarrow> bool" where
  "second_ok secs \<longleftrightarrow> 1 \<le> secs \<and> secs div 60 < 2 ^ 31"

lemma zone_arith:
  fixes t :: int
  shows "(t div 3600 + 8) div 24 = (t + 28800) div 86400"
    "(t div 3600 + 8) mod 24 = (t + 28800) mod 86400 div 3600"
    "t div 60 mod 60 = (t + 28800) mod 86400 div 60 mod 60"
    "t mod 60 = (t + 28800) mod 86400 mod 60"
proof -
  have h: "(t + 28800) div 3600 = t div 3600 + 8" using div_mult_self1 [of 3600 t 8] by simp
  show "(t div 3600 + 8) div 24 = (t + 28800) div 86400"
    unfolding h [symmetric] by (simp add: zdiv_zmult2_eq [symmetric])
  have "(t + 28800) mod 86400 = 3600 * ((t div 3600 + 8) mod 24) + (t + 28800) mod 3600"
    using zmod_zmult2_eq [of 24 "t + 28800" 3600] h by simp
  moreover have "0 \<le> (t + 28800) mod 3600" "(t + 28800) mod 3600 < 3600" by simp_all
  ultimately show "(t div 3600 + 8) mod 24 = (t + 28800) mod 86400 div 3600"
    using div_eqI [of "(t + 28800) mod 86400" "(t div 3600 + 8) mod 24" 3600 "(t + 28800) mod 3600"]
    by (simp add: mult.commute)
  have m: "(t + 28800) div 60 = t div 60 + 480" using div_mult_self1 [of 60 t 480] by simp
  have "(t + 28800) mod 86400 = 60 * ((t div 60 + 480) mod 1440) + (t + 28800) mod 60"
    using zmod_zmult2_eq [of 1440 "t + 28800" 60] m by simp
  then have "(t + 28800) mod 86400 div 60 = (t div 60 + 480) mod 1440"
    using div_eqI [of "(t + 28800) mod 86400" "(t div 60 + 480) mod 1440" 60 "(t + 28800) mod 60"]
    by (simp add: mult.commute)
  moreover have "(t div 60 + 480) mod 1440 mod 60 = (t div 60 + 480) mod 60"
    by (rule mod_mod_cancel) simp
  moreover have "(t div 60 + 480) mod 60 = t div 60 mod 60"
    using mod_mult_self1 [of "t div 60" 8 60] by simp
  ultimately show "t div 60 mod 60 = (t + 28800) mod 86400 div 60 mod 60" by simp
  have "(t + 28800) mod 86400 mod 60 = (t + 28800) mod 60" by (rule mod_mod_cancel) simp
  moreover have "(t + 28800) mod 60 = t mod 60" using mod_mult_self1 [of t 480 60] by simp
  ultimately show "t mod 60 = (t + 28800) mod 86400 mod 60" by simp
qed

lemma strftime_second:
  assumes "second_ok secs"
  shows "\<exists>r. FastSecondToDate secs 8 = Inr r \<and> strftime r = second_text secs"
    "length (second_text secs) = 19"
proof -
  have t: "0 \<le> secs" "secs div 60 < 2 ^ 31" using assms by (simp_all add: second_ok_def)
  have "secs div 3600 = secs div 60 div 60" using t(1) by (simp add: zdiv_zmult2_eq [symmetric])
  also have "\<dots> \<le> 2 ^ 31 div 60" using t(2) by (intro zdiv_mono1) simp_all
  finally have hours: "0 \<le> secs div 3600 + 8" "secs div 3600 + 8 < 36000000" using t(1) by simp_all
  then have small: "secs div 3600 + 8 < 2 ^ 31" by simp
  obtain y mon day where date: "day_date (nat ((secs + 28800) div 86400)) = (y, mon, day)"
    by (metis prod_cases3)
  obtain r where r: "FastSecondToDate secs 8 = Inr r"
    "(tm_year r + 1900, tm_mon r, tm_mday r) = day_date (nat ((secs div 3600 + 8) div 24))"
    "tm_hour r = (secs div 3600 + 8) mod 24" "tm_min r = secs div 60 mod 60" "tm_sec r = secs mod 60"
    using FastSecondToDate_fields [OF t hours(1) small] by (elim exE conjE)
  have ymd: "tm_year r + 1900 = y" "tm_mon r = mon" "tm_mday r = day"
    using r(2) date zone_arith(1) [of secs] by simp_all
  have hms: "tm_hour r = (secs + 28800) mod 86400 div 3600" "tm_min r = (secs + 28800) mod 86400 div 60 mod 60"
    "tm_sec r = (secs + 28800) mod 86400 mod 60"
    by (rule trans [OF r(3) zone_arith(2)] trans [OF r(4) zone_arith(3)] trans [OF r(5) zone_arith(4)])+
  have "strftime r = second_text secs"
    unfolding strftime_def second_text_def Let_def date prod.case ymd hms ..
  with r(1) show "\<exists>r. FastSecondToDate secs 8 = Inr r \<and> strftime r = second_text secs" by blast
  have "(secs + 28800) div 86400 < 2000000"
    unfolding zone_arith(1) [of secs, symmetric] using hours by simp
  then have n: "nat ((secs + 28800) div 86400) < 2000000" using t(1) by simp
  note ranges = day_date_ranges [OF date]
  have z: "0 \<le> (secs + 28800) mod 86400" "(secs + 28800) mod 86400 < 86400" by simp_all
  then have hour: "0 \<le> (secs + 28800) mod 86400 div 3600" "(secs + 28800) mod 86400 div 3600 < 24" by auto
  have "length (padded 1 y) = 4" using ranges(1) ranges(6) [OF n] by (intro length_padded_year) simp_all
  moreover have "length (padded 2 (mon + 1)) = 2" using ranges(2,3) by (intro length_padded) simp_all
  moreover have "length (padded 2 day) = 2" using ranges(4,5) by (intro length_padded) simp_all
  moreover have "length (padded 2 ((secs + 28800) mod 86400 div 3600)) = 2"
    using hour by (intro length_padded) simp_all
  moreover have "length (padded 2 ((secs + 28800) mod 86400 div 60 mod 60)) = 2"
    "length (padded 2 ((secs + 28800) mod 86400 mod 60)) = 2"
    by (intro length_padded; simp add: order.strict_trans [OF pos_mod_bound])+
  ultimately show "length (second_text secs) = 19"
    unfolding second_text_def Let_def date prod.case by (simp only: length_append list.size)
qed

lemma FastSecondToDate_day_length:
  assumes "second_ok secs" "FastSecondToDate secs 8 = Inr r"
  shows "length (padded 1 (tm_year r + 1900) @ ''-'' @ padded 2 (tm_mon r + 1) @ ''-'' @ padded 2 (tm_mday r)) = 10"
proof -
  have t: "0 \<le> secs" "secs div 60 < 2 ^ 31" using assms(1) by (simp_all add: second_ok_def)
  have "secs div 3600 = secs div 60 div 60" using t(1) by (simp add: zdiv_zmult2_eq [symmetric])
  also have "\<dots> \<le> 2 ^ 31 div 60" using t(2) by (intro zdiv_mono1) simp_all
  finally have hours: "0 \<le> secs div 3600 + 8" "secs div 3600 + 8 < 36000000" using t(1) by simp_all
  then have small: "secs div 3600 + 8 < 2 ^ 31" by simp
  obtain r' where "FastSecondToDate secs 8 = Inr r'"
    "(tm_year r' + 1900, tm_mon r', tm_mday r') = day_date (nat ((secs div 3600 + 8) div 24))"
    using FastSecondToDate_fields [OF t hours(1) small] by (elim exE conjE)
  with assms(2) have "day_date (nat ((secs div 3600 + 8) div 24)) = (tm_year r + 1900, tm_mon r, tm_mday r)"
    by simp
  note ranges = day_date_ranges [OF this]
  have "nat ((secs div 3600 + 8) div 24) < 2000000" using hours by simp
  then have "length (padded 1 (tm_year r + 1900)) = 4" using ranges(1,6) by (intro length_padded_year) simp_all
  moreover have "length (padded 2 (tm_mon r + 1)) = 2" using ranges(2,3) by (intro length_padded) simp_all
  moreover have "length (padded 2 (tm_mday r)) = 2" using ranges(4,5) by (intro length_padded) simp_all
  ultimately show ?thesis by (simp only: length_append list.size)
qed

text \<open>What the variables of a thread hold between two calls.\<close>

definition cache_ok :: "time_cache \<Rightarrow> bool" where
  "cache_ok c \<longleftrightarrow> t_lastSecs c = 0 \<or>
     second_ok (t_lastSecs c) \<and> (\<exists>us. t_formatTime c = second_text (t_lastSecs c) @ ''.'' @ us)"

lemma formatTime_step:
  assumes "cache_ok c" "second_ok (micros div 1000000)"
  shows "\<exists>c'. formatTime full micros c = Inr (instant_text micros, c') \<and> cache_ok c' \<and>
    t_lastSecs c' = micros div 1000000 \<and>
    t_needFlush c' = (t_needFlush c \<or> full \<and> t_lastSecs c \<noteq> 0 \<and> t_lastSecs c \<noteq> micros div 1000000)"
proof -
  let ?s = "micros div 1000000" and ?u = "micros mod 1000000"
  have "0 \<le> micros" using assms(2) pos_imp_zdiv_nonneg_iff [of 1000000 micros] by (simp add: second_ok_def)
  then have div: "micros sdiv 1000000 = ?s" "micros smod 1000000 = ?u" by simp_all
  obtain r where r: "FastSecondToDate ?s 8 = Inr r" "strftime r = second_text ?s"
    using strftime_second(1) [OF assms(2)] by blast
  have pos: "?s \<noteq> 0" using assms(2) by (simp add: second_ok_def)
  show ?thesis
  proof (cases "?s = t_lastSecs c")
    case False
    let ?t = "second_text ?s @ ''.'' @ padded 6 ?u"
    let ?c = "\<lparr>t_formatTime = ?t, t_lastSecs = ?s,
        t_needFlush = (if t_lastSecs c \<noteq> 0 \<and> full then True else t_needFlush c)\<rparr>"
    have "formatTime full micros c = Inr (?t, ?c)"
      unfolding formatTime_def Let_def div if_P [OF False] r(1) by (simp add: r(2))
    moreover have "cache_ok ?c" using assms(2) by (auto simp: cache_ok_def)
    moreover have "?t = instant_text micros" by (simp add: instant_text_def)
    ultimately show ?thesis using False by (intro exI [of _ ?c]) auto
  next
    case True
    then obtain us where us: "t_formatTime c = (second_text ?s @ ''.'') @ us"
      using assms(1) pos by (auto simp: cache_ok_def)
    have len: "length (second_text ?s @ ''.'') = 20" using strftime_second(2) [OF assms(2)] by simp
    have "take 20 (t_formatTime c) = second_text ?s @ ''.''"
      unfolding us using len by (metis append_eq_conv_conj)
    moreover have "\<not> length (t_formatTime c) < 20"
      using len unfolding us length_append [of _ us] by linarith
    ultimately have "formatTime full micros c =
      Inr (second_text ?s @ ''.'' @ padded 6 ?u, c\<lparr>t_formatTime := second_text ?s @ ''.'' @ padded 6 ?u\<rparr>)"
      unfolding formatTime_def Let_def div using True by simp
    with assms(2) True show ?thesis by (auto simp: cache_ok_def instant_text_def)
  qed
qed

subsection \<open>Properties\<close>

text \<open>
  C26: \<open>FastSecondToDate\<close> agrees with the Gregorian calendar counted day by day from the first of
  January 1970, leap years and centuries included, and with the time of day, in every time zone,
  for all seconds from 1970 on whose number of minutes fits an \<open>int\<close> (up to the year 6053).
\<close>

theorem FastSecondToDate_calendar:
  assumes "0 \<le> t" "t div 60 < 2 ^ 31" "0 \<le> t div 3600 + tz" "t div 3600 + tz < 2 ^ 31"
  shows "\<exists>r. FastSecondToDate t tz = Inr r \<and>
    (tm_year r + 1900, tm_mon r, tm_mday r) = day_date (nat ((t div 3600 + tz) div 24)) \<and>
    tm_hour r = (t div 3600 + tz) mod 24 \<and> tm_min r = t div 60 mod 60 \<and> tm_sec r = t mod 60"
  by (rule FastSecondToDate_fields [OF assms])

theorem FastSecondToDate_calendar_witness:
  "\<exists>r. FastSecondToDate 5155199 8 = Inr r \<and> tm_year r = 70 \<and> tm_mon r = 2 \<and> tm_mday r = 1 \<and>
     tm_hour r = 23 \<and> tm_min r = 59 \<and> tm_sec r = 59"
proof -
  have "nat 59 = (59 :: nat)" "day_date 59 = (1970, 2, 1)"
    by (simp, code_simp)
  then show ?thesis
    using FastSecondToDate_calendar [of 5155199 8] by auto
qed

text \<open>The texts a thread gets when it calls \<open>formatTime\<close> at the given instants.\<close>

fun stamps :: "bool \<Rightarrow> int list \<Rightarrow> time_cache \<Rightarrow> (string list \<times> time_cache) res" where
  "stamps full [] c = Inr ([], c)"
| "stamps full (t # ts) c =
     bindR (formatTime full t c) (\<lambda>(s, c1). bindR (stamps full ts c1) (\<lambda>(ss, c2). Inr (s # ss, c2)))"

lemma stamps_from:
  "cache_ok c \<Longrightarrow> \<forall>t \<in> set ts. second_ok (t div 1000000) \<Longrightarrow>
   \<exists>c'. stamps full ts c = Inr (map instant_text ts, c')"
proof (induction ts arbitrary: c)
  case (Cons t ts)
  from formatTime_step [OF Cons.prems(1), of t full] Cons.prems(2) obtain c1 where
    "formatTime full t c = Inr (instant_text t, c1)" "cache_ok c1" by auto
  with Cons.IH [of c1] Cons.prems(2) show ?case by auto
qed simp

text \<open>
  Every time stamp a thread makes shows the instant it is made at, in the calendar, to the
  microsecond: the cache of the text of the last second is never stale, whether the clock goes
  on, stands still or is set back.
\<close>

theorem formatTime_fresh:
  assumes "\<forall>t \<in> set ts. second_ok (t div 1000000)"
  shows "\<exists>c. stamps full ts time_cache_init = Inr (map instant_text ts, c)"
  using stamps_from [OF _ assms] by (simp add: cache_ok_def time_cache_init_def)

theorem formatTime_fresh_witness:
  "\<exists>c. stamps True [1000000, 1000007, 61000000] time_cache_init =
     Inr ([''1970-01-01 08:00:01.000000'', ''1970-01-01 08:00:01.000007'', ''1970-01-01 08:01:01.000000''], c)"
proof -
  have "map instant_text [1000000, 1000007, 61000000] =
    [''1970-01-01 08:00:01.000000'', ''1970-01-01 08:00:01.000007'', ''1970-01-01 08:01:01.000000'']"
    by code_simp
  then show ?thesis
    using formatTime_fresh [of "[1000000, 1000007, 61000000]" True] by (simp add: second_ok_def)
qed

end
