(* ===== verification/LogStream.thy ===== *)
theory LogStream
  imports DateTime
begin

text \<open>
  The front end of the log, \<open>LogStream\<close> of \<open>log/logStream.h\<close> and \<open>log/logStream.cpp\<close>: every
  thread has one, with a buffer that \<open>append\<close> fills and that is passed to the output function
  in pieces. The state holds the bytes of \<open>_buf\<close> up to \<open>_cur\<close>, the offset of \<open>_end\<close>, the
  variables of the thread that \<open>formatTime\<close> uses, and the arguments of the calls of the output
  function so far. The flush function has no effect on it.
\<close>

subsection \<open>State\<close>

definition kBufferSize :: nat where
  "kBufferSize = 1000 * 100"

definition kFullBuffer :: int where
  "kFullBuffer = 0"

definition kLineBuffer :: int where
  "kLineBuffer = 1"

record logstream =
  ls_buf :: string
  ls_end :: int
  ls_time :: time_cache
  ls_out :: "string list"

definition LogStream_new :: logstream where
  "LogStream_new = \<lparr>ls_buf = [], ls_end = 0, ls_time = time_cache_init, ls_out = []\<rparr>"

datatype level = NONE | TRACE | INFO | DEBUG | WARN | ERROR | FATAL

fun level_name :: "level \<Rightarrow> string" where
  "level_name NONE = ''NONE''"
| "level_name TRACE = ''TRACE''"
| "level_name INFO = ''INFO''"
| "level_name DEBUG = ''DEBUG''"
| "level_name WARN = ''WARN''"
| "level_name ERROR = ''ERROR''"
| "level_name FATAL = ''FATAL''"

subsection \<open>The buffer\<close>

abbreviation newline :: char where
  "newline \<equiv> CHR 0x0A"

text \<open>\<open>flush\<close> passes on \<open>_end - _buf\<close> bytes; a negative number is a huge one to the output.\<close>

definition LogStream_flush :: "logstream \<Rightarrow> logstream res" where
  "LogStream_flush s =
     (if ls_end s < 0 then Inl OutOfBounds
      else if ls_end s > int (length (ls_buf s)) then Inl UninitRead
      else Inr (s\<lparr>ls_out := ls_out s @ [take (nat (ls_end s)) (ls_buf s)]\<rparr>))"

definition LogStream_avail :: "logstream \<Rightarrow> int" where
  "LogStream_avail s = int kBufferSize - int (length (ls_buf s))"

text \<open>The backward search for a newline: its offset, or -1 when it runs past the start.\<close>

fun scan_newline :: "string \<Rightarrow> nat \<Rightarrow> int" where
  "scan_newline b 0 = -1"
| "scan_newline b (Suc i) = (if b ! i = newline then int i else scan_newline b i)"

definition flushLine :: "int \<Rightarrow> logstream \<Rightarrow> logstream" where
  "flushLine ppos s =
     (if ppos \<noteq> 0 then
        let p = ppos + 1 in
        s\<lparr>ls_out := ls_out s @ [take (nat p) (ls_buf s)],
          ls_buf := drop (nat p) (ls_buf s), ls_end := ls_end s - p\<rparr>
      else s)"

text \<open>
  \<open>append\<close> calls itself again after making room; \<open>None\<close>: it never ends. \<open>level\<close> is the
  buffer level of the logger.
\<close>

partial_function (option) LogStream_append :: "int \<Rightarrow> string \<Rightarrow> logstream \<Rightarrow> logstream res option" where
  "LogStream_append level p s =
     (if LogStream_avail s > int (length p) then
        let s1 = s\<lparr>ls_buf := ls_buf s @ p\<rparr> in
        Some (Inr (if level = kLineBuffer
                   then flushLine (scan_newline (ls_buf s1) (length (ls_buf s1))) s1 else s1))
      else case LogStream_flush s of
        Inl e \<Rightarrow> Some (Inl e)
      | Inr s1 \<Rightarrow> LogStream_append level p
          (s1\<lparr>ls_buf := drop (nat (ls_end s1)) (ls_buf s1), ls_end := 0\<rparr>))"

subsection \<open>What is logged\<close>

text \<open>The string a \<open>const char*\<close> stands for ends at the first null character.\<close>

definition c_str :: "string \<Rightarrow> string" where
  "c_str s = takeWhile (\<lambda>c. c \<noteq> CHR 0x00) s"

text \<open>
  The types \<open>operator<<\<close> takes; every integer type goes through \<open>formatInteger\<close>. \<open>LInt\<close> holds
  the value of an \<open>int\<close>, the others the bits of theirs.
\<close>

datatype log_arg =
    LBool bool
  | LShort "16 word"
  | LUshort "16 word"
  | LInt int
  | LUint "32 word"
  | LLong "64 word"
  | LUlong "64 word"
  | LLlong "64 word"
  | LUllong "64 word"
  | LPtr "64 word"
  | LChar char
  | LCstr "string option"   \<comment> \<open>\<open>None\<close>: a null pointer\<close>
  | LString string

definition put_cstr :: "int \<Rightarrow> string option \<Rightarrow> logstream \<Rightarrow> logstream res option" where
  "put_cstr level str s =
     (case str of Some t \<Rightarrow> LogStream_append level (c_str t) s | None \<Rightarrow> LogStream_append level ''(null)'' s)"

definition put_int :: "int \<Rightarrow> int \<Rightarrow> logstream \<Rightarrow> logstream res option" where
  "put_int level v s = bindO (Some (formatInteger v)) (\<lambda>t. put_cstr level (Some t) s)"

definition put_uint :: "int \<Rightarrow> 32 word \<Rightarrow> logstream \<Rightarrow> logstream res option" where
  "put_uint level v s = bindO (Some (formatInteger (uint v))) (\<lambda>t. put_cstr level (Some t) s)"

definition put_short :: "int \<Rightarrow> 16 word \<Rightarrow> logstream \<Rightarrow> logstream res option" where
  "put_short level v s = put_int level (sint v) s"

definition put_ushort :: "int \<Rightarrow> 16 word \<Rightarrow> logstream \<Rightarrow> logstream res option" where
  "put_ushort level v s = put_uint level (ucast v) s"

definition put_long :: "int \<Rightarrow> 64 word \<Rightarrow> logstream \<Rightarrow> logstream res option" where
  "put_long level v s = bindO (Some (formatInteger (sint v))) (\<lambda>t. put_cstr level (Some t) s)"

definition put_ulong :: "int \<Rightarrow> 64 word \<Rightarrow> logstream \<Rightarrow> logstream res option" where
  "put_ulong level v s = bindO (Some (formatInteger (uint v))) (\<lambda>t. put_cstr level (Some t) s)"

definition put_llong :: "int \<Rightarrow> 64 word \<Rightarrow> logstream \<Rightarrow> logstream res option" where
  "put_llong level v s = bindO (Some (formatInteger (sint v))) (\<lambda>t. put_cstr level (Some t) s)"

definition put_ullong :: "int \<Rightarrow> 64 word \<Rightarrow> logstream \<Rightarrow> logstream res option" where
  "put_ullong level v s = bindO (Some (formatInteger (uint v))) (\<lambda>t. put_cstr level (Some t) s)"

definition put_ptr :: "int \<Rightarrow> 64 word \<Rightarrow> logstream \<Rightarrow> logstream res option" where
  "put_ptr level pv s = put_cstr level (Some (formatHex pv)) s"

lemmas put_defs = put_cstr_def put_int_def put_uint_def put_short_def put_ushort_def put_long_def
  put_ulong_def put_llong_def put_ullong_def put_ptr_def

fun LogStream_put :: "int \<Rightarrow> log_arg \<Rightarrow> logstream \<Rightarrow> logstream res option" where
  "LogStream_put level (LBool v) s = LogStream_append level (if v then ''T'' else ''F'') s"
| "LogStream_put level (LShort v) s = put_short level v s"
| "LogStream_put level (LUshort v) s = put_ushort level v s"
| "LogStream_put level (LInt v) s = put_int level v s"
| "LogStream_put level (LUint v) s = put_uint level v s"
| "LogStream_put level (LLong v) s = put_long level v s"
| "LogStream_put level (LUlong v) s = put_ulong level v s"
| "LogStream_put level (LLlong v) s = put_llong level v s"
| "LogStream_put level (LUllong v) s = put_ullong level v s"
| "LogStream_put level (LPtr pv) s = put_ptr level pv s"
| "LogStream_put level (LChar v) s = LogStream_append level [v] s"
| "LogStream_put level (LCstr str) s = put_cstr level str s"
| "LogStream_put level (LString str) s = put_cstr level (Some (c_str str)) s"

fun puts_log :: "int \<Rightarrow> log_arg list \<Rightarrow> logstream \<Rightarrow> logstream res option" where
  "puts_log level [] s = Some (Inr s)"
| "puts_log level (x # xs) s = bindO (LogStream_put level x s) (puts_log level xs)"

subsection \<open>makeLog\<close>

definition makeLog :: "int \<Rightarrow> int \<Rightarrow> int \<Rightarrow> string \<Rightarrow> int \<Rightarrow> level \<Rightarrow> logstream \<Rightarrow> logstream res option" where
  "makeLog blevel micros tid filename line lev s =
     (let s1 = s\<lparr>ls_end := int (length (ls_buf s))\<rparr> in
      bindO (Some (if t_needFlush (ls_time s1)
                   then bindR (LogStream_flush s1) (\<lambda>s2.
                     Inr (s2\<lparr>ls_buf := [], ls_end := 0, ls_time := (ls_time s2)\<lparr>t_needFlush := False\<rparr>\<rparr>))
                   else Inr s1)) (\<lambda>s2.
      bindO (Some (formatTime (blevel = kFullBuffer) micros (ls_time s2))) (\<lambda>(time, c).
      puts_log blevel
        [LCstr (Some time), LChar CHR '' '', LInt tid, LChar CHR '' '', LCstr (Some (level_name lev)),
         LChar CHR '' '', LCstr (Some filename), LChar CHR '':'', LInt line, LCstr (Some '' - '')]
        (s2\<lparr>ls_time := c\<rparr>))))"

definition makeLog_func ::
  "int \<Rightarrow> int \<Rightarrow> int \<Rightarrow> string \<Rightarrow> int \<Rightarrow> level \<Rightarrow> string \<Rightarrow> logstream \<Rightarrow> logstream res option" where
  "makeLog_func blevel micros tid filename line lev func s =
     bindO (makeLog blevel micros tid filename line lev s) (\<lambda>s1.
     if length (ls_buf s1) < 3 then Some (Inl OutOfBounds)
     else puts_log blevel [LChar CHR '' '', LCstr (Some func), LCstr (Some '' - '')]
            (s1\<lparr>ls_buf := take (length (ls_buf s1) - 3) (ls_buf s1)\<rparr>))"

text \<open>The destructor.\<close>

definition LogStream_destroy :: "logstream \<Rightarrow> string list res" where
  "LogStream_destroy s =
     bindR (LogStream_flush (s\<lparr>ls_end := int (length (ls_buf s))\<rparr>)) (\<lambda>s1. Inr (ls_out s1))"

subsection \<open>What the buffer keeps\<close>

text \<open>
  \<open>stream_inv s ds r\<close>: \<open>ds\<close> are the complete records written so far and \<open>r\<close> what there is of the
  current one. What was passed on and what is in the buffer make up all of it; \<open>_end\<close> is where
  \<open>r\<close> begins, or lies before the buffer when a newline in \<open>r\<close> made its first part leave.
\<close>

definition stream_inv :: "logstream \<Rightarrow> string list \<Rightarrow> string \<Rightarrow> bool" where
  "stream_inv s ds r \<longleftrightarrow>
     concat (ls_out s) @ ls_buf s = concat ds @ r \<and>
     (if 0 \<le> ls_end s then ls_end s \<le> int (length (ls_buf s)) \<and> drop (nat (ls_end s)) (ls_buf s) = r
      else \<exists>xs. r = xs @ ls_buf s)"

text \<open>
  With the full buffer level every message passed on ends at the end of a record: the text of the
  first \<open>k\<close> messages is that of the first so many records.
\<close>

definition whole_messages :: "string list \<Rightarrow> string list \<Rightarrow> bool" where
  "whole_messages outs ds \<longleftrightarrow> (\<forall>k. \<exists>n \<le> length ds. concat (take k outs) = concat (take n ds))"

definition whole_records :: "logstream \<Rightarrow> string list \<Rightarrow> bool" where
  "whole_records s ds \<longleftrightarrow> 0 \<le> ls_end s \<and> whole_messages (ls_out s) ds"

lemma whole_messages_snoc:
  assumes "whole_messages outs ds" "concat (outs @ [m]) = concat ds"
  shows "whole_messages (outs @ [m]) ds"
  unfolding whole_messages_def
proof
  fix k
  show "\<exists>n \<le> length ds. concat (take k (outs @ [m])) = concat (take n ds)"
  proof (cases "k \<le> length outs")
    case True
    then show ?thesis using assms(1) by (simp add: whole_messages_def)
  next
    case False
    then have "take k (outs @ [m]) = outs @ [m]" by simp
    with assms(2) show ?thesis by (intro exI [of _ "length ds"]) (simp only: take_all order_refl simp_thms)
  qed
qed

lemma whole_messages_more: "whole_messages outs ds \<Longrightarrow> whole_messages outs (ds @ [r])"
  unfolding whole_messages_def by (metis le_SucI length_append_singleton take_append append_Nil2 diff_is_0_eq take0)

text \<open>With the line buffer level a newline stays in the buffer only at its first position.\<close>

definition lines_out :: "logstream \<Rightarrow> bool" where
  "lines_out s \<longleftrightarrow> newline \<notin> set (tl (ls_buf s))"

lemma stream_inv_time [simp]: "stream_inv (s\<lparr>ls_time := c\<rparr>) ds r = stream_inv s ds r"
  by (simp add: stream_inv_def)

lemma scan_newline_less: "scan_newline b n < int n"
  by (induction n) auto

lemma scan_newline_ge: "-1 \<le> scan_newline b n"
  by (induction n) auto

lemma scan_newline_after:
  "n \<le> length b \<Longrightarrow> newline \<notin> set (drop (nat (scan_newline b n + 1)) (take n b))"
proof (induction n)
  case (Suc n)
  show ?case
  proof (cases "b ! n = newline")
    case False
    have "take (Suc n) b = take n b @ [b ! n]" using Suc.prems by (simp add: take_Suc_conv_app_nth)
    moreover have "nat (scan_newline b n + 1) - n = 0" using scan_newline_less [of b n] by simp
    ultimately show ?thesis using Suc False by auto
  qed (use Suc.prems in simp)
qed simp

lemma scan_newline_keeps:
  assumes "newline \<notin> set q" "n = length p + length q"
  shows "scan_newline (p @ q) n < int (length p)"
  using assms
proof (induction q arbitrary: n rule: rev_induct)
  case Nil
  then show ?case using scan_newline_less [of p "length p"] by simp
next
  case (snoc c q)
  have "m \<le> length p + length q \<Longrightarrow> scan_newline (p @ q @ [c]) m = scan_newline (p @ q) m" for m
  proof (induction m)
    case (Suc m)
    then have "(p @ q @ [c]) ! m = (p @ q) ! m"
      using nth_append [of "p @ q" "[c]" m] by simp
    with Suc show ?case by simp
  qed simp
  then have "scan_newline (p @ q @ [c]) (length p + length q) = scan_newline (p @ q) (length p + length q)"
    by blast
  moreover have "(p @ q @ [c]) ! (length p + length q) = c" by (simp add: nth_append)
  ultimately show ?case using snoc by auto
qed

lemma flushLine_inv:
  assumes "stream_inv s ds r" "-1 \<le> pp" "pp < int (length (ls_buf s))"
  shows "stream_inv (flushLine pp s) ds r"
proof (cases "pp = 0")
  case False
  define p where "p = nat (pp + 1)"
  have p: "p \<le> length (ls_buf s)" "int p = pp + 1" using assms(2,3) by (auto simp: p_def)
  have after: "ls_buf (flushLine pp s) = drop p (ls_buf s)" "ls_end (flushLine pp s) = ls_end s - int p"
    "ls_out (flushLine pp s) = ls_out s @ [take p (ls_buf s)]"
    using False p(2) by (simp_all add: flushLine_def Let_def p_def)
  have out: "concat (ls_out (flushLine pp s)) @ ls_buf (flushLine pp s) = concat ds @ r"
    using assms(1) unfolding after by (simp add: stream_inv_def)
  show ?thesis
  proof (cases "0 \<le> ls_end s")
    case True
    then have e: "nat (ls_end s) \<le> length (ls_buf s)" "drop (nat (ls_end s)) (ls_buf s) = r"
      using assms(1) by (auto simp: stream_inv_def)
    show ?thesis
    proof (cases "int p \<le> ls_end s")
      case True
      then have "nat (ls_end s - int p) + p = nat (ls_end s)" by simp
      with e(2) have "drop (nat (ls_end s - int p)) (drop p (ls_buf s)) = r" by simp
      moreover have "ls_end s - int p \<le> int (length (drop p (ls_buf s)))" using e(1) p(1) True by simp
      ultimately show ?thesis using out True unfolding stream_inv_def after by simp
    next
      case below: False
      have "drop p (ls_buf s) = drop (p - nat (ls_end s)) r"
        using below unfolding e(2) [symmetric] by simp
      then have "r = take (p - nat (ls_end s)) r @ drop p (ls_buf s)" by simp
      moreover have "\<not> 0 \<le> ls_end s - int p" using below by simp
      ultimately show ?thesis using out unfolding stream_inv_def after by metis
    qed
  next
    case neg: False
    then obtain xs where "r = xs @ ls_buf s" using assms(1) by (auto simp: stream_inv_def)
    then have "r = (xs @ take p (ls_buf s)) @ drop p (ls_buf s)" by simp
    moreover have "\<not> 0 \<le> ls_end s - int p" using neg by simp
    ultimately show ?thesis using out unfolding stream_inv_def after by metis
  qed
qed (use assms(1) in \<open>simp add: flushLine_def\<close>)

text \<open>Appending to a buffer with room.\<close>

lemma append_room:
  assumes "stream_inv s ds r" "length (ls_buf s) + length p < kBufferSize"
  shows "\<exists>s'. LogStream_append level p s = Some (Inr s') \<and> stream_inv s' ds (r @ p) \<and>
    ls_time s' = ls_time s \<and> (level \<noteq> kLineBuffer \<longrightarrow> whole_records s ds \<longrightarrow> whole_records s' ds) \<and>
    (level = kLineBuffer \<longrightarrow> lines_out s') \<and> (newline \<notin> set p \<longrightarrow> (\<exists>ys. ls_buf s' = ys @ p))"
proof -
  let ?s1 = "s\<lparr>ls_buf := ls_buf s @ p\<rparr>"
  let ?pp = "scan_newline (ls_buf s @ p) (length (ls_buf s @ p))"
  let ?s' = "if level = kLineBuffer then flushLine ?pp ?s1 else ?s1"
  have run: "LogStream_append level p s = Some (Inr ?s')"
    using assms(2) by (subst LogStream_append.simps) (simp add: LogStream_avail_def)
  have inv1: "stream_inv ?s1 ds (r @ p)"
    using assms(1) by (auto simp: stream_inv_def split: if_splits)
  have "stream_inv (flushLine ?pp ?s1) ds (r @ p)"
    using scan_newline_less [of "ls_buf s @ p" "length (ls_buf s @ p)"]
    by (intro flushLine_inv [OF inv1 scan_newline_ge]) simp
  with inv1 have "stream_inv ?s' ds (r @ p)" by simp
  moreover have "ls_time ?s' = ls_time s" by (simp add: flushLine_def Let_def)
  moreover have "level \<noteq> kLineBuffer \<longrightarrow> whole_records s ds \<longrightarrow> whole_records ?s' ds"
    by (simp add: whole_records_def)
  moreover have "lines_out (flushLine ?pp ?s1)"
  proof (cases "?pp = 0")
    case True
    then show ?thesis using scan_newline_after [of "length (ls_buf s @ p)" "ls_buf s @ p"]
      by (simp add: flushLine_def lines_out_def drop_Suc del: drop_append)
  next
    case False
    have "newline \<notin> set (drop (nat (?pp + 1)) (ls_buf s @ p))"
      using scan_newline_after [of "length (ls_buf s @ p)" "ls_buf s @ p"] by simp
    with False show ?thesis
      by (cases "drop (nat (?pp + 1)) (ls_buf s @ p)")
        (auto simp: flushLine_def lines_out_def Let_def simp del: drop_append)
  qed
  moreover have "\<exists>ys. ls_buf (flushLine ?pp ?s1) = ys @ p" if "newline \<notin> set p"
  proof -
    have "?pp < int (length (ls_buf s))" using scan_newline_keeps [OF that] by simp
    then have "nat (?pp + 1) \<le> length (ls_buf s)" by simp
    then show ?thesis by (simp add: flushLine_def Let_def)
  qed
  ultimately show ?thesis using run by (intro exI [of _ ?s']) auto
qed

text \<open>Appending in general: \<open>append\<close> returns as long as the current record fits the buffer.\<close>

lemma append_ok:
  assumes "stream_inv s ds r" "length r + length p < kBufferSize"
  shows "\<exists>s'. LogStream_append level p s = Some (Inr s') \<and> stream_inv s' ds (r @ p) \<and>
    ls_time s' = ls_time s \<and> (level \<noteq> kLineBuffer \<longrightarrow> whole_records s ds \<longrightarrow> whole_records s' ds) \<and>
    (level = kLineBuffer \<longrightarrow> lines_out s') \<and> (newline \<notin> set p \<longrightarrow> (\<exists>ys. ls_buf s' = ys @ p))"
proof (cases "length (ls_buf s) + length p < kBufferSize")
  case True
  then show ?thesis by (rule append_room [OF assms(1)])
next
  case False
  have e: "0 \<le> ls_end s"
  proof (rule ccontr)
    assume "\<not> 0 \<le> ls_end s"
    then obtain xs where "r = xs @ ls_buf s" using assms(1) by (auto simp: stream_inv_def)
    then show False using False assms(2) by simp
  qed
  then have le: "ls_end s \<le> int (length (ls_buf s))" "drop (nat (ls_end s)) (ls_buf s) = r"
    using assms(1) by (auto simp: stream_inv_def)
  let ?s1 = "s\<lparr>ls_out := ls_out s @ [take (nat (ls_end s)) (ls_buf s)], ls_buf := r, ls_end := 0\<rparr>"
  have split: "concat (ls_out s) @ take (nat (ls_end s)) (ls_buf s) = concat ds"
    using assms(1) append_take_drop_id [of "nat (ls_end s)" "ls_buf s"] le(2)
    by (metis append_assoc append_same_eq stream_inv_def)
  have "LogStream_append level p s = LogStream_append level p ?s1"
    using False e le by (subst LogStream_append.simps) (simp add: LogStream_avail_def LogStream_flush_def)
  moreover have "stream_inv ?s1 ds r" using split by (simp add: stream_inv_def)
  moreover have "length (ls_buf ?s1) + length p < kBufferSize" using assms(2) by simp
  ultimately obtain s' where s': "LogStream_append level p s = Some (Inr s')" "stream_inv s' ds (r @ p)"
    "ls_time s' = ls_time ?s1" "level \<noteq> kLineBuffer \<longrightarrow> whole_records ?s1 ds \<longrightarrow> whole_records s' ds"
    "level = kLineBuffer \<longrightarrow> lines_out s'" "newline \<notin> set p \<longrightarrow> (\<exists>ys. ls_buf s' = ys @ p)"
    using append_room [of ?s1 ds r p level] by auto
  have "whole_records ?s1 ds" if "whole_records s ds"
    using split that whole_messages_snoc [of "ls_out s" ds] by (simp add: whole_records_def)
  with s' show ?thesis by (intro exI [of _ s']) simp
qed

text \<open>What one \<open>operator<<\<close> appends, and whether its argument can be printed at all.\<close>

fun arg_text :: "log_arg \<Rightarrow> string" where
  "arg_text (LBool v) = (if v then ''T'' else ''F'')"
| "arg_text (LShort v) = rev (decimals (nat (sint v)))"
| "arg_text (LUshort v) = rev (decimals (unat v))"
| "arg_text (LInt v) = rev (decimals (nat v))"
| "arg_text (LUint v) = rev (decimals (unat v))"
| "arg_text (LLong v) = rev (decimals (nat (sint v)))"
| "arg_text (LUlong v) = rev (decimals (unat v))"
| "arg_text (LLlong v) = rev (decimals (nat (sint v)))"
| "arg_text (LUllong v) = rev (decimals (unat v))"
| "arg_text (LPtr v) = formatHex v"
| "arg_text (LChar c) = [c]"
| "arg_text (LCstr t) = (case t of Some t \<Rightarrow> c_str t | None \<Rightarrow> ''(null)'')"
| "arg_text (LString t) = c_str t"

fun arg_ok :: "log_arg \<Rightarrow> bool" where
  "arg_ok (LShort v) \<longleftrightarrow> 0 \<le> sint v"
| "arg_ok (LInt v) \<longleftrightarrow> 0 \<le> v"
| "arg_ok (LLong v) \<longleftrightarrow> 0 \<le> sint v"
| "arg_ok (LLlong v) \<longleftrightarrow> 0 \<le> sint v"
| "arg_ok _ \<longleftrightarrow> True"

lemma c_str_id: "CHR 0x00 \<notin> set s \<Longrightarrow> c_str s = s"
  by (simp add: c_str_def takeWhile_eq_all_conv) metis

lemma hex_set: "set (hex_loop t []) \<subseteq> set hex_digits"
proof (induction t rule: less_induct)
  case (less t)
  show ?case
  proof (cases "t = 0")
    case False
    then have "t div 16 < t" by simp
    moreover have "hex_digits ! (t mod 16) \<in> set hex_digits" by (intro nth_mem) (simp add: hex_digits_def)
    ultimately show ?thesis using less hex_loop_step [OF False] by simp
  qed (simp add: hex_loop.simps [of 0])
qed

lemma printed_no_null: "CHR 0x00 \<notin> set (rev (decimals n))" "CHR 0x00 \<notin> set (formatHex v)"
  using decimals_set [of n] hex_set [of "unat v"]
  by (auto simp: digits_def hex_digits_def formatHex_def)

lemma c_str_c_str: "c_str (c_str s) = c_str s"
  by (simp add: c_str_def takeWhile_idem)

lemma put_signed: "0 \<le> v \<Longrightarrow> bindO (Some (formatInteger v)) f = f (rev (decimals (nat v)))"
  using formatInteger_nat [of "nat v"] by simp

lemma put_unsigned: "bindO (Some (formatInteger (uint v))) f = f (rev (decimals (unat v)))"
  using put_signed [of "uint v" f] by simp

lemma uint_ucast16: "uint (ucast (v :: 16 word) :: 32 word) = uint v"
proof -
  have "uint v < 2 ^ 32" using uint_lt2p [of v] by (simp add: order_less_le_trans)
  then show ?thesis by (simp add: unsigned_ucast_eq take_bit_int_eq_self)
qed

lemma unat_ucast16: "unat (ucast (v :: 16 word) :: 32 word) = unat v"
  using uint_ucast16 [of v] by (metis unat_eq_nat_uint)

lemma put_append: "arg_ok x \<Longrightarrow> LogStream_put level x s = LogStream_append level (arg_text x) s"
  by (cases x) (auto simp: put_defs put_signed put_unsigned c_str_c_str c_str_id [OF printed_no_null(1)]
      c_str_id [OF printed_no_null(2)]
      unat_ucast16 split: option.split)

text \<open>A row of \<open>operator<<\<close>. \<open>keeps\<close> bundles what each of them preserves.\<close>

definition keeps :: "int \<Rightarrow> logstream \<Rightarrow> logstream \<Rightarrow> string list \<Rightarrow> bool" where
  "keeps level s s' ds \<longleftrightarrow> ls_time s' = ls_time s \<and>
     (level \<noteq> kLineBuffer \<longrightarrow> whole_records s ds \<longrightarrow> whole_records s' ds) \<and>
     (level = kLineBuffer \<longrightarrow> lines_out s \<longrightarrow> lines_out s')"

lemma keeps_refl: "keeps level s s ds"
  by (simp add: keeps_def)

lemma keeps_trans: "keeps level s s1 ds \<Longrightarrow> keeps level s1 s2 ds \<Longrightarrow> keeps level s s2 ds"
  by (simp add: keeps_def)

lemma puts_ok:
  assumes "stream_inv s ds r" "\<forall>x \<in> set xs. arg_ok x"
    and "length r + length (concat (map arg_text xs)) < kBufferSize"
  shows "\<exists>s'. puts_log level xs s = Some (Inr s') \<and> stream_inv s' ds (r @ concat (map arg_text xs)) \<and>
    keeps level s s' ds \<and>
    (xs \<noteq> [] \<longrightarrow> newline \<notin> set (arg_text (last xs)) \<longrightarrow> (\<exists>ys. ls_buf s' = ys @ arg_text (last xs)))"
  using assms
proof (induction xs arbitrary: s r)
  case Nil
  then show ?case by (simp add: keeps_refl)
next
  case (Cons x xs)
  from append_ok [OF Cons.prems(1), of "arg_text x" level] Cons.prems(2,3) put_append [of x level s]
  obtain s1 where s1: "LogStream_put level x s = Some (Inr s1)" "stream_inv s1 ds (r @ arg_text x)"
    "keeps level s s1 ds" "newline \<notin> set (arg_text x) \<longrightarrow> (\<exists>ys. ls_buf s1 = ys @ arg_text x)"
    by (auto simp: keeps_def)
  from Cons.IH [OF s1(2)] Cons.prems(2,3) obtain s2 where s2: "puts_log level xs s1 = Some (Inr s2)"
    "stream_inv s2 ds (r @ arg_text x @ concat (map arg_text xs))" "keeps level s1 s2 ds"
    "xs \<noteq> [] \<longrightarrow> newline \<notin> set (arg_text (last xs)) \<longrightarrow> (\<exists>ys. ls_buf s2 = ys @ arg_text (last xs))"
    by auto
  moreover have "s2 = s1" if "xs = []" using s2(1) that by simp
  ultimately show ?case using s1 keeps_trans [OF s1(3) s2(3)] by (cases xs) auto
qed

subsection \<open>Log records\<close>

text \<open>One use of a log macro: the header \<open>makeLog\<close> writes and what the user streams after it.\<close>

record log_rec =
  lr_micros :: int
  lr_tid :: int
  lr_file :: string
  lr_line :: int
  lr_level :: level
  lr_func :: "string option"
  lr_body :: "log_arg list"

definition run_rec :: "int \<Rightarrow> log_rec \<Rightarrow> logstream \<Rightarrow> logstream res option" where
  "run_rec blevel x s =
     bindO (case lr_func x of
         None \<Rightarrow> makeLog blevel (lr_micros x) (lr_tid x) (lr_file x) (lr_line x) (lr_level x) s
       | Some f \<Rightarrow> makeLog_func blevel (lr_micros x) (lr_tid x) (lr_file x) (lr_line x) (lr_level x) f s)
     (puts_log blevel (lr_body x))"

fun run_logs :: "int \<Rightarrow> log_rec list \<Rightarrow> logstream \<Rightarrow> logstream res option" where
  "run_logs blevel [] s = Some (Inr s)"
| "run_logs blevel (x # xs) s = bindO (run_rec blevel x s) (run_logs blevel xs)"

text \<open>The line a record should become.\<close>

definition rec_head :: "log_rec \<Rightarrow> string" where
  "rec_head x = instant_text (lr_micros x) @ '' '' @ rev (decimals (nat (lr_tid x))) @ '' '' @
     level_name (lr_level x) @ '' '' @ c_str (lr_file x) @ '':'' @ rev (decimals (nat (lr_line x)))"

definition rec_text :: "log_rec \<Rightarrow> string" where
  "rec_text x = rec_head x @ (case lr_func x of None \<Rightarrow> [] | Some f \<Rightarrow> '' '' @ c_str f) @ '' - '' @
     concat (map arg_text (lr_body x))"

definition rec_ok :: "log_rec \<Rightarrow> bool" where
  "rec_ok x \<longleftrightarrow> second_ok (lr_micros x div 1000000) \<and> 0 \<le> lr_tid x \<and> 0 \<le> lr_line x \<and>
     (\<forall>a \<in> set (lr_body x). arg_ok a) \<and> length (rec_text x) < kBufferSize"

lemma instant_no_null: "c_str (instant_text t) = instant_text t"
proof (rule c_str_id)
  have "set (padded w n) \<subseteq> set digits" for w n
    using decimals_set [of "nat n"] by (auto simp: padded_def Let_def) (simp_all add: digits_def)
  moreover have "CHR 0x00 \<notin> set digits" by (simp add: digits_def)
  ultimately have "CHR 0x00 \<notin> set (padded w n)" for w n by blast
  then show "CHR 0x00 \<notin> set (instant_text t)"
    by (auto simp: instant_text_def second_text_def Let_def split: prod.splits)
qed

lemma level_name_no_null: "c_str (level_name l) = level_name l"
  by (rule c_str_id) (cases l; simp)

text \<open>The states a thread's stream is in between two records.\<close>

definition between :: "int \<Rightarrow> logstream \<Rightarrow> string list \<Rightarrow> string \<Rightarrow> bool" where
  "between blevel s ds r \<longleftrightarrow> stream_inv s ds r \<and> cache_ok (ls_time s) \<and>
     (blevel \<noteq> kLineBuffer \<longrightarrow> whole_records s ds) \<and> (blevel = kLineBuffer \<longrightarrow> lines_out s)"

text \<open>The first lines of \<open>makeLog\<close>: the record before is complete, and may be passed on.\<close>

lemma makeLog_start:
  assumes "between blevel s ds r"
  shows "\<exists>s2. (if t_needFlush (ls_time s)
      then bindR (LogStream_flush (s\<lparr>ls_end := int (length (ls_buf s))\<rparr>)) (\<lambda>s2.
        Inr (s2\<lparr>ls_buf := [], ls_end := 0, ls_time := (ls_time s2)\<lparr>t_needFlush := False\<rparr>\<rparr>))
      else Inr (s\<lparr>ls_end := int (length (ls_buf s))\<rparr>)) = Inr s2 \<and> between blevel s2 (ds @ [r]) []"
proof -
  let ?s1 = "s\<lparr>ls_end := int (length (ls_buf s))\<rparr>"
  have all: "concat (ls_out s) @ ls_buf s = concat ds @ r" using assms by (simp add: between_def stream_inv_def)
  have whole: "whole_records ?s1 (ds @ [r])" if "whole_records s ds"
    using that by (simp add: whole_records_def whole_messages_more)
  show ?thesis
  proof (cases "t_needFlush (ls_time s)")
    case True
    let ?s2 = "s\<lparr>ls_out := ls_out s @ [ls_buf s], ls_buf := [], ls_end := 0,
      ls_time := (ls_time s)\<lparr>t_needFlush := False\<rparr>\<rparr>"
    have "whole_records ?s2 (ds @ [r])" if "whole_records s ds"
      using all that whole_messages_snoc [OF whole_messages_more, of "ls_out s" ds "ls_buf s" r]
      by (simp add: whole_records_def)
    moreover have "cache_ok ((ls_time s)\<lparr>t_needFlush := False\<rparr>)"
      using assms by (simp add: between_def cache_ok_def)
    ultimately have "between blevel ?s2 (ds @ [r]) []"
      using all assms by (simp add: between_def stream_inv_def lines_out_def)
    moreover have "bindR (LogStream_flush ?s1) (\<lambda>s2.
        Inr (s2\<lparr>ls_buf := [], ls_end := 0, ls_time := (ls_time s2)\<lparr>t_needFlush := False\<rparr>\<rparr>)) = Inr ?s2"
      by (simp add: LogStream_flush_def)
    ultimately show ?thesis using True by auto
  next
    case False
    have "between blevel ?s1 (ds @ [r]) []"
      using assms all whole by (simp add: between_def stream_inv_def lines_out_def)
    with False show ?thesis by auto
  qed
qed

lemma makeLog_ok:
  assumes "between blevel s ds r" "rec_ok x" "length (rec_head x) + 3 < kBufferSize"
  shows "\<exists>s'. makeLog blevel (lr_micros x) (lr_tid x) (lr_file x) (lr_line x) (lr_level x) s = Some (Inr s') \<and>
    between blevel s' (ds @ [r]) (rec_head x @ '' - '') \<and> (\<exists>ys. ls_buf s' = ys @ '' - '')"
proof -
  obtain s2 where s2: "(if t_needFlush (ls_time s)
      then bindR (LogStream_flush (s\<lparr>ls_end := int (length (ls_buf s))\<rparr>)) (\<lambda>s2.
        Inr (s2\<lparr>ls_buf := [], ls_end := 0, ls_time := (ls_time s2)\<lparr>t_needFlush := False\<rparr>\<rparr>))
      else Inr (s\<lparr>ls_end := int (length (ls_buf s))\<rparr>)) = Inr s2" "between blevel s2 (ds @ [r]) []"
    using makeLog_start [OF assms(1)] by blast
  have "cache_ok (ls_time s2)" "second_ok (lr_micros x div 1000000)"
    using s2(2) assms(2) by (simp_all add: between_def rec_ok_def)
  then obtain c where c: "formatTime (blevel = kFullBuffer) (lr_micros x) (ls_time s2) =
    Inr (instant_text (lr_micros x), c)" "cache_ok c" using formatTime_step by blast
  let ?xs = "[LCstr (Some (instant_text (lr_micros x))), LChar CHR '' '', LInt (lr_tid x), LChar CHR '' '',
    LCstr (Some (level_name (lr_level x))), LChar CHR '' '', LCstr (Some (lr_file x)), LChar CHR '':'',
    LInt (lr_line x), LCstr (Some '' - '')]"
  have texts: "concat (map arg_text ?xs) = rec_head x @ '' - ''"
    by (simp add: rec_head_def instant_no_null level_name_no_null) (simp add: c_str_def)
  have "stream_inv (s2\<lparr>ls_time := c\<rparr>) (ds @ [r]) []" using s2(2) by (simp add: between_def)
  moreover have "\<forall>a \<in> set ?xs. arg_ok a" using assms(2) by (simp add: rec_ok_def)
  moreover have "length ([] :: string) + length (concat (map arg_text ?xs)) < kBufferSize"
    unfolding texts using assms(3) by simp
  ultimately obtain s' where s': "puts_log blevel ?xs (s2\<lparr>ls_time := c\<rparr>) = Some (Inr s')"
    "stream_inv s' (ds @ [r]) ([] @ concat (map arg_text ?xs))" "keeps blevel (s2\<lparr>ls_time := c\<rparr>) s' (ds @ [r])"
    "?xs \<noteq> [] \<longrightarrow> newline \<notin> set (arg_text (last ?xs)) \<longrightarrow> (\<exists>ys. ls_buf s' = ys @ arg_text (last ?xs))"
    using puts_ok by blast
  have "makeLog blevel (lr_micros x) (lr_tid x) (lr_file x) (lr_line x) (lr_level x) s = Some (Inr s')"
    using s2(1) c(1) s'(1) by (simp add: makeLog_def Let_def del: puts_log.simps)
  moreover have "between blevel s' (ds @ [r]) (rec_head x @ '' - '')"
    using s2(2) s'(2,3) c(2) unfolding texts
    by (simp add: between_def keeps_def whole_records_def lines_out_def)
  moreover have "\<exists>ys. ls_buf s' = ys @ '' - ''" using s'(4) by (simp add: c_str_def)
  ultimately show ?thesis by blast
qed

text \<open>Going back over the last bytes of the current record.\<close>

lemma stream_inv_drop:
  assumes "stream_inv s ds (r @ q)" "ls_buf s = ys @ q"
  shows "stream_inv (s\<lparr>ls_buf := ys\<rparr>) ds r"
proof (cases "0 \<le> ls_end s")
  case True
  then have e: "drop (nat (ls_end s)) (ys @ q) = r @ q" "concat (ls_out s) @ ys @ q = concat ds @ r @ q"
    using assms by (auto simp: stream_inv_def)
  have "length (drop (nat (ls_end s)) (ys @ q)) = length (r @ q)" by (simp only: e(1))
  then have "nat (ls_end s) \<le> length ys" using True assms by (auto simp: stream_inv_def)
  with e True show ?thesis by (simp add: stream_inv_def)
next
  case False
  with assms show ?thesis by (auto simp: stream_inv_def)
qed

lemma between_drop:
  assumes "between blevel s ds (r @ q)" "ls_buf s = ys @ q"
  shows "between blevel (s\<lparr>ls_buf := ys\<rparr>) ds r"
  using assms stream_inv_drop [of s ds r q ys]
  by (cases ys) (auto simp: between_def whole_records_def lines_out_def)

lemma between_keeps:
  "between blevel s ds r \<Longrightarrow> stream_inv s' ds r' \<Longrightarrow> keeps blevel s s' ds \<Longrightarrow> between blevel s' ds r'"
  by (simp add: between_def keeps_def)

lemma run_rec_ok:
  assumes "between blevel s ds r" "rec_ok x"
  shows "\<exists>s'. run_rec blevel x s = Some (Inr s') \<and> between blevel s' (ds @ [r]) (rec_text x)"
proof -
  have len: "length (rec_text x) < kBufferSize" using assms(2) by (simp add: rec_ok_def)
  then have "length (rec_head x) + 3 < kBufferSize" by (simp add: rec_text_def split: option.splits)
  from makeLog_ok [OF assms(1,2) this] obtain s1 ys where s1:
    "makeLog blevel (lr_micros x) (lr_tid x) (lr_file x) (lr_line x) (lr_level x) s = Some (Inr s1)"
    "between blevel s1 (ds @ [r]) (rec_head x @ '' - '')" "ls_buf s1 = ys @ '' - ''" by blast
  define fn where "fn = (case lr_func x of None \<Rightarrow> [] | Some f \<Rightarrow> '' '' @ c_str f)"
  have head: "\<exists>s2. (case lr_func x of
        None \<Rightarrow> makeLog blevel (lr_micros x) (lr_tid x) (lr_file x) (lr_line x) (lr_level x) s
      | Some f \<Rightarrow> makeLog_func blevel (lr_micros x) (lr_tid x) (lr_file x) (lr_line x) (lr_level x) f s) =
      Some (Inr s2) \<and> between blevel s2 (ds @ [r]) (rec_head x @ fn @ '' - '')"
  proof (cases "lr_func x")
    case None
    with s1 show ?thesis by (simp add: fn_def)
  next
    case (Some f)
    let ?xs = "[LChar CHR '' '', LCstr (Some f), LCstr (Some '' - '')]"
    have texts: "concat (map arg_text ?xs) = fn @ '' - ''" by (simp add: fn_def Some) (simp add: c_str_def)
    have cut: "take (length (ls_buf s1) - 3) (ls_buf s1) = ys" by (simp add: s1(3))
    have b: "between blevel (s1\<lparr>ls_buf := ys\<rparr>) (ds @ [r]) (rec_head x)"
      by (rule between_drop [OF s1(2,3)])
    moreover have "length (rec_head x) + length (concat (map arg_text ?xs)) < kBufferSize"
      unfolding texts using len by (simp add: rec_text_def fn_def Some)
    ultimately obtain s2 where s2: "puts_log blevel ?xs (s1\<lparr>ls_buf := ys\<rparr>) = Some (Inr s2)"
      "stream_inv s2 (ds @ [r]) (rec_head x @ concat (map arg_text ?xs))"
      "keeps blevel (s1\<lparr>ls_buf := ys\<rparr>) s2 (ds @ [r])"
      using puts_ok [of "s1\<lparr>ls_buf := ys\<rparr>" "ds @ [r]" "rec_head x" ?xs blevel] by (auto simp: between_def)
    have "makeLog_func blevel (lr_micros x) (lr_tid x) (lr_file x) (lr_line x) (lr_level x) f s = Some (Inr s2)"
      unfolding makeLog_func_def s1(1) bindO_simps cut s2(1) by (simp add: s1(3))
    moreover have "between blevel s2 (ds @ [r]) (rec_head x @ fn @ '' - '')"
      using between_keeps [OF b s2(2,3)] unfolding texts by simp
    ultimately show ?thesis using Some by simp
  qed
  then obtain s2 where s2: "(case lr_func x of
        None \<Rightarrow> makeLog blevel (lr_micros x) (lr_tid x) (lr_file x) (lr_line x) (lr_level x) s
      | Some f \<Rightarrow> makeLog_func blevel (lr_micros x) (lr_tid x) (lr_file x) (lr_line x) (lr_level x) f s) =
      Some (Inr s2)" "between blevel s2 (ds @ [r]) (rec_head x @ fn @ '' - '')" by blast
  have "rec_text x = (rec_head x @ fn @ '' - '') @ concat (map arg_text (lr_body x))"
    by (simp add: rec_text_def fn_def)
  moreover have "\<forall>a \<in> set (lr_body x). arg_ok a" using assms(2) by (simp add: rec_ok_def)
  ultimately obtain s3 where "puts_log blevel (lr_body x) s2 = Some (Inr s3)"
    "stream_inv s3 (ds @ [r]) (rec_text x)" "keeps blevel s2 s3 (ds @ [r])"
    using puts_ok [of s2 "ds @ [r]" "rec_head x @ fn @ '' - ''" "lr_body x" blevel] s2(2) len
    by (auto simp: between_def)
  with s2 between_keeps [OF s2(2)] show ?thesis by (auto simp: run_rec_def)
qed

lemma run_logs_ok:
  "between blevel s ds r \<Longrightarrow> \<forall>x \<in> set xs. rec_ok x \<Longrightarrow>
   \<exists>s' ds' r'. run_logs blevel xs s = Some (Inr s') \<and> between blevel s' ds' r' \<and>
     ds' @ [r'] = ds @ [r] @ map rec_text xs"
proof (induction xs arbitrary: s ds r)
  case (Cons x xs)
  from run_rec_ok [OF Cons.prems(1)] Cons.prems(2) obtain s1 where
    "run_rec blevel x s = Some (Inr s1)" "between blevel s1 (ds @ [r]) (rec_text x)" by auto
  with Cons.IH [of s1 "ds @ [r]" "rec_text x"] Cons.prems(2) show ?case by auto
qed auto

lemma between_new: "between blevel LogStream_new [] []"
  by (auto simp: between_def LogStream_new_def stream_inv_def cache_ok_def time_cache_init_def
      whole_records_def whole_messages_def lines_out_def)

text \<open>A log statement of \<open>kBufferSize\<close> bytes or more: \<open>append\<close> never has the room for it.\<close>

lemma append_overlong:
  assumes "kBufferSize \<le> length p" "0 \<le> ls_end s" "ls_end s \<le> int (length (ls_buf s))"
  shows "LogStream_append level p s = None"
proof -
  let ?P = "\<lambda>level p s (y :: logstream res). \<not> (kBufferSize \<le> length p \<and> 0 \<le> ls_end s \<and>
    ls_end s \<le> int (length (ls_buf s)))"
  have "?P level p s y" if "LogStream_append level p s = Some y" for y
  proof (rule LogStream_append.raw_induct [where P = ?P, OF _ that])
    fix f level p s and y :: "logstream res"
    assume 1: "\<And>level p s y. f level p s = Some y \<Longrightarrow> ?P level p s y"
      and 2: "(if LogStream_avail s > int (length p) then
        let s1 = s\<lparr>ls_buf := ls_buf s @ p\<rparr> in
        Some (Inr (if level = kLineBuffer
                   then flushLine (scan_newline (ls_buf s1) (length (ls_buf s1))) s1 else s1))
      else case LogStream_flush s of
        Inl e \<Rightarrow> Some (Inl e)
      | Inr s1 \<Rightarrow> f level p (s1\<lparr>ls_buf := drop (nat (ls_end s1)) (ls_buf s1), ls_end := 0\<rparr>)) = Some y"
    show "?P level p s y"
    proof
      assume *: "kBufferSize \<le> length p \<and> 0 \<le> ls_end s \<and> ls_end s \<le> int (length (ls_buf s))"
      then have "f level p (s\<lparr>ls_out := ls_out s @ [take (nat (ls_end s)) (ls_buf s)],
          ls_buf := drop (nat (ls_end s)) (ls_buf s), ls_end := 0\<rparr>) = Some y"
        using 2 by (simp add: LogStream_avail_def LogStream_flush_def split: if_splits)
      from 1 [OF this] * show False by simp
    qed
  qed
  with assms show ?thesis by (cases "LogStream_append level p s") auto
qed

subsection \<open>The interface of the output function\<close>

text \<open>
  What a stream relies on of the function it passes its bytes to, whatever that is: a message
  shorter than a limit is taken, after those before it.
\<close>

locale log_sink =
  fixes emit :: "string \<Rightarrow> 's \<Rightarrow> 's res"
    and received :: "'s \<Rightarrow> string"
    and ready :: "'s \<Rightarrow> bool"
    and limit :: nat
  assumes emit_law: "ready s \<Longrightarrow> length msg < limit \<Longrightarrow>
    \<exists>s'. emit msg s = Inr s' \<and> ready s' \<and> received s' = received s @ msg"

context log_sink begin

lemma emit_all:
  "ready s \<Longrightarrow> \<forall>msg \<in> set msgs. length msg < limit \<Longrightarrow>
   \<exists>s'. foldR emit msgs s = Inr s' \<and> ready s' \<and> received s' = received s @ concat msgs"
proof (induction msgs arbitrary: s)
  case (Cons msg msgs)
  from emit_law [OF Cons.prems(1), of msg] Cons.prems(2) obtain s1 where
    "emit msg s = Inr s1" "ready s1" "received s1 = received s @ msg" by auto
  with Cons.IH [of s1] Cons.prems(2) show ?case by auto
qed simp

end

text \<open>The default: \<open>fwrite\<close> to the standard output, whose text so far is the state.\<close>

definition defaultOutputFunc :: "string \<Rightarrow> string \<Rightarrow> string res" where
  "defaultOutputFunc msg out = Inr (out @ msg)"

interpretation console: log_sink defaultOutputFunc id "\<lambda>_. True" kBufferSize
  by unfold_locales (simp add: defaultOutputFunc_def)

text \<open>No message of a stream is as long as its buffer.\<close>

definition small_messages :: "logstream \<Rightarrow> bool" where
  "small_messages s \<longleftrightarrow> length (ls_buf s) < kBufferSize \<and> (\<forall>m \<in> set (ls_out s). length m < kBufferSize)"

lemma flushLine_small: "small_messages s \<Longrightarrow> small_messages (flushLine pp s)"
  by (auto simp: small_messages_def flushLine_def Let_def min_def)

lemma append_small:
  assumes "LogStream_append level p s = Some (Inr s')" "small_messages s"
  shows "small_messages s'"
proof -
  let ?P = "\<lambda>level p s (y :: logstream res). small_messages s \<longrightarrow> (\<forall>s'. y = Inr s' \<longrightarrow> small_messages s')"
  have "?P level p s (Inr s')"
  proof (rule LogStream_append.raw_induct [where P = ?P, OF _ assms(1)])
    fix f level p s and y :: "logstream res"
    assume 1: "\<And>level p s y. f level p s = Some y \<Longrightarrow> ?P level p s y"
      and 2: "(if LogStream_avail s > int (length p) then
        let s1 = s\<lparr>ls_buf := ls_buf s @ p\<rparr> in
        Some (Inr (if level = kLineBuffer
                   then flushLine (scan_newline (ls_buf s1) (length (ls_buf s1))) s1 else s1))
      else case LogStream_flush s of
        Inl e \<Rightarrow> Some (Inl e)
      | Inr s1 \<Rightarrow> f level p (s1\<lparr>ls_buf := drop (nat (ls_end s1)) (ls_buf s1), ls_end := 0\<rparr>)) = Some y"
    show "?P level p s y"
    proof (intro impI allI)
      fix s' assume s: "small_messages s" and y: "y = Inr s'"
      show "small_messages s'"
      proof (cases "LogStream_avail s > int (length p)")
        case True
        then have "small_messages (s\<lparr>ls_buf := ls_buf s @ p\<rparr>)"
          using s by (simp add: small_messages_def LogStream_avail_def)
        then show ?thesis using 2 y True flushLine_small by (auto simp: Let_def split: if_splits)
      next
        case False
        then obtain s1 where s1: "LogStream_flush s = Inr s1"
          "f level p (s1\<lparr>ls_buf := drop (nat (ls_end s1)) (ls_buf s1), ls_end := 0\<rparr>) = Some y"
          using 2 y by (cases "LogStream_flush s") auto
        then have "small_messages (s1\<lparr>ls_buf := drop (nat (ls_end s1)) (ls_buf s1), ls_end := 0\<rparr>)"
          using s by (auto simp: LogStream_flush_def small_messages_def min_def split: if_splits)
        with 1 [OF s1(2)] y show ?thesis by blast
      qed
    qed
  qed
  with assms(2) show ?thesis by blast
qed

lemma put_small:
  assumes "LogStream_put level x s = Some (Inr s')" "small_messages s"
  shows "small_messages s'"
proof -
  have "\<exists>t. LogStream_append level t s = Some (Inr s')"
    using assms(1) by (cases x) (auto simp: put_defs bindO_Inr split: option.splits)
  then show ?thesis using append_small assms(2) by blast
qed

lemma puts_small: "puts_log level xs s = Some (Inr s') \<Longrightarrow> small_messages s \<Longrightarrow> small_messages s'"
  by (induction xs arbitrary: s) (auto simp: bindO_Inr dest: put_small)

lemma makeLog_small:
  assumes "makeLog blevel micros tid file line lev s = Some (Inr s')" "small_messages s"
  shows "small_messages s'"
proof -
  from assms(1) obtain s2 c time xs where s2: "(if t_needFlush (ls_time s)
      then bindR (LogStream_flush (s\<lparr>ls_end := int (length (ls_buf s))\<rparr>)) (\<lambda>s2.
        Inr (s2\<lparr>ls_buf := [], ls_end := 0, ls_time := (ls_time s2)\<lparr>t_needFlush := False\<rparr>\<rparr>))
      else Inr (s\<lparr>ls_end := int (length (ls_buf s))\<rparr>)) = Inr s2"
    "puts_log blevel xs (s2\<lparr>ls_time := c\<rparr>) = Some (Inr s')"
    unfolding makeLog_def Let_def bindO_Inr by (auto simp del: puts_log.simps)
  have "small_messages s2"
    using s2(1) assms(2) by (auto simp: LogStream_flush_def small_messages_def split: if_splits)
  then show ?thesis using puts_small [OF s2(2)] by (simp add: small_messages_def)
qed

lemma run_rec_small:
  assumes "run_rec blevel x s = Some (Inr s')" "small_messages s"
  shows "small_messages s'"
proof (cases "lr_func x")
  case None
  with assms show ?thesis by (auto simp: run_rec_def bindO_Inr dest: makeLog_small puts_small)
next
  case (Some f)
  with assms(1) obtain s1 s2 xs where s1:
    "makeLog blevel (lr_micros x) (lr_tid x) (lr_file x) (lr_line x) (lr_level x) s = Some (Inr s1)"
    "puts_log blevel xs (s1\<lparr>ls_buf := take (length (ls_buf s1) - 3) (ls_buf s1)\<rparr>) = Some (Inr s2)"
    "puts_log blevel (lr_body x) s2 = Some (Inr s')"
    by (auto simp: run_rec_def makeLog_func_def bindO_Inr simp del: puts_log.simps split: if_splits)
  have "small_messages (s1\<lparr>ls_buf := take (length (ls_buf s1) - 3) (ls_buf s1)\<rparr>)"
    using makeLog_small [OF s1(1) assms(2)] by (auto simp: small_messages_def)
  with s1 show ?thesis by (auto dest: puts_small)
qed

lemma run_logs_small: "run_logs blevel xs s = Some (Inr s') \<Longrightarrow> small_messages s \<Longrightarrow> small_messages s'"
  by (induction xs arbitrary: s) (auto simp: bindO_Inr dest: run_rec_small)

lemma destroy_small: "LogStream_destroy s = Inr outs \<Longrightarrow> small_messages s \<Longrightarrow> \<forall>m \<in> set outs. length m < kBufferSize"
  by (auto simp: LogStream_destroy_def LogStream_flush_def small_messages_def split: if_splits)

lemma small_new: "small_messages LogStream_new"
  by (simp add: small_messages_def LogStream_new_def kBufferSize_def)

text \<open>Everything a stream passes on by the time it is destroyed.\<close>

lemma logs_out:
  assumes "\<forall>x \<in> set xs. rec_ok x"
  shows "\<exists>outs. bindO (run_logs blevel xs LogStream_new) (\<lambda>s. Some (LogStream_destroy s)) = Some (Inr outs) \<and>
    concat outs = concat (map rec_text xs) \<and> (\<forall>m \<in> set outs. length m < kBufferSize)"
proof -
  obtain s ds r where s: "run_logs blevel xs LogStream_new = Some (Inr s)" "between blevel s ds r"
    "ds @ [r] = [] @ [[]] @ map rec_text xs"
    using run_logs_ok [OF between_new assms] by blast
  from s(3) have "concat (ds @ [r]) = concat ([] # map rec_text xs)" by simp
  with s(2) have all: "concat (ls_out s) @ ls_buf s = concat (map rec_text xs)"
    by (simp add: between_def stream_inv_def)
  have out: "LogStream_destroy s = Inr (ls_out s @ [ls_buf s])"
    by (simp add: LogStream_destroy_def LogStream_flush_def)
  from destroy_small [OF out run_logs_small [OF s(1) small_new]] all s(1) out show ?thesis
    by (intro exI [of _ "ls_out s @ [ls_buf s]"]) simp
qed

subsection \<open>Properties\<close>

text \<open>
  C5: No log text is lost, doubled or reordered. Whatever records a thread logs, at either buffer
  level, every call returns, and what the output function got by the time the stream is destroyed
  is the text of all records in order: time stamp, thread, level, file, line, function and body.
  The conditions on a record, \<open>rec_ok\<close>: its text is shorter than the buffer, none of the integers
  printed is negative (digits of a negative one are read outside the table), the thread number and
  the line are not negative either, and its time is one \<open>FastSecondToDate\<close> converts.
\<close>

theorem log_lossless:
  assumes "\<forall>x \<in> set xs. rec_ok x"
  shows "\<exists>outs. bindO (run_logs blevel xs LogStream_new) (\<lambda>s. Some (LogStream_destroy s)) = Some (Inr outs) \<and>
    concat outs = concat (map rec_text xs)"
  using logs_out [OF assms, of blevel] by blast

definition sample_rec :: log_rec where
  "sample_rec = \<lparr>lr_micros = 1000007, lr_tid = 42, lr_file = ''a.cpp'', lr_line = 7, lr_level = INFO,
     lr_func = Some ''main'', lr_body = [LCstr (Some ''x = ''), LInt 10, LChar newline]\<rparr>"

lemma sample_rec_ok:
  "rec_ok sample_rec"
  "rec_text sample_rec = ''1970-01-01 08:00:01.000007 42 INFO a.cpp:7 main - x = 10'' @ [newline]"
proof -
  have i: "instant_text 1000007 = ''1970-01-01 08:00:01.000007''" by code_simp
  have d: "decimals 42 = ''24''" "decimals 7 = ''7''" "decimals 10 = ''01''" by code_simp+
  show t: "rec_text sample_rec = ''1970-01-01 08:00:01.000007 42 INFO a.cpp:7 main - x = 10'' @ [newline]"
    by (simp add: rec_text_def rec_head_def sample_rec_def i d c_str_def)
  show "rec_ok sample_rec"
    unfolding rec_ok_def t by (simp add: sample_rec_def second_ok_def kBufferSize_def)
qed

theorem log_lossless_witness:
  "\<exists>outs. bindO (run_logs kLineBuffer [sample_rec, sample_rec] LogStream_new) (\<lambda>s. Some (LogStream_destroy s)) =
      Some (Inr outs) \<and> concat outs = rec_text sample_rec @ rec_text sample_rec"
  using log_lossless [of "[sample_rec, sample_rec]" kLineBuffer] sample_rec_ok(1) by simp

text \<open>
  C39: At the full buffer level the output function is never given a part of a record. Whatever a
  thread logs, after each message it passes on, in the middle of a record or not, the text
  the output has got so far is that of the first so many records, whole; also after the message
  the destructor passes on. Each record is as for the property before: shorter than the buffer,
  without negative integers, its time, thread number and line in range.
\<close>

theorem log_whole_records:
  assumes "\<forall>x \<in> set xs. rec_ok x"
  shows "\<exists>s outs. run_logs kFullBuffer xs LogStream_new = Some (Inr s) \<and> LogStream_destroy s = Inr outs \<and>
    (\<forall>k. \<exists>n. concat (take k outs) = concat (take n (map rec_text xs)))"
proof -
  obtain s ds r where s: "run_logs kFullBuffer xs LogStream_new = Some (Inr s)" "between kFullBuffer s ds r"
    "ds @ [r] = [] @ [[]] @ map rec_text xs"
    using run_logs_ok [OF between_new assms] by blast
  have out: "LogStream_destroy s = Inr (ls_out s @ [ls_buf s])"
    by (simp add: LogStream_destroy_def LogStream_flush_def)
  have "whole_messages (ls_out s @ [ls_buf s]) (ds @ [r])"
    using s(2) by (intro whole_messages_snoc whole_messages_more)
      (simp_all add: between_def whole_records_def kFullBuffer_def kLineBuffer_def stream_inv_def)
  then have whole: "\<forall>k. \<exists>n. concat (take k (ls_out s @ [ls_buf s])) = concat (take n ([[]] @ map rec_text xs))"
    using s(3) unfolding whole_messages_def by auto
  have "concat (take n ([[]] @ map rec_text xs)) = concat (take (n - 1) (map rec_text xs))" for n
    by (cases n) simp_all
  with whole have "\<forall>k. \<exists>n. concat (take k (ls_out s @ [ls_buf s])) = concat (take n (map rec_text xs))" by metis
  with s(1) out show ?thesis by blast
qed

theorem log_whole_records_witness:
  "\<exists>s outs. run_logs kFullBuffer [sample_rec, sample_rec] LogStream_new = Some (Inr s) \<and>
     LogStream_destroy s = Inr outs \<and>
     (\<forall>k. \<exists>n. concat (take k outs) = concat (take n [rec_text sample_rec, rec_text sample_rec]))"
  using log_whole_records [of "[sample_rec, sample_rec]"] sample_rec_ok(1) by simp

text \<open>
  At the line buffer level no line waits in the buffer: after any records a
  newline can be left at the first position of the buffer only.
\<close>

theorem log_lines_out:
  assumes "\<forall>x \<in> set xs. rec_ok x"
  shows "\<exists>s. run_logs kLineBuffer xs LogStream_new = Some (Inr s) \<and> newline \<notin> set (tl (ls_buf s))"
  using run_logs_ok [OF between_new assms, of kLineBuffer] by (auto simp: between_def lines_out_def)

theorem log_lines_out_witness:
  "\<exists>s. run_logs kLineBuffer [sample_rec] LogStream_new = Some (Inr s) \<and> newline \<notin> set (tl (ls_buf s))"
  using log_lines_out [of "[sample_rec]"] sample_rec_ok(1) by simp

text \<open>
  A single piece of text as long as the buffer is never appended: with \<open>_end\<close> in the buffer
  \<open>append\<close> calls itself for ever, and with \<open>_end\<close> before it, where a flushed newline of the same
  record has put it, the flush reads outside the buffer.
\<close>

theorem log_overlong:
  assumes "kBufferSize \<le> length p" "ls_end s \<le> int (length (ls_buf s))"
  shows "LogStream_append blevel p s = (if 0 \<le> ls_end s then None else Some (Inl OutOfBounds))"
proof (cases "0 \<le> ls_end s")
  case True
  with append_overlong [OF assms(1) _ assms(2)] show ?thesis by simp
next
  case False
  with assms show ?thesis
    by (subst LogStream_append.simps) (simp add: LogStream_avail_def LogStream_flush_def)
qed

theorem log_overlong_witness:
  "LogStream_append kFullBuffer (replicate kBufferSize CHR ''x'') LogStream_new = None"
  using log_overlong [of "replicate kBufferSize CHR ''x''" LogStream_new kFullBuffer]
  by (simp add: LogStream_new_def)

end
