(* ===== verification/AsyncLog.thy ===== *)
theory AsyncLog
  imports LogStream
begin

text \<open>
  The back end of the log, \<open>AsyncLogging\<close> of \<open>log/asyncLogging.h\<close> and \<open>log/asyncLogging.cpp\<close>:
  front ends append to a buffer under a lock, one back-end thread takes the full buffers away
  under the same lock and writes them to files. A step of the model is what one thread does while
  it holds the lock, or between two such sections; the steps of all threads interleave freely.
\<close>

subsection \<open>State\<close>

definition kAsyncBuffer :: nat where
  "kAsyncBuffer = 100 * 20000 * 2"

text \<open>A \<open>LogBuffer\<close> is the string of its bytes up to \<open>_cur\<close>; a pointer to one may be null.\<close>

type_synonym buffer_ptr = "string option"

definition LogBuffer_avail :: "string \<Rightarrow> nat" where
  "LogBuffer_avail b = kAsyncBuffer - length b"

definition LogBuffer_append :: "string \<Rightarrow> string \<Rightarrow> string res" where
  "LogBuffer_append msg b = (if length b + length msg > kAsyncBuffer then Inl OutOfBounds else Inr (b @ msg))"

text \<open>Where the back-end thread is.\<close>

datatype backend_pc =
    NotStarted   \<comment> \<open>before its first instruction\<close>
  | AtLoop       \<comment> \<open>before the test of \<open>while (_running)\<close>\<close>
  | AtWait       \<comment> \<open>in the critical section, before the test of the inner loop\<close>
  | AtWrite      \<comment> \<open>behind the critical section\<close>
  | Finished

text \<open>
  The members of the object, the local variables of \<open>mainRoutine\<close>, and the files with their
  names, the open one last. \<open>stopped\<close>: \<open>stop\<close> has seen an empty current buffer.
\<close>

record asynclog =
  al_running :: bool
  al_basename :: string
  al_rollSize :: int
  al_current :: buffer_ptr
  al_next :: buffer_ptr
  al_buffers :: "buffer_ptr list"
  al_pc :: backend_pc
  al_buffer1 :: buffer_ptr
  al_buffer2 :: buffer_ptr
  al_local :: "buffer_ptr list"
  al_written :: int
  al_files :: "(string \<times> string) list"
  al_stopped :: bool

definition AsyncLogging_new :: "string \<Rightarrow> int \<Rightarrow> asynclog" where
  "AsyncLogging_new basename rollSize =
     \<lparr>al_running = False, al_basename = basename, al_rollSize = rollSize,
      al_current = Some [], al_next = Some [], al_buffers = [], al_pc = NotStarted,
      al_buffer1 = None, al_buffer2 = None, al_local = [], al_written = 0, al_files = [],
      al_stopped = False\<rparr>"

definition AsyncLogging_start :: "asynclog \<Rightarrow> asynclog res" where
  "AsyncLogging_start s = bindR (assertR (\<not> al_running s)) (\<lambda>_. Inr (s\<lparr>al_running := True\<rparr>))"

definition AsyncLogging_destroy :: "asynclog \<Rightarrow> unit res" where
  "AsyncLogging_destroy s = assertR (\<not> al_running s)"

subsection \<open>The front end: append\<close>

text \<open>The wakeup of the back end when both buffers are full has no effect on the state.\<close>

definition AsyncLogging_append :: "string \<Rightarrow> asynclog \<Rightarrow> asynclog res" where
  "AsyncLogging_append msg s =
     (case al_current s of None \<Rightarrow> Inl NullDeref
      | Some b \<Rightarrow>
        if LogBuffer_avail b > length msg then
          bindR (LogBuffer_append msg b) (\<lambda>b'. Inr (s\<lparr>al_current := Some b'\<rparr>))
        else
          let fresh = (case al_next s of Some n \<Rightarrow> n | None \<Rightarrow> []);
              s1 = s\<lparr>al_buffers := al_buffers s @ [Some b], al_next := None\<rparr> in
          bindR (LogBuffer_append msg fresh) (\<lambda>b'. Inr (s1\<lparr>al_current := Some b'\<rparr>)))"

subsection \<open>The names of the files\<close>

text \<open>
  \<open>rollFile\<close>: the base name, the day, the process and a suffix. The name goes through an array
  of 100 characters, a null character included, to a script that renames older files.
\<close>

definition rollFile :: "string \<Rightarrow> int \<Rightarrow> int \<Rightarrow> string res" where
  "rollFile basename micros pid =
     bindR (FastSecondToDate (micros sdiv 1000000) 8) (\<lambda>t.
     bindR (formatInteger pid) (\<lambda>p.
     let name = basename @ ''.'' @
           padded 1 (tm_year t + 1900) @ ''-'' @ padded 2 (tm_mon t + 1) @ ''-'' @ padded 2 (tm_mday t) @
           ''.'' @ c_str p @ ''.log0'' in
     if length name \<ge> 100 then Inl OutOfBounds else Inr name))"

subsection \<open>The back end: mainRoutine\<close>

definition ptr_size :: "buffer_ptr \<Rightarrow> nat res" where
  "ptr_size p = (case p of None \<Rightarrow> Inl NullDeref | Some b \<Rightarrow> Inr (length b))"

text \<open>Up to the loop: two new buffers and the first file.\<close>

definition backend_begin :: "int \<Rightarrow> int \<Rightarrow> asynclog \<Rightarrow> asynclog res" where
  "backend_begin micros pid s =
     bindR (rollFile (al_basename s) micros pid) (\<lambda>name.
       Inr (s\<lparr>al_buffer1 := Some [], al_buffer2 := Some [], al_files := al_files s @ [(name, [])],
              al_written := 0, al_pc := AtLoop\<rparr>))"

definition backend_test :: "asynclog \<Rightarrow> asynclog" where
  "backend_test s = (if al_running s then s\<lparr>al_local := [], al_pc := AtWait\<rparr> else s\<lparr>al_pc := Finished\<rparr>)"

text \<open>The condition of the inner loop: true while there is nothing to write.\<close>

definition backend_idle :: "asynclog \<Rightarrow> bool res" where
  "backend_idle s =
     (if al_running s \<and> al_buffers s = []
      then bindR (ptr_size (al_current s)) (\<lambda>n. Inr (n = 0)) else Inr False)"

text \<open>The rest of the critical section.\<close>

definition backend_swap :: "asynclog \<Rightarrow> asynclog" where
  "backend_swap s =
     (let s1 = s\<lparr>al_buffers := al_buffers s @ [al_current s], al_current := al_buffer1 s, al_buffer1 := None\<rparr>;
          s2 = (if al_next s1 = None then s1\<lparr>al_next := al_buffer2 s1, al_buffer2 := None\<rparr> else s1) in
      s2\<lparr>al_local := al_buffers s2, al_buffers := al_local s2, al_pc := AtWrite\<rparr>)"

text \<open>Appending to the open file, the last one.\<close>

definition file_append :: "string \<Rightarrow> (string \<times> string) list \<Rightarrow> (string \<times> string) list" where
  "file_append msg fs = (if fs = [] then [] else butlast fs @ [(fst (last fs), snd (last fs) @ msg)])"

text \<open>
  \<open>needWrite\<close> and \<open>written\<close> are \<open>int\<close>s. Beyond 2^31 bytes the first is converted back from a larger
  unsigned type, which wraps; the second overflows, for which the wrap-around of two's complement is
  written out as well, though the language leaves it open.
\<close>

definition sum_sizes :: "buffer_ptr list \<Rightarrow> int res" where
  "sum_sizes ps = foldR (\<lambda>p needWrite. bindR (ptr_size p) (\<lambda>k. Inr (to_int32 (needWrite + int k)))) ps 0"

definition backend_write :: "int \<Rightarrow> int \<Rightarrow> asynclog \<Rightarrow> asynclog res" where
  "backend_write micros pid s =
     (let s1 = s\<lparr>al_buffer1 := Some [],
                 al_buffer2 := (if al_buffer2 s = None then Some [] else al_buffer2 s)\<rparr> in
      bindR (sum_sizes (al_local s1)) (\<lambda>needWrite.
      bindR (if to_int32 (al_written s1 + needWrite) > al_rollSize s1
             then bindR (rollFile (al_basename s1) micros pid) (\<lambda>name.
               Inr (s1\<lparr>al_files := al_files s1 @ [(name, [])], al_written := 0\<rparr>))
             else Inr s1) (\<lambda>s2.
      bindR (foldR (\<lambda>p fs. case p of None \<Rightarrow> Inl NullDeref | Some b \<Rightarrow> Inr (file_append b fs))
               (al_local s2) (al_files s2)) (\<lambda>fs.
      Inr (s2\<lparr>al_files := fs, al_written := to_int32 (al_written s2 + needWrite), al_pc := AtLoop\<rparr>)))))"

subsection \<open>stop and the steps of all threads\<close>

text \<open>
  \<open>stop\<close> looks at the current buffer, under the lock, until it is empty, then clears
  \<open>_running\<close> and joins the back end.
\<close>

datatype async_event =
    Append string
  | Begin int int
  | Test
  | Swap
  | Write int int
  | StopLook
  | StopClear

text \<open>
  One step; \<open>None\<close>: the thread is not there, or would wait. The front ends are done when \<open>stop\<close>
  is called, as its comment demands: nothing is appended after \<open>stop\<close> has seen the empty buffer.
\<close>

fun async_step :: "async_event \<Rightarrow> asynclog \<Rightarrow> asynclog res option" where
  "async_step (Append msg) s = (if al_stopped s then None else Some (AsyncLogging_append msg s))"
| "async_step (Begin micros pid) s =
     (if al_pc s = NotStarted then Some (backend_begin micros pid s) else None)"
| "async_step Test s = (if al_pc s = AtLoop then Some (Inr (backend_test s)) else None)"
| "async_step Swap s =
     (if al_pc s \<noteq> AtWait then None
      else case backend_idle s of Inl e \<Rightarrow> Some (Inl e) | Inr True \<Rightarrow> None
        | Inr False \<Rightarrow> Some (Inr (backend_swap s)))"
| "async_step (Write micros pid) s = (if al_pc s = AtWrite then Some (backend_write micros pid s) else None)"
| "async_step StopLook s =
     (if al_running s \<and> \<not> al_stopped s
      then (case al_current s of None \<Rightarrow> Some (Inl NullDeref)
        | Some b \<Rightarrow> if b = [] then Some (Inr (s\<lparr>al_stopped := True\<rparr>)) else Some (Inr s))
      else None)"
| "async_step StopClear s =
     (if al_running s \<and> al_stopped s then Some (Inr (s\<lparr>al_running := False\<rparr>)) else None)"

subsection \<open>Runs and their invariant\<close>

text \<open>
  \<open>async_run bn rs s ms\<close>: some run of an object that was started leads to \<open>s\<close>, and \<open>ms\<close> are
  the messages appended in it. Messages are shorter than a buffer and file names fit their array.
\<close>

definition event_ok :: "string \<Rightarrow> async_event \<Rightarrow> bool" where
  "event_ok bn e \<longleftrightarrow> (case e of
       Append msg \<Rightarrow> length msg < kAsyncBuffer
     | Begin micros pid \<Rightarrow> \<exists>n. rollFile bn micros pid = Inr n
     | Write micros pid \<Rightarrow> \<exists>n. rollFile bn micros pid = Inr n
     | _ \<Rightarrow> True)"

fun appended :: "async_event \<Rightarrow> string list" where
  "appended (Append msg) = [msg]"
| "appended _ = []"

inductive async_run :: "string \<Rightarrow> int \<Rightarrow> asynclog \<Rightarrow> string list \<Rightarrow> bool" for bn rs where
  started: "AsyncLogging_start (AsyncLogging_new bn rs) = Inr s \<Longrightarrow> async_run bn rs s []"
| stepped: "async_run bn rs s ms \<Longrightarrow> event_ok bn e \<Longrightarrow> async_step e s = Some (Inr s') \<Longrightarrow>
    async_run bn rs s' (ms @ appended e)"

definition ptrs_text :: "buffer_ptr list \<Rightarrow> string" where
  "ptrs_text ps = concat (map the ps)"

definition files_text :: "(string \<times> string) list \<Rightarrow> string" where
  "files_text fs = concat (map snd fs)"

definition in_hand :: "asynclog \<Rightarrow> string" where
  "in_hand s = (if al_pc s = AtWrite then ptrs_text (al_local s) else [])"

text \<open>
  What has been appended is in the files, in the hands of the back end, in the full buffers and in
  the current one, in this order. Full buffers wait only while the current one is not empty, so an
  empty current buffer means nothing waits.
\<close>

definition async_inv :: "string \<Rightarrow> int \<Rightarrow> asynclog \<Rightarrow> string list \<Rightarrow> bool" where
  "async_inv bn rs s ms \<longleftrightarrow>
     al_basename s = bn \<and> al_rollSize s = rs \<and>
     (\<exists>b. al_current s = Some b \<and> length b < kAsyncBuffer \<and>
        (al_buffers s \<noteq> [] \<longrightarrow> b \<noteq> []) \<and> (al_stopped s \<longrightarrow> b = []) \<and>
        files_text (al_files s) @ in_hand s @ ptrs_text (al_buffers s) @ b = concat ms) \<and>
     al_next s \<in> {None, Some []} \<and> None \<notin> set (al_buffers s) \<and>
     (al_pc s = AtLoop \<or> al_pc s = AtWait \<longrightarrow> al_buffer1 s = Some [] \<and> al_buffer2 s = Some []) \<and>
     (al_pc s = AtWait \<longrightarrow> al_local s = []) \<and>
     (al_pc s = AtWrite \<longrightarrow> al_buffer2 s \<in> {None, Some []} \<and> None \<notin> set (al_local s)) \<and>
     (al_pc s = NotStarted \<longleftrightarrow> al_files s = []) \<and>
     (al_files s \<noteq> [] \<longrightarrow> al_written s = to_int32 (int (length (snd (last (al_files s)))))) \<and>
     (\<not> al_running s \<longrightarrow> al_stopped s) \<and> (al_pc s = Finished \<longrightarrow> \<not> al_running s)"

lemma async_invD:
  assumes "async_inv bn rs s ms"
  shows "al_basename s = bn" "al_rollSize s = rs"
    "\<exists>b. al_current s = Some b \<and> length b < kAsyncBuffer \<and> (al_buffers s \<noteq> [] \<longrightarrow> b \<noteq> []) \<and>
      (al_stopped s \<longrightarrow> b = []) \<and>
      files_text (al_files s) @ in_hand s @ ptrs_text (al_buffers s) @ b = concat ms"
    "al_next s \<in> {None, Some []}" "None \<notin> set (al_buffers s)"
    "al_pc s = AtLoop \<or> al_pc s = AtWait \<Longrightarrow> al_buffer1 s = Some [] \<and> al_buffer2 s = Some []"
    "al_pc s = AtWait \<Longrightarrow> al_local s = []"
    "al_pc s = AtWrite \<Longrightarrow> al_buffer2 s \<in> {None, Some []} \<and> None \<notin> set (al_local s)"
    "al_pc s = NotStarted \<longleftrightarrow> al_files s = []"
    "al_files s \<noteq> [] \<Longrightarrow> al_written s = to_int32 (int (length (snd (last (al_files s)))))"
    "\<not> al_running s \<Longrightarrow> al_stopped s" "al_pc s = Finished \<Longrightarrow> \<not> al_running s"
  using assms by (simp_all add: async_inv_def)

lemma in_hand_stop [simp]:
  "in_hand (s\<lparr>al_stopped := x\<rparr>) = in_hand s" "in_hand (s\<lparr>al_running := x\<rparr>) = in_hand s"
  by (simp_all add: in_hand_def)

lemma async_inv_started:
  "AsyncLogging_start (AsyncLogging_new bn rs) = Inr s \<Longrightarrow> async_inv bn rs s []"
  by (auto simp: AsyncLogging_start_def AsyncLogging_new_def async_inv_def files_text_def in_hand_def
      ptrs_text_def kAsyncBuffer_def)

lemma ptrs_text_append [simp]: "ptrs_text (ps @ qs) = ptrs_text ps @ ptrs_text qs"
  by (simp add: ptrs_text_def)

lemma ptrs_text_single [simp]: "ptrs_text [Some b] = b"
  by (simp add: ptrs_text_def)

lemma ptrs_text_Nil [simp]: "ptrs_text [] = []"
  by (simp add: ptrs_text_def)

lemma append_inv:
  assumes "async_inv bn rs s ms" "\<not> al_stopped s" "length msg < kAsyncBuffer"
  shows "\<exists>s'. AsyncLogging_append msg s = Inr s' \<and> async_inv bn rs s' (ms @ [msg])"
proof -
  obtain b where b: "al_current s = Some b" "length b < kAsyncBuffer" "al_buffers s \<noteq> [] \<longrightarrow> b \<noteq> []"
    "files_text (al_files s) @ in_hand s @ ptrs_text (al_buffers s) @ b = concat ms"
    using async_invD(3) [OF assms(1)] by blast
  have pc: "al_pc s \<noteq> Finished" using async_invD(11,12) [OF assms(1)] assms(2) by blast
  show ?thesis
  proof (cases "LogBuffer_avail b > length msg")
    case True
    then have room: "length b + length msg < kAsyncBuffer" by (simp add: LogBuffer_avail_def)
    from True have "AsyncLogging_append msg s = Inr (s\<lparr>al_current := Some (b @ msg)\<rparr>)"
      by (simp add: AsyncLogging_append_def b(1) LogBuffer_append_def LogBuffer_avail_def)
    moreover have "async_inv bn rs (s\<lparr>al_current := Some (b @ msg)\<rparr>) (ms @ [msg])"
      using assms(1,2) b room pc
      by (cases "al_pc s = AtWrite") (simp_all add: async_inv_def in_hand_def)
    ultimately show ?thesis by blast
  next
    case False
    let ?s' = "s\<lparr>al_buffers := al_buffers s @ [Some b], al_next := None, al_current := Some msg\<rparr>"
    have "(case al_next s of Some n \<Rightarrow> n | None \<Rightarrow> []) = []" using async_invD(4) [OF assms(1)] by auto
    then have "AsyncLogging_append msg s = Inr ?s'"
      using False assms(3) by (simp add: AsyncLogging_append_def b(1) LogBuffer_append_def Let_def)
    moreover have "msg \<noteq> []" using False b(2) by (auto simp: LogBuffer_avail_def)
    then have "async_inv bn rs ?s' (ms @ [msg])"
      using assms b pc by (cases "al_pc s = AtWrite") (simp_all add: async_inv_def in_hand_def)
    ultimately show ?thesis by blast
  qed
qed

lemma begin_inv:
  assumes "async_inv bn rs s ms" "al_pc s = NotStarted" "rollFile bn micros pid = Inr n"
  shows "\<exists>s'. backend_begin micros pid s = Inr s' \<and> async_inv bn rs s' ms \<and> al_pc s' = AtLoop \<and>
    al_running s' = al_running s \<and> al_stopped s' = al_stopped s"
  using assms by (auto simp: backend_begin_def async_inv_def in_hand_def files_text_def)

lemma test_inv:
  assumes "async_inv bn rs s ms" "al_pc s = AtLoop"
  shows "async_inv bn rs (backend_test s) ms"
  using assms by (auto simp: backend_test_def async_inv_def in_hand_def)

lemma idle_inv:
  assumes "async_inv bn rs s ms"
  shows "backend_idle s = Inr (al_running s \<and> al_buffers s = [] \<and> al_current s = Some [])"
  using async_invD(3) [OF assms] by (auto simp: backend_idle_def ptr_size_def)

lemma swap_inv:
  assumes "async_inv bn rs s ms" "al_pc s = AtWait"
  shows "async_inv bn rs (backend_swap s) ms" "al_current (backend_swap s) = Some []"
    "al_buffers (backend_swap s) = []" "al_pc (backend_swap s) = AtWrite"
    "al_running (backend_swap s) = al_running s" "al_stopped (backend_swap s) = al_stopped s"
proof -
  note inv = async_invD [OF assms(1)]
  obtain b where b: "al_current s = Some b" "al_stopped s \<longrightarrow> b = []"
    "files_text (al_files s) @ in_hand s @ ptrs_text (al_buffers s) @ b = concat ms"
    using inv(3) by blast
  have hand: "in_hand s = []" using assms(2) by (simp add: in_hand_def)
  have bufs: "al_buffer1 s = Some []" "al_buffer2 s = Some []" "al_local s = []"
    using inv(6,7) assms(2) by simp_all
  show fields: "al_current (backend_swap s) = Some []" "al_buffers (backend_swap s) = []"
    "al_pc (backend_swap s) = AtWrite" "al_running (backend_swap s) = al_running s"
    "al_stopped (backend_swap s) = al_stopped s"
    by (simp_all add: backend_swap_def Let_def bufs)
  have more: "al_local (backend_swap s) = al_buffers s @ [Some b]"
    "al_files (backend_swap s) = al_files s" "al_written (backend_swap s) = al_written s"
    "al_basename (backend_swap s) = al_basename s" "al_rollSize (backend_swap s) = al_rollSize s"
    "al_next (backend_swap s) = Some []" "al_buffer2 (backend_swap s) \<in> {None, Some []}"
    using inv(4) by (auto simp: backend_swap_def Let_def bufs b(1))
  show "async_inv bn rs (backend_swap s) ms"
    unfolding async_inv_def fields more in_hand_def
    using inv b hand assms(2) more(7) by (simp add: kAsyncBuffer_def)
qed

lemma files_text_file_append: "fs \<noteq> [] \<Longrightarrow> files_text (file_append b fs) = files_text fs @ b"
  by (cases fs rule: rev_cases) (simp_all add: files_text_def file_append_def)

text \<open>Writing the buffers in hand to the open file.\<close>

lemma sum_sizes_ok: "None \<notin> set ps \<Longrightarrow> sum_sizes ps = Inr (to_int32 (int (length (ptrs_text ps))))"
proof -
  have "None \<notin> set ps \<Longrightarrow>
    foldR (\<lambda>p needWrite. bindR (ptr_size p) (\<lambda>k. Inr (to_int32 (needWrite + int k)))) ps (to_int32 n) =
      Inr (to_int32 (n + int (length (ptrs_text ps))))" for n
  proof (induction ps arbitrary: n)
    case (Cons p ps)
    then obtain b where "p = Some b" by (cases p) auto
    with Cons show ?case by (simp add: ptr_size_def ptrs_text_def add.assoc)
  qed (simp add: ptrs_text_def)
  from this [of 0] show "None \<notin> set ps \<Longrightarrow> sum_sizes ps = Inr (to_int32 (int (length (ptrs_text ps))))"
    by (simp add: sum_sizes_def)
qed

lemma write_files:
  assumes "None \<notin> set ps" "fs \<noteq> []"
  shows "\<exists>fs'. foldR (\<lambda>p fs. case p of None \<Rightarrow> Inl NullDeref | Some b \<Rightarrow> Inr (file_append b fs)) ps fs = Inr fs' \<and>
    fs' \<noteq> [] \<and> files_text fs' = files_text fs @ ptrs_text ps \<and>
    length (snd (last fs')) = length (snd (last fs)) + length (ptrs_text ps)"
  using assms
proof (induction ps arbitrary: fs)
  case Nil
  then show ?case by (simp add: ptrs_text_def)
next
  case (Cons p ps)
  then obtain b where p: "p = Some b" by (cases p) auto
  have "file_append b fs \<noteq> []" "length (snd (last (file_append b fs))) = length (snd (last fs)) + length b"
    using Cons.prems(2) by (simp_all add: file_append_def)
  with Cons.IH [of "file_append b fs"] Cons.prems files_text_file_append [OF Cons.prems(2), of b] show ?case
    by (auto simp: p ptrs_text_def)
qed

lemma write_inv:
  assumes "async_inv bn rs s ms" "al_pc s = AtWrite" "rollFile bn micros pid = Inr n"
  shows "\<exists>s'. backend_write micros pid s = Inr s' \<and> async_inv bn rs s' ms \<and> al_pc s' = AtLoop \<and>
    al_running s' = al_running s \<and> al_stopped s' = al_stopped s \<and> al_current s' = al_current s \<and>
    files_text (al_files s') = files_text (al_files s) @ ptrs_text (al_local s) \<and>
    (length (concat ms) < 2 ^ 31 \<longrightarrow> int (length (ptrs_text (al_local s))) \<le> rs \<longrightarrow>
      int (length (snd (last (al_files s')))) \<le> rs)"
proof -
  note inv = async_invD [OF assms(1)]
  obtain b where b: "al_current s = Some b" "length b < kAsyncBuffer" "al_buffers s \<noteq> [] \<longrightarrow> b \<noteq> []"
    "al_stopped s \<longrightarrow> b = []"
    "files_text (al_files s) @ ptrs_text (al_local s) @ ptrs_text (al_buffers s) @ b = concat ms"
    using inv(3) assms(2) by (auto simp: in_hand_def)
  have loc: "None \<notin> set (al_local s)" "al_files s \<noteq> []" "al_buffer2 s \<in> {None, Some []}"
    using inv(8,9) assms(2) by simp_all
  let ?need = "length (ptrs_text (al_local s))"
  let ?roll = "to_int32 (al_written s + to_int32 (int ?need)) > rs"
  let ?fs = "if ?roll then al_files s @ [(n, [])] else al_files s"
  let ?w = "if ?roll then 0 else al_written s"
  have w: "?w = to_int32 (int (length (snd (last ?fs))))" using inv(10) loc(2) by simp
  have fs: "?fs \<noteq> []" "files_text ?fs = files_text (al_files s)" using loc(2) by (simp_all add: files_text_def)
  from write_files [OF loc(1) fs(1)] fs(2) obtain fs' where fs':
    "foldR (\<lambda>p fs. case p of None \<Rightarrow> Inl NullDeref | Some b \<Rightarrow> Inr (file_append b fs)) (al_local s) ?fs = Inr fs'"
    "fs' \<noteq> []" "files_text fs' = files_text (al_files s) @ ptrs_text (al_local s)"
    "length (snd (last fs')) = length (snd (last ?fs)) + ?need" by auto
  let ?b2 = "if al_buffer2 s = None then Some [] else al_buffer2 s"
  let ?s' = "s\<lparr>al_buffer1 := Some [], al_buffer2 := ?b2, al_files := fs',
    al_written := to_int32 (?w + to_int32 (int ?need)), al_pc := AtLoop\<rparr>"
  have "backend_write micros pid s = Inr ?s'"
    using sum_sizes_ok [OF loc(1)] fs'(1) assms(3) inv(1,2)
    by (cases ?roll) (simp_all add: backend_write_def Let_def)
  moreover have "async_inv bn rs ?s' ms"
    using inv b fs' loc w assms(2) by (auto simp: async_inv_def in_hand_def)
  moreover have "int (length (snd (last fs'))) \<le> rs" if "length (concat ms) < 2 ^ 31" "int ?need \<le> rs"
  proof (cases ?roll)
    case False
    have "length (snd (last (al_files s))) \<le> length (files_text (al_files s))"
      using loc(2) by (cases "al_files s" rule: rev_cases) (simp_all add: files_text_def)
    then have "length (snd (last (al_files s))) + ?need \<le> length (concat ms)"
      unfolding b(5) [symmetric] by simp
    with False fs'(4) inv(10) loc(2) that(1) show ?thesis by simp
  qed (use fs'(4) that in simp)
  ultimately show ?thesis using fs'(3) by (intro exI [of _ ?s']) simp
qed

text \<open>Every step preserves the invariant, and none faults.\<close>

lemma async_step_inv:
  assumes "async_inv bn rs s ms" "event_ok bn e" "async_step e s = Some r"
  shows "\<exists>s'. r = Inr s' \<and> async_inv bn rs s' (ms @ appended e)"
proof (cases e)
  case (Append msg)
  with assms append_inv [OF assms(1), of msg] show ?thesis
    by (auto simp: event_ok_def split: if_splits)
next
  case (Begin micros pid)
  with assms begin_inv [OF assms(1), of micros pid] show ?thesis
    by (fastforce simp: event_ok_def split: if_splits)
next
  case Test
  with assms test_inv [OF assms(1)] show ?thesis by (auto split: if_splits)
next
  case Swap
  with assms(3) idle_inv [OF assms(1)] have "al_pc s = AtWait" "r = Inr (backend_swap s)"
    by (auto split: if_splits bool.splits)
  with swap_inv(1) [OF assms(1)] Swap show ?thesis by simp
next
  case (Write micros pid)
  with assms write_inv [OF assms(1), of micros pid] show ?thesis
    by (fastforce simp: event_ok_def split: if_splits)
next
  case StopLook
  obtain b where b: "al_current s = Some b" "al_buffers s \<noteq> [] \<longrightarrow> b \<noteq> []"
    using async_invD(3) [OF assms(1)] by blast
  with assms(3) StopLook have *: "al_running s" "\<not> al_stopped s"
    "r = (if b = [] then Inr (s\<lparr>al_stopped := True\<rparr>) else Inr s)"
    by (simp_all split: if_splits)
  have "async_inv bn rs (s\<lparr>al_stopped := True\<rparr>) ms" if "b = []"
  proof -
    have "al_buffers s = []" using b(2) that by blast
    with assms(1) b(1) that * show ?thesis by (simp add: async_inv_def)
  qed
  with *(3) assms(1) StopLook show ?thesis by simp
next
  case StopClear
  with assms(3) have "al_stopped s" "r = Inr (s\<lparr>al_running := False\<rparr>)" by (simp_all split: if_splits)
  moreover have "async_inv bn rs (s\<lparr>al_running := False\<rparr>) ms" if "al_stopped s"
    using assms(1) that by (auto simp: async_inv_def)
  ultimately show ?thesis using StopClear by simp
qed

text \<open>A sequence of steps.\<close>

fun async_steps :: "async_event list \<Rightarrow> asynclog \<Rightarrow> asynclog res option" where
  "async_steps [] s = Some (Inr s)"
| "async_steps (e # es) s = bindO (async_step e s) (async_steps es)"

interpretation async: logged_steps async_step "\<lambda>ms s. async_inv bn rs s ms" appended "event_ok bn" async_steps for bn rs
  by unfold_locales (simp_all add: async_step_inv)

lemma async_run_inv: "async_run bn rs s ms \<Longrightarrow> async_inv bn rs s ms"
proof (induction rule: async_run.induct)
  case (started s)
  then show ?case by (rule async_inv_started)
next
  case (stepped s ms e s')
  then show ?case using async.step_keeps by blast
qed

subsection \<open>stop can always finish\<close>

text \<open>The back end gets from anywhere to its loop, then empties the buffers.\<close>

lemma backend_to_loop:
  assumes "async_inv bn rs s ms" "rollFile bn micros pid = Inr n" "al_pc s \<noteq> Finished"
  shows "\<exists>es s'. set es \<subseteq> {Begin micros pid, Test, Swap, Write micros pid} \<and> length es \<le> 2 \<and>
    async_steps es s = Some (Inr s') \<and> async_inv bn rs s' ms \<and>
    al_running s' = al_running s \<and> al_stopped s' = al_stopped s \<and>
    (al_pc s' = AtLoop \<or> al_pc s' = AtWait \<and> al_running s \<and> al_current s' = Some [] \<and> al_buffers s' = [])"
proof (cases "al_pc s")
  case NotStarted
  from begin_inv [OF assms(1) this assms(2)] obtain s' where
    "backend_begin micros pid s = Inr s'" "async_inv bn rs s' ms" "al_pc s' = AtLoop"
    "al_running s' = al_running s" "al_stopped s' = al_stopped s" by blast
  with NotStarted show ?thesis
    by (intro exI [of _ "[Begin micros pid]"] exI [of _ s']) simp
next
  case AtLoop
  with assms(1) show ?thesis by (intro exI [of _ "[]"] exI [of _ s]) simp
next
  case AtWait
  show ?thesis
  proof (cases "al_running s \<and> al_buffers s = [] \<and> al_current s = Some []")
    case True
    with AtWait assms(1) show ?thesis by (intro exI [of _ "[]"] exI [of _ s]) simp
  next
    case False
    note swap = swap_inv [OF assms(1) AtWait]
    from write_inv [OF swap(1,4) assms(2)] obtain s' where
      "backend_write micros pid (backend_swap s) = Inr s'" "async_inv bn rs s' ms" "al_pc s' = AtLoop"
      "al_running s' = al_running s" "al_stopped s' = al_stopped s" using swap(5,6) by auto
    moreover have "async_step Swap s = Some (Inr (backend_swap s))"
      using False AtWait idle_inv [OF assms(1)] by auto
    ultimately show ?thesis using swap(4)
      by (intro exI [of _ "[Swap, Write micros pid]"] exI [of _ s']) simp
  qed
next
  case AtWrite
  from write_inv [OF assms(1) this assms(2)] obtain s' where
    "backend_write micros pid s = Inr s'" "async_inv bn rs s' ms" "al_pc s' = AtLoop"
    "al_running s' = al_running s" "al_stopped s' = al_stopped s" by blast
  with AtWrite show ?thesis
    by (intro exI [of _ "[Write micros pid]"] exI [of _ s']) simp
next
  case Finished
  with assms(3) show ?thesis by simp
qed

lemma loop_empties:
  assumes "async_inv bn rs s ms" "rollFile bn micros pid = Inr n" "al_running s" "al_pc s = AtLoop"
  shows "\<exists>es s'. set es \<subseteq> {Begin micros pid, Test, Swap, Write micros pid} \<and> length es \<le> 3 \<and>
    async_steps es s = Some (Inr s') \<and> async_inv bn rs s' ms \<and> al_running s' \<and>
    al_stopped s' = al_stopped s \<and> al_current s' = Some [] \<and> al_pc s' \<noteq> Finished"
proof -
  let ?s1 = "backend_test s"
  have s1: "async_inv bn rs ?s1 ms" "al_pc ?s1 = AtWait" "al_running ?s1" "al_stopped ?s1 = al_stopped s"
    using test_inv [OF assms(1,4)] assms(3) by (simp_all add: backend_test_def)
  have test: "async_step Test s = Some (Inr ?s1)" using assms(4) by simp
  show ?thesis
  proof (cases "al_buffers ?s1 = [] \<and> al_current ?s1 = Some []")
    case True
    with s1 test show ?thesis by (intro exI [of _ "[Test]"] exI [of _ ?s1]) simp
  next
    case False
    note swap = swap_inv [OF s1(1,2)]
    from write_inv [OF swap(1,4) assms(2)] obtain s' where
      "backend_write micros pid (backend_swap ?s1) = Inr s'" "async_inv bn rs s' ms" "al_pc s' = AtLoop"
      "al_running s'" "al_stopped s' = al_stopped s" "al_current s' = Some []"
      using swap(2,5,6) s1(3,4) by auto
    moreover have "async_step Swap ?s1 = Some (Inr (backend_swap ?s1))"
      using False s1(2) idle_inv [OF s1(1)] by auto
    ultimately show ?thesis using swap(4) test
      by (intro exI [of _ "[Test, Swap, Write micros pid]"] exI [of _ s']) simp
  qed
qed

text \<open>Once \<open>_running\<close> is false the back end runs out.\<close>

lemma backend_ends:
  assumes "async_inv bn rs s ms" "rollFile bn micros pid = Inr n" "\<not> al_running s"
  shows "\<exists>es s'. set es \<subseteq> {Begin micros pid, Test, Swap, Write micros pid} \<and> length es \<le> 3 \<and>
    async_steps es s = Some (Inr s') \<and> async_inv bn rs s' ms \<and> al_pc s' = Finished"
proof (cases "al_pc s = Finished")
  case True
  with assms(1) show ?thesis by (intro exI [of _ "[]"] exI [of _ s]) simp
next
  case False
  from backend_to_loop [OF assms(1,2) False] assms(3) obtain es s' where es:
    "set es \<subseteq> {Begin micros pid, Test, Swap, Write micros pid}" "length es \<le> 2"
    "async_steps es s = Some (Inr s')" "async_inv bn rs s' ms" "\<not> al_running s'" "al_pc s' = AtLoop" by auto
  have "async_steps (es @ [Test]) s = Some (Inr (backend_test s'))"
    using es(3,6) by (simp add: async.steps_append)
  moreover have "al_pc (backend_test s') = Finished" using es(5) by (simp add: backend_test_def)
  ultimately show ?thesis using es(1,2) test_inv [OF es(4,6)]
    by (intro exI [of _ "es @ [Test]"] exI [of _ "backend_test s'"]) auto
qed

lemma finished_complete:
  assumes "async_inv bn rs s ms" "al_pc s = Finished"
  shows "files_text (al_files s) = concat ms"
proof -
  note inv = async_invD [OF assms(1)]
  have "al_stopped s" using inv(11,12) assms(2) by blast
  then obtain b where "b = []" "al_buffers s \<noteq> [] \<longrightarrow> b \<noteq> []"
    "files_text (al_files s) @ in_hand s @ ptrs_text (al_buffers s) @ b = concat ms"
    using inv(3) by blast
  then show ?thesis using assms(2) by (auto simp: in_hand_def)
qed

lemma finished_destroy: "async_inv bn rs s ms \<Longrightarrow> al_pc s = Finished \<Longrightarrow> AsyncLogging_destroy s = Inr ()"
  using async_invD(12) [of bn rs s ms] by (simp add: AsyncLogging_destroy_def)

lemma stop_finishes:
  assumes "async_inv bn rs s ms" "rollFile bn micros pid = Inr n"
  shows "\<exists>es s'. set es \<subseteq> {Begin micros pid, Test, Swap, Write micros pid, StopLook, StopClear} \<and>
    length es \<le> 10 \<and> async_steps es s = Some (Inr s') \<and> async_inv bn rs s' ms \<and> al_pc s' = Finished"
proof -
  let ?E = "{Begin micros pid, Test, Swap, Write micros pid}"
  have clear: "\<exists>es s'. set es \<subseteq> ?E \<union> {StopLook, StopClear} \<and> length es \<le> 5 \<and>
      async_steps es t = Some (Inr s') \<and> async_inv bn rs s' ms \<and> al_pc s' = Finished"
    if t: "async_inv bn rs t ms" "al_stopped t \<or> al_current t = Some []" for t
  proof -
    have "\<exists>fs u. set fs \<subseteq> {StopLook, StopClear} \<and> length fs \<le> 2 \<and> async_steps fs t = Some (Inr u) \<and>
      async_inv bn rs u ms \<and> \<not> al_running u"
    proof (cases "al_running t")
      case False
      with t(1) show ?thesis by (intro exI [of _ "[]"] exI [of _ t]) simp
    next
      case run: True
      have fin: "async_inv bn rs (v\<lparr>al_running := False\<rparr>) ms" if "async_inv bn rs v ms" "al_running v" "al_stopped v" for v
        using async_step_inv [OF that(1), of StopClear] that(2,3) by (simp add: event_ok_def)
      show ?thesis
      proof (cases "al_stopped t")
        case True
        with run t(1) fin [of t] show ?thesis
          by (intro exI [of _ "[StopClear]"] exI [of _ "t\<lparr>al_running := False\<rparr>"]) simp
      next
        case False
        let ?v = "t\<lparr>al_stopped := True\<rparr>"
        have "async_step StopLook t = Some (Inr ?v)" using t(2) run False by simp
        moreover from this have "async_inv bn rs ?v ms"
          using async_step_inv [OF t(1), of StopLook] by (simp add: event_ok_def)
        ultimately show ?thesis using run fin [of ?v]
          by (intro exI [of _ "[StopLook, StopClear]"] exI [of _ "?v\<lparr>al_running := False\<rparr>"]) simp
      qed
    qed
    then obtain fs u where fs: "set fs \<subseteq> {StopLook, StopClear}" "length fs \<le> 2"
      "async_steps fs t = Some (Inr u)" "async_inv bn rs u ms" "\<not> al_running u" by blast
    from backend_ends [OF fs(4) assms(2) fs(5)] obtain gs w where "set gs \<subseteq> ?E" "length gs \<le> 3"
      "async_steps gs u = Some (Inr w)" "async_inv bn rs w ms" "al_pc w = Finished" by blast
    with fs show ?thesis
      by (intro exI [of _ "fs @ gs"] exI [of _ w]) (auto simp: async.steps_append)
  qed
  show ?thesis
  proof (cases "al_running s")
    case False
    with clear [OF assms(1)] async_invD(11) [OF assms(1)] show ?thesis by (fastforce intro: le_trans)
  next
    case True
    then have "al_pc s \<noteq> Finished" using async_invD(12) [OF assms(1)] by blast
    from backend_to_loop [OF assms(1,2) this] True obtain es t where es: "set es \<subseteq> ?E" "length es \<le> 2"
      "async_steps es s = Some (Inr t)" "async_inv bn rs t ms" "al_running t"
      "al_pc t = AtLoop \<or> al_current t = Some []" by auto
    have "\<exists>fs u. set fs \<subseteq> ?E \<and> length fs \<le> 3 \<and> async_steps fs t = Some (Inr u) \<and>
      async_inv bn rs u ms \<and> al_current u = Some []"
    proof (cases "al_current t = Some []")
      case True
      with es(4) show ?thesis by (intro exI [of _ "[]"] exI [of _ t]) simp
    next
      case False
      with loop_empties [OF es(4) assms(2) es(5)] es(6) show ?thesis by blast
    qed
    then obtain fs u where fs: "set fs \<subseteq> ?E" "length fs \<le> 3" "async_steps fs t = Some (Inr u)"
      "async_inv bn rs u ms" "al_current u = Some []" by blast
    from clear [OF fs(4)] fs(5) obtain gs w where "set gs \<subseteq> ?E \<union> {StopLook, StopClear}" "length gs \<le> 5"
      "async_steps gs u = Some (Inr w)" "async_inv bn rs w ms" "al_pc w = Finished" by blast
    with es(1-3) fs(1-3) show ?thesis
      by (intro exI [of _ "es @ fs @ gs"] exI [of _ w]) (auto simp: async.steps_append)
  qed
qed

subsection \<open>The back end as an output function\<close>

definition all_text :: "asynclog \<Rightarrow> string" where
  "all_text s = files_text (al_files s) @ in_hand s @ ptrs_text (al_buffers s) @ the (al_current s)"

definition accepting :: "string \<Rightarrow> int \<Rightarrow> asynclog \<Rightarrow> bool" where
  "accepting bn rs s \<longleftrightarrow> (\<exists>ms. async_inv bn rs s ms) \<and> \<not> al_stopped s"

lemma all_text_inv: "async_inv bn rs s ms \<Longrightarrow> all_text s = concat ms"
  using async_invD(3) [of bn rs s ms] by (elim meta_impE exE conjE) (simp_all add: all_text_def)

lemma append_stopped: "AsyncLogging_append msg s = Inr s' \<Longrightarrow> al_stopped s' = al_stopped s"
  by (auto simp: AsyncLogging_append_def LogBuffer_append_def Let_def split: option.splits if_splits)

interpretation back_end: log_sink AsyncLogging_append all_text "accepting bn rs" kAsyncBuffer for bn rs
proof unfold_locales
  fix s and msg :: string
  assume a: "accepting bn rs s" "length msg < kAsyncBuffer"
  then obtain ms where ms: "async_inv bn rs s ms" "\<not> al_stopped s"
    unfolding accepting_def by blast
  obtain s' where s': "AsyncLogging_append msg s = Inr s'" "async_inv bn rs s' (ms @ [msg])"
    using append_inv [OF ms a(2)] by blast
  have "\<not> al_stopped s'" using append_stopped [OF s'(1)] ms(2) by simp
  with s' have "accepting bn rs s'" unfolding accepting_def by blast
  moreover have "all_text s' = all_text s @ msg"
    using all_text_inv [OF ms(1)] all_text_inv [OF s'(2)] by simp
  ultimately show "\<exists>s'. AsyncLogging_append msg s = Inr s' \<and> accepting bn rs s' \<and> all_text s' = all_text s @ msg"
    using s'(1) by blast
qed

lemma new_accepting:
  "\<exists>s. AsyncLogging_start (AsyncLogging_new bn rs) = Inr s \<and> accepting bn rs s \<and> all_text s = []"
proof -
  obtain s where s: "AsyncLogging_start (AsyncLogging_new bn rs) = Inr s" "\<not> al_stopped s"
    by (simp add: AsyncLogging_start_def AsyncLogging_new_def)
  with async_inv_started [OF s(1)] all_text_inv [OF async_inv_started [OF s(1)]] show ?thesis
    by (auto simp: accepting_def)
qed

subsection \<open>Properties\<close>

lemma rollFile_name:
  assumes "second_ok (micros div 1000000)"
  shows "rollFile bn micros (int pid) =
    (let name = bn @ ''.'' @ take 10 (instant_text micros) @ ''.'' @ rev (decimals pid) @ ''.log0'' in
     if length name \<ge> 100 then Inl OutOfBounds else Inr name)"
proof -
  have "0 \<le> micros" using assms pos_imp_zdiv_nonneg_iff [of 1000000 micros] by (simp add: second_ok_def)
  then have div: "micros sdiv 1000000 = micros div 1000000" by simp
  obtain r where r: "FastSecondToDate (micros div 1000000) 8 = Inr r" "strftime r = second_text (micros div 1000000)"
    using strftime_second(1) [OF assms] by blast
  let ?date = "padded 1 (tm_year r + 1900) @ ''-'' @ padded 2 (tm_mon r + 1) @ ''-'' @ padded 2 (tm_mday r)"
  let ?time = "'' '' @ padded 2 (tm_hour r) @ '':'' @ padded 2 (tm_min r) @ '':'' @ padded 2 (tm_sec r)"
  have len: "length ?date = 10"
    using FastSecondToDate_day_length [OF assms r(1)] by simp
  have "instant_text micros = ?date @ ?time @ ''.'' @ padded 6 (micros mod 1000000)"
    unfolding instant_text_def r(2) [symmetric] strftime_def by simp
  then have "take 10 (instant_text micros) = ?date" using len by (metis append_eq_conv_conj)
  then show ?thesis
    by (simp add: rollFile_def div r(1) formatInteger_nat c_str_id [OF printed_no_null(1)] Let_def)
qed

text \<open>The watcher of a program: a back end started with files of at most 100 MB.\<close>

definition AsyncLoggingWatcher :: "string \<Rightarrow> asynclog res" where
  "AsyncLoggingWatcher progname = AsyncLogging_start (AsyncLogging_new progname (1000 * 1000 * 100))"

definition AsyncLogOutput :: "string \<Rightarrow> asynclog \<Rightarrow> asynclog res" where
  "AsyncLogOutput msg g_asyncLog = AsyncLogging_append msg g_asyncLog"

inductive_cases async_runE: "async_run bn rs s ms"

lemma async_run_steps:
  "async_run bn rs s ms \<Longrightarrow> list_all (event_ok bn) es \<Longrightarrow> async_steps es s = Some (Inr s') \<Longrightarrow>
    async_run bn rs s' (ms @ concat (map appended es))"
proof (induction es arbitrary: s ms)
  case (Cons e es)
  from Cons.prems(3) obtain t where t: "async_step e s = Some (Inr t)" "async_steps es t = Some (Inr s')"
    by (auto simp: bindO_Inr)
  have "async_run bn rs t (ms @ appended e)"
    using async_run.stepped [OF Cons.prems(1) _ t(1)] Cons.prems(2) by simp
  from Cons.IH [OF this _ t(2)] Cons.prems(2) show ?case by simp
qed simp

text \<open>A run to apply the properties to: three appends around one round of the back end.\<close>

definition sample_events :: "async_event list" where
  "sample_events = [Append ''ab'', Begin 1000007 42, Test, Swap, Append ''c'']"

lemma sample_name:
  "rollFile ''server'' 1000007 (int 42) = Inr ''server.1970-01-01.42.log0''"
proof -
  have i: "instant_text 1000007 = ''1970-01-01 08:00:01.000007''" and d: "decimals 42 = ''24''" by code_simp+
  have "second_ok (1000007 div 1000000)" by (simp add: second_ok_def)
  from rollFile_name [OF this, of "''server''" 42] show ?thesis by (simp add: i d Let_def)
qed

lemma sample_run:
  "\<exists>s. async_run ''server'' 100 s [''ab'', ''c''] \<and> al_pc s = AtWrite \<and> al_local s = [Some ''ab''] \<and>
    al_running s \<and> \<not> al_stopped s"
proof -
  obtain s0 where s0: "AsyncLogging_start (AsyncLogging_new ''server'' 100) = Inr s0"
    by (simp add: AsyncLogging_start_def)
      (simp add: AsyncLogging_new_def)
  have ok: "list_all (event_ok ''server'') sample_events"
    using sample_name by (simp add: sample_events_def event_ok_def kAsyncBuffer_def)
  have "\<exists>s. async_steps sample_events s0 = Some (Inr s) \<and> al_pc s = AtWrite \<and> al_local s = [Some ''ab''] \<and>
    al_running s \<and> \<not> al_stopped s"
    using s0 sample_name
    by (auto simp: sample_events_def AsyncLogging_start_def AsyncLogging_new_def AsyncLogging_append_def
        LogBuffer_avail_def LogBuffer_append_def kAsyncBuffer_def backend_begin_def backend_test_def
        backend_idle_def ptr_size_def backend_swap_def Let_def)
  then obtain s where s: "async_steps sample_events s0 = Some (Inr s)" "al_pc s = AtWrite"
    "al_local s = [Some ''ab'']" "al_running s" "\<not> al_stopped s" by blast
  from async_run_steps [OF async_run.started [OF s0] ok s(1)] s show ?thesis
    by (auto simp: sample_events_def)
qed

text \<open>
  C4: At every moment of every interleaving the appended messages are, in the order of the appends
  and without loss or repetition, in the files, then in the hands of the back end, then in the full
  buffers, then in the current buffer. When the back end has finished they are all in the files. No
  step follows a null buffer or overruns one, as long as messages are shorter than a buffer and file
  names fit their array.
\<close>

theorem async_nothing_lost:
  assumes "async_run bn rs s ms"
  shows "files_text (al_files s) @ in_hand s @ ptrs_text (al_buffers s) @ the (al_current s) = concat ms \<and>
    (al_pc s = Finished \<longrightarrow> files_text (al_files s) = concat ms) \<and>
    (event_ok bn e \<longrightarrow> async_step e s \<noteq> Some (Inl f))"
  using all_text_inv [OF async_run_inv [OF assms]] finished_complete [OF async_run_inv [OF assms]]
    async.no_fault [OF async_run_inv [OF assms], of e f]
  by (simp add: all_text_def)

theorem async_nothing_lost_witness:
  "\<exists>s. al_pc s = AtWrite \<and>
    files_text (al_files s) @ in_hand s @ ptrs_text (al_buffers s) @ the (al_current s) = ''abc'' \<and>
    async_step (Write 1000007 42) s \<noteq> Some (Inl NullDeref)"
proof -
  obtain s where s: "async_run ''server'' 100 s [''ab'', ''c'']" "al_pc s = AtWrite" using sample_run by blast
  have "event_ok ''server'' (Write 1000007 42)" using sample_name by (simp add: event_ok_def)
  with async_nothing_lost [OF s(1), of "Write 1000007 42" NullDeref] s(2) show ?thesis
    by (intro exI [of _ s]) simp
qed

text \<open>
  C23: From every reachable state stop can be brought to its end: at most ten steps of stop and of
  the back end, with nothing appended, lead to a state where the back end has finished, every
  message ever appended is in the files, and the object can be destroyed.
\<close>

theorem async_stop_finishes:
  assumes "async_run bn rs s ms" "rollFile bn micros pid = Inr n"
  shows "\<exists>es s'. set es \<subseteq> {Begin micros pid, Test, Swap, Write micros pid, StopLook, StopClear} \<and>
    length es \<le> 10 \<and> async_steps es s = Some (Inr s') \<and> al_pc s' = Finished \<and>
    files_text (al_files s') = concat ms \<and> AsyncLogging_destroy s' = Inr ()"
  using stop_finishes [OF async_run_inv [OF assms(1)] assms(2)] finished_complete finished_destroy by blast

theorem async_stop_finishes_witness:
  "\<exists>s es s'. async_run ''server'' 100 s [''ab'', ''c''] \<and> length es \<le> 10 \<and>
    async_steps es s = Some (Inr s') \<and> al_pc s' = Finished \<and> files_text (al_files s') = ''abc''"
proof -
  obtain s where s: "async_run ''server'' 100 s [''ab'', ''c'']" using sample_run by blast
  from async_stop_finishes [OF s sample_name] s show ?thesis by auto
qed

text \<open>
  As long as less than 2^31 bytes have been logged, a round of the back end whose buffers hold no
  more than the roll size writes them all and leaves an open file of at most that size; a file
  outgrows it only by one larger batch.
\<close>

theorem async_file_bound:
  assumes "async_run bn rs s ms" "al_pc s = AtWrite" "rollFile bn micros pid = Inr n"
    and "int (length (ptrs_text (al_local s))) \<le> rs" "length (concat ms) < 2 ^ 31"
  shows "\<exists>s'. backend_write micros pid s = Inr s' \<and>
    files_text (al_files s') = files_text (al_files s) @ ptrs_text (al_local s) \<and>
    int (length (snd (last (al_files s')))) \<le> rs"
proof -
  note inv = async_run_inv [OF assms(1)]
  obtain s' where s': "backend_write micros pid s = Inr s'"
    "int (length (snd (last (al_files s')))) \<le> rs" "files_text (al_files s') = files_text (al_files s) @ ptrs_text (al_local s)"
    using write_inv [OF inv assms(2,3)] assms(4,5) by blast
  then show ?thesis by blast
qed

theorem async_file_bound_witness:
  "\<exists>s s'. async_run ''server'' 100 s [''ab'', ''c''] \<and> backend_write 1000007 42 s = Inr s' \<and>
    int (length (snd (last (al_files s')))) \<le> 100"
proof -
  obtain s where s: "async_run ''server'' 100 s [''ab'', ''c'']" "al_pc s = AtWrite" "al_local s = [Some ''ab'']"
    using sample_run by blast
  from async_file_bound [OF s(1,2) sample_name] s show ?thesis by auto
qed

text \<open>
  A log file has the name the program gives its logs, the day in the time zone UTC+8, the
  process and the suffix .log0. A name of 100 characters or more overruns the array it is
  copied to.
\<close>

theorem rollFile_correct:
  assumes "second_ok (micros div 1000000)"
  shows "rollFile bn micros (int pid) =
    (let name = bn @ ''.'' @ take 10 (instant_text micros) @ ''.'' @ rev (decimals pid) @ ''.log0'' in
     if length name \<ge> 100 then Inl OutOfBounds else Inr name)"
  by (rule rollFile_name [OF assms])

theorem rollFile_correct_witness:
  "rollFile ''server'' 1000007 42 = Inr ''server.1970-01-01.42.log0'' \<and>
   rollFile (replicate 100 CHR ''a'') 1000007 42 = Inl OutOfBounds"
proof -
  have i: "instant_text 1000007 = ''1970-01-01 08:00:01.000007''" and d: "decimals 42 = ''24''" by code_simp+
  have ok: "second_ok (1000007 div 1000000)" by (simp add: second_ok_def)
  show ?thesis
    using rollFile_correct [OF ok, of "''server''" 42] rollFile_correct [OF ok, of "replicate 100 CHR ''a''" 42]
    by (simp add: i d Let_def)
qed

end
