(* ===== verification/Logger.thy ===== *)
theory Logger
  imports LogStream
begin

text \<open>
  The logger of \<open>log/logger.h\<close> and \<open>log/logger.cpp\<close>: one instance for the program with a level, one
  stream for every thread that logs, the macros that skip records below the level, and the release
  of everything at the end.
\<close>

subsection \<open>Levels\<close>

fun level_number :: "level \<Rightarrow> nat" where
  "level_number NONE = 0"
| "level_number TRACE = 1"
| "level_number INFO = 2"
| "level_number DEBUG = 3"
| "level_number WARN = 4"
| "level_number ERROR = 5"
| "level_number FATAL = 6"

lemma level_number_inject: "level_number a = level_number b \<longleftrightarrow> a = b"
  by (cases a; cases b) simp_all

instantiation level :: linorder
begin

definition less_eq_level :: "level \<Rightarrow> level \<Rightarrow> bool" where
  "less_eq_level a b \<longleftrightarrow> level_number a \<le> level_number b"

definition less_level :: "level \<Rightarrow> level \<Rightarrow> bool" where
  "less_level a b \<longleftrightarrow> level_number a < level_number b"

instance
  by standard (auto simp: less_eq_level_def less_level_def level_number_inject)

end

subsection \<open>State\<close>

text \<open>
  \<open>lg_streams\<close> are all streams ever made, freed ones as \<open>None\<close>; \<open>lg_pStream\<close> is the variable
  \<open>t_pLogStream\<close> of each thread, an index into them. \<open>lg_out\<close> is what the destroyed streams have
  passed to the output function. The thread's \<open>t_tm\<close> lives and dies with its stream.
\<close>

record logger =
  lg_instance :: "level option"
  lg_bufferLevel :: int
  lg_streams :: "logstream option list"
  lg_pStream :: "nat \<Rightarrow> nat option"
  lg_out :: "(nat \<times> string list) list"

definition logger_init :: logger where
  "logger_init = \<lparr>lg_instance = None, lg_bufferLevel = kFullBuffer, lg_streams = [], lg_pStream = (\<lambda>_. None), lg_out = []\<rparr>"

definition Logger_getInstance :: "logger \<Rightarrow> logger \<times> level" where
  "Logger_getInstance s =
     (case lg_instance s of Some l \<Rightarrow> (s, l) | None \<Rightarrow> (s\<lparr>lg_instance := Some TRACE\<rparr>, TRACE))"

definition Logger_setLevel :: "level \<Rightarrow> logger \<Rightarrow> logger" where
  "Logger_setLevel l s = (fst (Logger_getInstance s))\<lparr>lg_instance := Some l\<rparr>"

definition Logger_initialize :: "logger \<Rightarrow> logger" where
  "Logger_initialize s = Logger_setLevel WARN s"

definition SetBufferLevel :: "int \<Rightarrow> logger \<Rightarrow> logger" where
  "SetBufferLevel level s = s\<lparr>lg_bufferLevel := level\<rparr>"

text \<open>The stream of a thread, made at its first record.\<close>

definition thread_stream :: "nat \<Rightarrow> logger \<Rightarrow> nat \<times> logger" where
  "thread_stream t s =
     (case lg_pStream s t of
        Some a \<Rightarrow> (a, s)
      | None \<Rightarrow>
          let a = length (lg_streams s) in
          (a, s\<lparr>lg_streams := lg_streams s @ [Some LogStream_new], lg_pStream := (lg_pStream s)(t := Some a)\<rparr>))"

text \<open>Something is done to the stream at an address.\<close>

definition on_stream :: "nat \<Rightarrow> (logstream \<Rightarrow> logstream res option) \<Rightarrow> logger \<Rightarrow> logger res option" where
  "on_stream a f s =
     (case lg_streams s ! a of
        None \<Rightarrow> Some (Inl UseAfterFree)
      | Some st \<Rightarrow> bindO (f st) (\<lambda>st'. Some (Inr (s\<lparr>lg_streams := (lg_streams s)[a := Some st']\<rparr>))))"

text \<open>\<open>Logger::stream\<close>: the stream of the thread, with the head of a record in it.\<close>

definition Logger_stream :: "nat \<Rightarrow> log_rec \<Rightarrow> logger \<Rightarrow> (nat \<times> logger) res option" where
  "Logger_stream t x s =
     (let (a, s1) = thread_stream t s; bl = lg_bufferLevel s in
      bindO (on_stream a (case lr_func x of
          None \<Rightarrow> makeLog bl (lr_micros x) (lr_tid x) (lr_file x) (lr_line x) (lr_level x)
        | Some f \<Rightarrow> makeLog_func bl (lr_micros x) (lr_tid x) (lr_file x) (lr_line x) (lr_level x) f) s1)
      (\<lambda>s2. Some (Inr (a, s2))))"

text \<open>A use of a macro: \<open>LOG_FATAL\<close> always logs, the others from the level of the logger on.\<close>

definition enabled :: "level \<Rightarrow> level \<Rightarrow> bool" where
  "enabled threshold l \<longleftrightarrow> l = FATAL \<or> threshold \<le> l"

definition Logger_log :: "nat \<Rightarrow> log_rec \<Rightarrow> logger \<Rightarrow> logger res option" where
  "Logger_log t x s =
     (let (s1, threshold) = Logger_getInstance s in
      if enabled threshold (lr_level x)
      then bindO (Logger_stream t x s1) (\<lambda>(a, s2). on_stream a (puts_log (lg_bufferLevel s2) (lr_body x)) s2)
      else Some (Inr s1))"

definition Logger_release :: "logger \<Rightarrow> logger res" where
  "Logger_release s =
     (if lg_instance s = None then Inr s
      else bindR (foldR (\<lambda>(a, st) out. case st of None \<Rightarrow> Inr out
             | Some st \<Rightarrow> bindR (LogStream_destroy st) (\<lambda>msgs. Inr (out @ [(a, msgs)])))
             (zip [0..<length (lg_streams s)] (lg_streams s)) (lg_out s)) (\<lambda>out.
        Inr (s\<lparr>lg_streams := map (\<lambda>_. None) (lg_streams s), lg_out := out, lg_instance := None\<rparr>)))"

text \<open>
  The static object \<open>instance_deleter\<close> makes the instance before \<open>main\<close> starts, and releases what
  is left behind its end.
\<close>

definition instance_deleter_new :: "logger \<Rightarrow> logger" where
  "instance_deleter_new s = fst (Logger_getInstance s)"

definition instance_deleter_destroy :: "logger \<Rightarrow> logger res" where
  "instance_deleter_destroy s = Logger_release s"

lemma released_instance: "Logger_release s = Inr s' \<Longrightarrow> instance_deleter_destroy s' = Inr s'"
  by (auto simp: Logger_release_def instance_deleter_destroy_def bindR_eq_Inr_iff split: if_splits)

lemma setLevel_started [simp]: "Logger_setLevel l (instance_deleter_new s) = Logger_setLevel l s"
  by (simp add: Logger_setLevel_def instance_deleter_new_def Logger_getInstance_def split: option.split)

fun Logger_logs :: "(nat \<times> log_rec) list \<Rightarrow> logger \<Rightarrow> logger res option" where
  "Logger_logs [] s = Some (Inr s)"
| "Logger_logs ((t, x) # xs) s = bindO (Logger_log t x s) (Logger_logs xs)"

subsection \<open>Every thread keeps to its stream\<close>

text \<open>The records of a thread that are not skipped.\<close>

definition recs_of :: "level \<Rightarrow> nat \<Rightarrow> (nat \<times> log_rec) list \<Rightarrow> log_rec list" where
  "recs_of threshold t xs = map snd (filter (\<lambda>(t', x). t' = t \<and> enabled threshold (lr_level x)) xs)"

lemma recs_of_snoc:
  "recs_of l t (xs @ [(t', x)]) = recs_of l t xs @ (if t' = t \<and> enabled l (lr_level x) then [x] else [])"
  by (simp add: recs_of_def)

lemma run_logs_snoc: "run_logs bl (xs @ [x]) s = bindO (run_logs bl xs s) (run_rec bl x)"
proof (induction xs arbitrary: s)
  case Nil
  show ?case
  proof (cases "run_rec bl x s")
    case (Some r)
    then show ?thesis by (cases r) simp_all
  qed simp
next
  case (Cons y ys)
  show ?case
  proof (cases "run_rec bl y s")
    case (Some r)
    with Cons show ?thesis by (cases r) simp_all
  qed simp
qed

text \<open>
  After the records \<open>xs\<close>: a thread has a stream as soon as one of its records was not skipped,
  every stream belongs to one thread, and it is what the records of this thread alone make of a
  new stream.
\<close>

definition logger_inv :: "level \<Rightarrow> (nat \<times> log_rec) list \<Rightarrow> logger \<Rightarrow> bool" where
  "logger_inv l xs s \<longleftrightarrow> (lg_instance s = Some l \<or> lg_instance s = None \<and> l = TRACE \<and> xs = []) \<and> lg_out s = [] \<and>
     (\<forall>t. case lg_pStream s t of
        None \<Rightarrow> recs_of l t xs = []
      | Some a \<Rightarrow> a < length (lg_streams s) \<and> recs_of l t xs \<noteq> [] \<and>
          (\<exists>st. lg_streams s ! a = Some st \<and> run_logs (lg_bufferLevel s) (recs_of l t xs) LogStream_new = Some (Inr st))) \<and>
     (\<forall>a < length (lg_streams s). \<exists>!t. lg_pStream s t = Some a)"

lemma logger_inv_init: "logger_inv TRACE [] (SetBufferLevel bl logger_init)"
  by (simp add: logger_inv_def logger_init_def SetBufferLevel_def recs_of_def)

text \<open>A record that is not skipped runs on the stream of its thread.\<close>

lemma log_enabled:
  assumes "Logger_getInstance s = (s1, l)" "enabled l (lr_level x)" "thread_stream t s1 = (a, s2)"
    and "a < length (lg_streams s2)" "lg_streams s2 ! a = Some st" "lg_bufferLevel s2 = lg_bufferLevel s1"
    and "run_rec (lg_bufferLevel s1) x st = Some (Inr st')"
  shows "Logger_log t x s = Some (Inr (s2\<lparr>lg_streams := (lg_streams s2)[a := Some st']\<rparr>))"
proof -
  let ?bl = "lg_bufferLevel s1"
  let ?head = "case lr_func x of
      None \<Rightarrow> makeLog ?bl (lr_micros x) (lr_tid x) (lr_file x) (lr_line x) (lr_level x)
    | Some f \<Rightarrow> makeLog_func ?bl (lr_micros x) (lr_tid x) (lr_file x) (lr_line x) (lr_level x) f"
  have "bindO (?head st) (puts_log ?bl (lr_body x)) = Some (Inr st')"
    using assms(7) by (simp add: run_rec_def split: option.splits)
  then obtain mid where mid: "?head st = Some (Inr mid)" "puts_log ?bl (lr_body x) mid = Some (Inr st')"
    unfolding bindO_Inr by blast
  have "Logger_stream t x s1 = Some (Inr (a, s2\<lparr>lg_streams := (lg_streams s2)[a := Some mid]\<rparr>))"
    unfolding Logger_stream_def Let_def assms(3) prod.case using mid(1) by (simp add: on_stream_def assms(5))
  then show ?thesis
    using mid(2) assms(2,4,6) by (simp add: Logger_log_def assms(1) Let_def on_stream_def)
qed

lemma run_rec_after:
  assumes "run_logs bl rs LogStream_new = Some (Inr st)" "\<forall>y \<in> set (rs @ [x]). rec_ok y"
  shows "\<exists>st'. run_rec bl x st = Some (Inr st')"
  using run_logs_ok [OF between_new assms(2), of bl] assms(1) by (auto simp: run_logs_snoc)

lemma logger_log_inv:
  assumes "logger_inv l xs s" "\<forall>y \<in> snd ` set (xs @ [(t, x)]). rec_ok y"
  shows "\<exists>s'. Logger_log t x s = Some (Inr s') \<and> logger_inv l (xs @ [(t, x)]) s' \<and> lg_bufferLevel s' = lg_bufferLevel s"
proof -
  obtain s1 where s1: "Logger_getInstance s = (s1, l)" "s1 = s\<lparr>lg_instance := Some l\<rparr>"
    using assms(1) by (auto simp: logger_inv_def Logger_getInstance_def split: option.splits)
  note inv = assms(1) [unfolded logger_inv_def]
  show ?thesis
  proof (cases "enabled l (lr_level x)")
    case False
    then have "Logger_log t x s = Some (Inr s1)" by (simp add: Logger_log_def s1(1))
    moreover have "logger_inv l (xs @ [(t, x)]) s1"
      using inv False by (simp add: logger_inv_def s1(2) recs_of_snoc cong: option.case_cong)
    ultimately show ?thesis by (simp add: s1(2))
  next
    case True
    have recs: "\<forall>y \<in> set (recs_of l t xs @ [x]). rec_ok y" using assms(2) by (auto simp: recs_of_def)
    let ?bl = "lg_bufferLevel s"
    have "\<exists>a s2 st. thread_stream t s1 = (a, s2) \<and> a < length (lg_streams s2) \<and> lg_streams s2 ! a = Some st \<and>
        run_logs ?bl (recs_of l t xs) LogStream_new = Some (Inr st) \<and> lg_instance s2 = Some l \<and> lg_out s2 = [] \<and>
        lg_bufferLevel s2 = ?bl \<and> lg_pStream s2 = (lg_pStream s)(t := Some a) \<and>
        (\<forall>b < length (lg_streams s). lg_streams s2 ! b = lg_streams s ! b) \<and>
        (\<forall>t'. t' \<noteq> t \<longrightarrow> lg_pStream s t' \<noteq> Some a) \<and> length (lg_streams s) \<le> length (lg_streams s2) \<and>
        (\<forall>b < length (lg_streams s2). b \<noteq> a \<longrightarrow> b < length (lg_streams s))"
    proof (cases "lg_pStream s t")
      case None
      moreover have "recs_of l t xs = []" using inv None by (auto dest: spec [of _ t])
      moreover have "lg_pStream s t' \<noteq> Some (length (lg_streams s))" for t'
        using inv by (auto dest: spec [of _ t'])
      ultimately show ?thesis using inv
        by (simp add: thread_stream_def s1(2) Let_def nth_append less_Suc_eq)
    next
      case (Some a)
      have "case Some a of None \<Rightarrow> recs_of l t xs = []
        | Some a \<Rightarrow> a < length (lg_streams s) \<and> recs_of l t xs \<noteq> [] \<and>
            (\<exists>st. lg_streams s ! a = Some st \<and> run_logs ?bl (recs_of l t xs) LogStream_new = Some (Inr st))"
        unfolding Some [symmetric] using inv by blast
      then obtain st where a: "a < length (lg_streams s)" "lg_streams s ! a = Some st"
          "run_logs ?bl (recs_of l t xs) LogStream_new = Some (Inr st)" by auto
      have "lg_pStream s t' \<noteq> Some a" if "t' \<noteq> t" for t'
        using inv Some a(1) that by blast
      moreover have "(lg_pStream s)(t := Some a) = lg_pStream s" using Some by (simp add: fun_upd_idem)
      moreover have "lg_out s = []" using inv by blast
      ultimately show ?thesis using Some a
        by (intro exI [of _ a] exI [of _ s1] exI [of _ st]) (simp add: thread_stream_def s1(2))
    qed
    then obtain a s2 st where s2: "thread_stream t s1 = (a, s2)" "a < length (lg_streams s2)" "lg_streams s2 ! a = Some st"
        "run_logs ?bl (recs_of l t xs) LogStream_new = Some (Inr st)" "lg_instance s2 = Some l" "lg_out s2 = []"
        "lg_bufferLevel s2 = ?bl" "lg_pStream s2 = (lg_pStream s)(t := Some a)"
        "\<forall>b < length (lg_streams s). lg_streams s2 ! b = lg_streams s ! b"
        "\<forall>t'. t' \<noteq> t \<longrightarrow> lg_pStream s t' \<noteq> Some a" "length (lg_streams s) \<le> length (lg_streams s2)"
        "\<forall>b < length (lg_streams s2). b \<noteq> a \<longrightarrow> b < length (lg_streams s)"
      by blast
    obtain st' where st': "run_rec ?bl x st = Some (Inr st')" using run_rec_after [OF s2(4) recs] by blast
    let ?s' = "s2\<lparr>lg_streams := (lg_streams s2)[a := Some st']\<rparr>"
    have step: "Logger_log t x s = Some (Inr ?s')"
      using log_enabled [OF s1(1) True s2(1-3)] s2(7) st' by (simp add: s1(2))
    have streams: "case lg_pStream ?s' t' of
          None \<Rightarrow> recs_of l t' (xs @ [(t, x)]) = []
        | Some b \<Rightarrow> b < length (lg_streams ?s') \<and> recs_of l t' (xs @ [(t, x)]) \<noteq> [] \<and>
            (\<exists>st. lg_streams ?s' ! b = Some st \<and>
              run_logs (lg_bufferLevel ?s') (recs_of l t' (xs @ [(t, x)])) LogStream_new = Some (Inr st))" for t'
    proof (cases "t' = t")
      case True
      with s2(2,4,7,8) st' \<open>enabled l (lr_level x)\<close> show ?thesis by (simp add: recs_of_snoc run_logs_snoc)
    next
      case False
      have "case lg_pStream s t' of None \<Rightarrow> recs_of l t' xs = []
        | Some b \<Rightarrow> b < length (lg_streams s) \<and> recs_of l t' xs \<noteq> [] \<and>
          (\<exists>st. lg_streams s ! b = Some st \<and> run_logs ?bl (recs_of l t' xs) LogStream_new = Some (Inr st))"
        using inv by blast
      with False s2(7-11) show ?thesis
        by (cases "lg_pStream s t'") (auto simp: recs_of_snoc nth_list_update)
    qed
    have owners: "\<exists>!t'. lg_pStream ?s' t' = Some b" if "b < length (lg_streams ?s')" for b
    proof (cases "b = a")
      case True
      with s2(8,10) show ?thesis by (intro ex1I [of _ t]) (auto split: if_splits)
    next
      case False
      with s2(12) that have b: "b < length (lg_streams s)" by simp
      then obtain t' where t': "lg_pStream s t' = Some b" "\<And>u. lg_pStream s u = Some b \<Longrightarrow> u = t'" using inv by blast
      have "t' \<noteq> t"
      proof
        assume "t' = t"
        with t'(1) s2(1) have "a = b" by (simp add: thread_stream_def s1(2))
        with False show False by simp
      qed
      show ?thesis
      proof (rule ex1I [of _ t'])
        show "lg_pStream ?s' t' = Some b" using \<open>t' \<noteq> t\<close> t'(1) s2(8) by simp
      next
        fix u
        assume "lg_pStream ?s' u = Some b"
        with False s2(8) have "lg_pStream s u = Some b" by (simp split: if_splits)
        then show "u = t'" by (rule t'(2))
      qed
    qed
    have "logger_inv l (xs @ [(t, x)]) ?s'"
      unfolding logger_inv_def
    proof (intro conjI allI impI)
      fix t'
      show "case lg_pStream ?s' t' of
          None \<Rightarrow> recs_of l t' (xs @ [(t, x)]) = []
        | Some b \<Rightarrow> b < length (lg_streams ?s') \<and> recs_of l t' (xs @ [(t, x)]) \<noteq> [] \<and>
            (\<exists>st. lg_streams ?s' ! b = Some st \<and>
              run_logs (lg_bufferLevel ?s') (recs_of l t' (xs @ [(t, x)])) LogStream_new = Some (Inr st))"
        by (rule streams)
    next
      fix b
      assume "b < length (lg_streams ?s')"
      then show "\<exists>!t'. lg_pStream ?s' t' = Some b" by (rule owners)
    qed (simp_all add: s2(5,6))
    with step s2(7) show ?thesis by simp
  qed
qed

lemma logger_logs_inv:
  assumes "logger_inv l ys s" "\<forall>y \<in> snd ` set (ys @ xs). rec_ok y"
  shows "\<exists>s'. Logger_logs xs s = Some (Inr s') \<and> logger_inv l (ys @ xs) s' \<and> lg_bufferLevel s' = lg_bufferLevel s"
  using assms
proof (induction xs arbitrary: ys s)
  case (Cons tx xs)
  obtain t x where tx: "tx = (t, x)" by (cases tx)
  have "\<forall>y \<in> snd ` set (ys @ [(t, x)]). rec_ok y" using Cons.prems(2) by (auto simp: tx)
  from logger_log_inv [OF Cons.prems(1) this] obtain s1 where s1: "Logger_log t x s = Some (Inr s1)"
    "logger_inv l (ys @ [(t, x)]) s1" "lg_bufferLevel s1 = lg_bufferLevel s" by blast
  have "\<forall>y \<in> snd ` set ((ys @ [(t, x)]) @ xs). rec_ok y" using Cons.prems(2) by (simp add: tx)
  from Cons.IH [OF s1(2) this] s1 show ?case by (auto simp: tx)
qed simp

subsection \<open>Release\<close>

text \<open>Destroying streams that were filled by records, one after the other.\<close>

lemma release_all:
  assumes "\<forall>(a, st) \<in> set as. \<exists>xs. (\<forall>x \<in> set xs. rec_ok x) \<and>
      (\<exists>s. st = Some s \<and> run_logs bl xs LogStream_new = Some (Inr s)) \<and> text_of a = concat (map rec_text xs)"
  shows "\<exists>outs. foldR (\<lambda>(a, st) out. case st of None \<Rightarrow> Inr out
      | Some st \<Rightarrow> bindR (LogStream_destroy st) (\<lambda>msgs. Inr (out @ [(a, msgs)]))) as out = Inr (out @ outs) \<and>
    map (\<lambda>(a, msgs). (a, concat msgs)) outs = map (\<lambda>(a, st). (a, text_of a)) as"
  using assms
proof (induction as arbitrary: out)
  case Nil
  show ?case by (intro exI [of _ "[]"]) simp
next
  case (Cons ast as)
  obtain a st where ast: "ast = (a, st)" by (cases ast)
  with Cons.prems obtain xs s where s: "\<forall>x \<in> set xs. rec_ok x" "st = Some s"
    "run_logs bl xs LogStream_new = Some (Inr s)" "text_of a = concat (map rec_text xs)" by auto
  with logs_out [OF s(1), of bl] obtain msgs where msgs: "LogStream_destroy s = Inr msgs" "concat msgs = text_of a" by auto
  from Cons.IH [of "out @ [(a, msgs)]"] Cons.prems obtain outs where
    "foldR (\<lambda>(a, st) out. case st of None \<Rightarrow> Inr out
      | Some st \<Rightarrow> bindR (LogStream_destroy st) (\<lambda>msgs. Inr (out @ [(a, msgs)]))) as (out @ [(a, msgs)]) =
      Inr ((out @ [(a, msgs)]) @ outs)"
    "map (\<lambda>(a, msgs). (a, concat msgs)) outs = map (\<lambda>(a, st). (a, text_of a)) as" by auto
  with msgs s(2) show ?case by (intro exI [of _ "(a, msgs) # outs"]) (simp add: ast)
qed

definition owner :: "logger \<Rightarrow> nat \<Rightarrow> nat" where
  "owner s a = (THE t. lg_pStream s t = Some a)"

lemma owner_eq:
  assumes "logger_inv l xs s" "lg_pStream s t = Some a"
  shows "owner s a = t" "a < length (lg_streams s)"
proof -
  have "case Some a of None \<Rightarrow> recs_of l t xs = [] | Some a \<Rightarrow> a < length (lg_streams s) \<and> recs_of l t xs \<noteq> [] \<and>
      (\<exists>st. lg_streams s ! a = Some st \<and> run_logs (lg_bufferLevel s) (recs_of l t xs) LogStream_new = Some (Inr st))"
    using assms(1) unfolding assms(2) [symmetric] logger_inv_def by blast
  then show a: "a < length (lg_streams s)" by simp
  then have "\<exists>!t. lg_pStream s t = Some a" using assms(1) unfolding logger_inv_def by blast
  then show "owner s a = t" unfolding owner_def using assms(2) by (rule the1_equality)
qed

lemma stream_of_owner:
  assumes "logger_inv l xs s" "a < length (lg_streams s)"
  shows "\<exists>t st. lg_pStream s t = Some a \<and> lg_streams s ! a = Some st \<and>
    run_logs (lg_bufferLevel s) (recs_of l t xs) LogStream_new = Some (Inr st)"
proof -
  obtain t where t: "lg_pStream s t = Some a" using assms unfolding logger_inv_def by blast
  have "case Some a of None \<Rightarrow> recs_of l t xs = [] | Some a \<Rightarrow> a < length (lg_streams s) \<and> recs_of l t xs \<noteq> [] \<and>
      (\<exists>st. lg_streams s ! a = Some st \<and> run_logs (lg_bufferLevel s) (recs_of l t xs) LogStream_new = Some (Inr st))"
    using assms(1) unfolding t [symmetric] logger_inv_def by blast
  with t show ?thesis by auto
qed

lemma map_fst_zip_upt: "map (\<lambda>(a, st). (a, f a)) (zip [0..<length xs] xs) = map (\<lambda>a. (a, f a)) [0..<length xs]"
proof -
  have "map (\<lambda>(a, st). (a, f a)) (zip [0..<length xs] xs) = map (\<lambda>a. (a, f a)) (map fst (zip [0..<length xs] xs))"
    unfolding map_map comp_def case_prod_unfold ..
  then show ?thesis by simp
qed

lemma logger_release_out:
  assumes "logger_inv l xs s" "\<forall>y \<in> snd ` set xs. rec_ok y" "lg_instance s = Some l"
  shows "\<exists>s'. Logger_release s = Inr s' \<and> lg_streams s' = map (\<lambda>_. None) (lg_streams s) \<and> lg_pStream s' = lg_pStream s \<and>
    lg_instance s' = None \<and>
    map (\<lambda>(a, msgs). (a, concat msgs)) (lg_out s') =
      map (\<lambda>a. (a, concat (map rec_text (recs_of l (owner s a) xs)))) [0..<length (lg_streams s)]"
proof -
  let ?text = "\<lambda>a. concat (map rec_text (recs_of l (owner s a) xs))"
  let ?as = "zip [0..<length (lg_streams s)] (lg_streams s)"
  have "\<forall>(a, st) \<in> set ?as. \<exists>xs. (\<forall>x \<in> set xs. rec_ok x) \<and>
      (\<exists>s'. st = Some s' \<and> run_logs (lg_bufferLevel s) xs LogStream_new = Some (Inr s')) \<and> ?text a = concat (map rec_text xs)"
  proof safe
    fix a st
    assume "(a, st) \<in> set ?as"
    then have a: "a < length (lg_streams s)" "st = lg_streams s ! a" by (auto simp: set_zip)
    obtain t st' where t: "lg_pStream s t = Some a" "lg_streams s ! a = Some st'"
      "run_logs (lg_bufferLevel s) (recs_of l t xs) LogStream_new = Some (Inr st')"
      using stream_of_owner [OF assms(1) a(1)] by blast
    have "\<forall>x \<in> set (recs_of l t xs). rec_ok x" using assms(2) by (auto simp: recs_of_def)
    with t a owner_eq(1) [OF assms(1) t(1)] show "\<exists>xs. (\<forall>x \<in> set xs. rec_ok x) \<and>
      (\<exists>s'. st = Some s' \<and> run_logs (lg_bufferLevel s) xs LogStream_new = Some (Inr s')) \<and> ?text a = concat (map rec_text xs)"
      by (intro exI [of _ "recs_of l t xs"]) simp
  qed
  from release_all [OF this, of "lg_out s"] obtain outs where outs:
    "foldR (\<lambda>(a, st) out. case st of None \<Rightarrow> Inr out
      | Some st \<Rightarrow> bindR (LogStream_destroy st) (\<lambda>msgs. Inr (out @ [(a, msgs)]))) ?as (lg_out s) = Inr (lg_out s @ outs)"
    "map (\<lambda>(a, msgs). (a, concat msgs)) outs = map (\<lambda>(a, st). (a, ?text a)) ?as" by blast
  have "lg_out s = []" using assms(1) unfolding logger_inv_def by blast
  moreover have "map (\<lambda>(a, st). (a, ?text a)) ?as = map (\<lambda>a. (a, ?text a)) [0..<length (lg_streams s)]"
    by (rule map_fst_zip_upt)
  ultimately show ?thesis using outs assms(3) by (simp add: Logger_release_def)
qed

lemma logger_start: "logger_inv l [] (SetBufferLevel bl (Logger_setLevel l logger_init))"
  by (simp add: logger_inv_def logger_init_def Logger_setLevel_def Logger_getInstance_def SetBufferLevel_def recs_of_def)

lemma on_stream_instance: "on_stream a f s = Some (Inr s') \<Longrightarrow> lg_instance s' = lg_instance s"
  unfolding on_stream_def by (cases "lg_streams s ! a") (auto simp: bindO_Inr)

lemma thread_stream_instance: "thread_stream t s = (a, s') \<Longrightarrow> lg_instance s' = lg_instance s"
  unfolding thread_stream_def by (cases "lg_pStream s t") (auto simp: Let_def)

lemma Logger_stream_instance:
  assumes "Logger_stream t x s = Some (Inr (a, s'))"
  shows "lg_instance s' = lg_instance s"
proof -
  obtain b s1 where b: "thread_stream t s = (b, s1)" by fastforce
  from assms obtain f where "on_stream b f s1 = Some (Inr s')"
    unfolding Logger_stream_def Let_def b prod.case bindO_Inr by blast
  then show ?thesis using on_stream_instance thread_stream_instance [OF b] by simp
qed

lemma Logger_log_instance:
  assumes "Logger_log t x s = Some (Inr s')" "lg_instance s = Some l"
  shows "lg_instance s' = Some l"
proof (cases "enabled l (lr_level x)")
  case True
  with assms obtain a s2 where s2: "Logger_stream t x s = Some (Inr (a, s2))"
    "on_stream a (puts_log (lg_bufferLevel s2) (lr_body x)) s2 = Some (Inr s')"
    unfolding Logger_log_def Logger_getInstance_def by (simp add: bindO_Inr) blast
  then show ?thesis using assms(2) on_stream_instance Logger_stream_instance by simp
next
  case False
  with assms show ?thesis by (simp add: Logger_log_def Logger_getInstance_def)
qed

lemma logger_logs_instance:
  assumes "Logger_logs xs s = Some (Inr s')" "lg_instance s = Some l"
  shows "lg_instance s' = Some l"
  using assms
proof (induction xs arbitrary: s)
  case (Cons tx xs)
  obtain t x where tx: "tx = (t, x)" by (cases tx)
  from Cons.prems(1) obtain s1 where s1: "Logger_log t x s = Some (Inr s1)" "Logger_logs xs s1 = Some (Inr s')"
    unfolding tx Logger_logs.simps bindO_Inr by blast
  from Cons.IH [OF s1(2) Logger_log_instance [OF s1(1) Cons.prems(2)]] show ?case .
qed simp

text \<open>All records of all threads, then the release.\<close>

lemma logs_and_release:
  assumes "\<forall>y \<in> snd ` set xs. rec_ok y"
  shows "\<exists>s s'. Logger_logs xs (SetBufferLevel bl (Logger_setLevel l logger_init)) = Some (Inr s) \<and> logger_inv l xs s \<and>
    Logger_release s = Inr s' \<and> lg_streams s' = map (\<lambda>_. None) (lg_streams s) \<and> lg_pStream s' = lg_pStream s \<and>
    lg_instance s' = None \<and>
    map (\<lambda>(a, msgs). (a, concat msgs)) (lg_out s') =
      map (\<lambda>a. (a, concat (map rec_text (recs_of l (owner s a) xs)))) [0..<length (lg_streams s)]"
proof -
  have "\<forall>y \<in> snd ` set ([] @ xs). rec_ok y" using assms by simp
  from logger_logs_inv [OF logger_start this, of bl] obtain s where s:
    "Logger_logs xs (SetBufferLevel bl (Logger_setLevel l logger_init)) = Some (Inr s)" "logger_inv l xs s" by auto
  have "lg_instance (SetBufferLevel bl (Logger_setLevel l logger_init)) = Some l"
    by (simp add: SetBufferLevel_def Logger_setLevel_def)
  with s(1) have "lg_instance s = Some l" by (rule logger_logs_instance)
  from logger_release_out [OF s(2) assms this] s show ?thesis by blast
qed

subsection \<open>Properties\<close>

text \<open>
  However the threads of a program interleave their log statements, at the end the output has,
  for every thread, exactly the text of its records that are not below the level of the logger, in
  their order and in one stream of its own; a thread that logged nothing has no stream.
\<close>

theorem logger_complete:
  assumes "\<forall>y \<in> snd ` set xs. rec_ok y"
  shows "\<exists>s s'. Logger_logs xs (SetBufferLevel bl (Logger_setLevel l logger_init)) = Some (Inr s) \<and>
    Logger_release s = Inr s' \<and> distinct (map fst (lg_out s')) \<and>
    (\<forall>t. case lg_pStream s t of
        None \<Rightarrow> recs_of l t xs = []
      | Some a \<Rightarrow> \<exists>msgs. (a, msgs) \<in> set (lg_out s') \<and> concat msgs = concat (map rec_text (recs_of l t xs)))"
proof -
  obtain s s' where s: "Logger_logs xs (SetBufferLevel bl (Logger_setLevel l logger_init)) = Some (Inr s)"
    "logger_inv l xs s" "Logger_release s = Inr s'"
    "map (\<lambda>(a, msgs). (a, concat msgs)) (lg_out s') =
      map (\<lambda>a. (a, concat (map rec_text (recs_of l (owner s a) xs)))) [0..<length (lg_streams s)]"
    using logs_and_release [OF assms, of bl l] by blast
  have "map fst (lg_out s') = map fst (map (\<lambda>(a, msgs). (a, concat msgs)) (lg_out s'))" by (simp add: case_prod_unfold)
  also have "\<dots> = [0..<length (lg_streams s)]" unfolding s(4) by (simp add: comp_def)
  finally have dist: "distinct (map fst (lg_out s'))" by simp
  have "case lg_pStream s t of
        None \<Rightarrow> recs_of l t xs = []
      | Some a \<Rightarrow> \<exists>msgs. (a, msgs) \<in> set (lg_out s') \<and> concat msgs = concat (map rec_text (recs_of l t xs))" for t
  proof (cases "lg_pStream s t")
    case None
    have "case None of None \<Rightarrow> recs_of l t xs = [] | Some a \<Rightarrow> a < length (lg_streams s) \<and> recs_of l t xs \<noteq> [] \<and>
      (\<exists>st. lg_streams s ! a = Some st \<and> run_logs (lg_bufferLevel s) (recs_of l t xs) LogStream_new = Some (Inr st))"
      using s(2) unfolding None [symmetric] logger_inv_def by blast
    with None show ?thesis by simp
  next
    case (Some a)
    note a = owner_eq [OF s(2) Some]
    have "(a, concat (map rec_text (recs_of l t xs))) \<in> set (map (\<lambda>(a, msgs). (a, concat msgs)) (lg_out s'))"
      unfolding s(4) using a by auto
    then show ?thesis by (auto simp: Some)
  qed
  with s dist show ?thesis by blast
qed

lemma sample_two_threads:
  "recs_of WARN 1 [(1, sample_rec), (2, sample_rec\<lparr>lr_level := ERROR\<rparr>), (1, sample_rec)] = []"
  "recs_of INFO 1 [(1, sample_rec), (2, sample_rec\<lparr>lr_level := ERROR\<rparr>), (1, sample_rec)] = [sample_rec, sample_rec]"
  by (simp_all add: recs_of_def enabled_def sample_rec_def less_eq_level_def)

lemma sample_error_ok: "rec_ok (sample_rec\<lparr>lr_level := ERROR\<rparr>)"
proof -
  have "length (rec_text (sample_rec\<lparr>lr_level := ERROR\<rparr>)) = length (rec_text sample_rec) + 1"
    by (simp add: rec_text_def rec_head_def sample_rec_def)
  then show ?thesis
    using sample_rec_ok(1) unfolding rec_ok_def sample_rec_ok(2) by (simp add: sample_rec_def kBufferSize_def)
qed

theorem logger_complete_witness:
  "\<exists>s s' msgs. Logger_logs [(1, sample_rec), (2, sample_rec\<lparr>lr_level := ERROR\<rparr>), (1, sample_rec)]
      (SetBufferLevel kFullBuffer (Logger_setLevel INFO logger_init)) = Some (Inr s) \<and>
    Logger_release s = Inr s' \<and> msgs \<in> snd ` set (lg_out s') \<and> concat msgs = rec_text sample_rec @ rec_text sample_rec"
proof -
  let ?xs = "[(1, sample_rec), (2, sample_rec\<lparr>lr_level := ERROR\<rparr>), (1, sample_rec)]"
  have "\<forall>y \<in> snd ` set ?xs. rec_ok y" using sample_rec_ok(1) sample_error_ok by simp
  from logger_complete [OF this, of kFullBuffer INFO] obtain s s' where s:
    "Logger_logs ?xs (SetBufferLevel kFullBuffer (Logger_setLevel INFO logger_init)) = Some (Inr s)"
    "Logger_release s = Inr s'"
    "case lg_pStream s 1 of None \<Rightarrow> recs_of INFO 1 ?xs = []
      | Some a \<Rightarrow> \<exists>msgs. (a, msgs) \<in> set (lg_out s') \<and> concat msgs = concat (map rec_text (recs_of INFO 1 ?xs))"
    by blast
  from s(3) obtain a msgs where "(a, msgs) \<in> set (lg_out s')" "concat msgs = rec_text sample_rec @ rec_text sample_rec"
    unfolding sample_two_threads(2) by (auto split: option.splits)
  with s(1,2) show ?thesis by (intro exI [of _ s] exI [of _ s'] exI [of _ msgs]) force
qed

text \<open>
  C36: After the release every thread that had a stream keeps its pointer to it: its next record,
  of any level but NONE, is written to a stream that was freed.
\<close>

theorem logger_after_release:
  assumes "\<forall>y \<in> snd ` set xs. rec_ok y" "recs_of l t xs \<noteq> []" "lr_level x \<noteq> NONE"
  shows "\<exists>s s'. Logger_logs xs (SetBufferLevel bl (Logger_setLevel l logger_init)) = Some (Inr s) \<and>
    Logger_release s = Inr s' \<and> Logger_log t x s' = Some (Inl UseAfterFree)"
proof -
  obtain s s' where s: "Logger_logs xs (SetBufferLevel bl (Logger_setLevel l logger_init)) = Some (Inr s)"
    "logger_inv l xs s" "Logger_release s = Inr s'" "lg_streams s' = map (\<lambda>_. None) (lg_streams s)"
    "lg_pStream s' = lg_pStream s" "lg_instance s' = None"
    using logs_and_release [OF assms(1), of bl l] by blast
  obtain a where a: "lg_pStream s t = Some a"
  proof (cases "lg_pStream s t")
    case None
    have "case None of None \<Rightarrow> recs_of l t xs = [] | Some a \<Rightarrow> a < length (lg_streams s) \<and> recs_of l t xs \<noteq> [] \<and>
      (\<exists>st. lg_streams s ! a = Some st \<and> run_logs (lg_bufferLevel s) (recs_of l t xs) LogStream_new = Some (Inr st))"
      using s(2) unfolding None [symmetric] logger_inv_def by blast
    with assms(2) show ?thesis by simp
  qed
  have "enabled TRACE (lr_level x)" using assms(3) by (cases "lr_level x") (simp_all add: enabled_def less_eq_level_def)
  then have "Logger_log t x s' = Some (Inl UseAfterFree)"
    using s(4-6) a owner_eq(2) [OF s(2) a]
    by (simp add: Logger_log_def Logger_getInstance_def Logger_stream_def thread_stream_def on_stream_def Let_def)
  with s(1,3) show ?thesis by blast
qed

theorem logger_after_release_witness:
  "\<exists>s s'. Logger_logs [(1, sample_rec)] (SetBufferLevel kLineBuffer (Logger_setLevel TRACE logger_init)) = Some (Inr s) \<and>
    Logger_release s = Inr s' \<and> Logger_log 1 sample_rec s' = Some (Inl UseAfterFree)"
proof -
  have "recs_of TRACE 1 [(1, sample_rec)] \<noteq> []" "lr_level sample_rec \<noteq> NONE"
    by (simp_all add: recs_of_def enabled_def sample_rec_def less_eq_level_def)
  then show ?thesis using logger_after_release [of "[(1, sample_rec)]" TRACE 1 sample_rec] sample_rec_ok(1) by simp
qed

end
