(* ===== verification/Mutex.thy ===== *)
theory Mutex
  imports Prelude "HOL-Library.Signed_Division"
begin

text \<open>
  The lock, its guard and the condition variable: \<open>cct/mutex.h\<close> and \<open>cct/condition.h\<close>. Threads are
  numbers. The locale \<open>exclusive\<close> is what the clients of a lock rely on: at any time at most one
  thread is in a section that the lock guards.
\<close>

subsection \<open>MutexLock and MutexGuard\<close>

text \<open>A mutex is the thread that holds it. To lock a mutex that is held means to wait (\<open>None\<close>).\<close>

type_synonym mutex = "nat option"

definition MutexLock_lock :: "nat \<Rightarrow> mutex \<Rightarrow> mutex option" where
  "MutexLock_lock t m = (if m = None then Some (Some t) else None)"

definition MutexLock_unlock :: "nat \<Rightarrow> mutex \<Rightarrow> mutex res" where
  "MutexLock_unlock t m = (if m = Some t then Inr None else Inl NotOwner)"

text \<open>A guard is its flag \<open>locked\<close>.\<close>

type_synonym guard_flag = bool

definition MutexGuard_new :: "nat \<Rightarrow> mutex \<Rightarrow> (guard_flag \<times> mutex) option" where
  "MutexGuard_new t m = (case MutexLock_lock t m of None \<Rightarrow> None | Some m' \<Rightarrow> Some (True, m'))"

definition MutexGuard_unlock :: "nat \<Rightarrow> guard_flag \<times> mutex \<Rightarrow> (guard_flag \<times> mutex) res" where
  "MutexGuard_unlock t gm = bindR (MutexLock_unlock t (snd gm)) (\<lambda>m. Inr (False, m))"

definition MutexGuard_destroy :: "nat \<Rightarrow> guard_flag \<times> mutex \<Rightarrow> mutex res" where
  "MutexGuard_destroy t gm =
     (if fst gm then bindR (MutexGuard_unlock t gm) (\<lambda>gm'. Inr (snd gm')) else Inr (snd gm))"

text \<open>A guard that was unlocked early does not unlock again.\<close>

lemma guard_unlocks_once:
  "MutexGuard_new t m = Some gm \<Longrightarrow> bindR (MutexGuard_unlock t gm) (MutexGuard_destroy t) = Inr None"
  by (auto simp: MutexGuard_new_def MutexLock_lock_def MutexGuard_unlock_def MutexGuard_destroy_def
      MutexLock_unlock_def split: if_splits)

subsection \<open>Condition\<close>

text \<open>A condition variable is the set of the threads that wait for it.\<close>

type_synonym condition = "nat set"

text \<open>\<open>wait\<close> gives the mutex back and waits in one step.\<close>

definition Condition_wait :: "nat \<Rightarrow> mutex \<Rightarrow> condition \<Rightarrow> (mutex \<times> condition) res" where
  "Condition_wait t m c = bindR (MutexLock_unlock t m) (\<lambda>m'. Inr (m', insert t c))"

text \<open>\<open>wakeup\<close> of the thread \<open>t\<close> the system picks.\<close>

definition Condition_wakeup :: "nat \<Rightarrow> condition \<Rightarrow> condition" where
  "Condition_wakeup t c = c - {t}"

definition Condition_wakeupAll :: "condition \<Rightarrow> condition" where
  "Condition_wakeupAll c = {}"

text \<open>
  The point in time \<open>waitForSecs\<close> waits for, from the time of the clock, in seconds and nanoseconds.
\<close>

definition abstime :: "int \<Rightarrow> int \<times> int \<Rightarrow> int \<times> int" where
  "abstime secs now =
     (let nanoSeconds = secs * 1000000000 in
      (fst now + (snd now + nanoSeconds) sdiv 1000000000, (snd now + nanoSeconds) smod 1000000000))"

text \<open>\<open>waitForSecs\<close>: the wait, and the time at which the system ends it if nobody else has.\<close>

definition Condition_waitForSecs ::
  "nat \<Rightarrow> int \<Rightarrow> int \<times> int \<Rightarrow> mutex \<Rightarrow> condition \<Rightarrow> ((int \<times> int) \<times> mutex \<times> condition) res" where
  "Condition_waitForSecs t secs now m c = bindR (Condition_wait t m c) (\<lambda>mc. Inr (abstime secs now, mc))"

text \<open>The time is as far in the future as asked for, and its nanoseconds are below a second.\<close>

lemma abstime_later:
  assumes "0 \<le> secs" "0 \<le> snd now" "snd now < 1000000000"
  shows "abstime secs now = (fst now + secs, snd now)"
proof -
  have "(snd now + secs * 1000000000) sdiv 1000000000 = (snd now + secs * 1000000000) div 1000000000"
    "(snd now + secs * 1000000000) smod 1000000000 = (snd now + secs * 1000000000) mod 1000000000"
    using assms by (simp_all add: signed_divide_int_def signed_modulo_int_def sgn_if)
  then show ?thesis using assms by (simp add: abstime_def Let_def)
qed

subsection \<open>Sections that a lock guards\<close>

text \<open>
  \<open>guarded holds pc m\<close>: the threads at a place in such a section, which \<open>holds\<close> says of a place,
  are those that hold the lock.
\<close>

definition guarded :: "('pc \<Rightarrow> bool) \<Rightarrow> (nat \<Rightarrow> 'pc) \<Rightarrow> nat option \<Rightarrow> bool" where
  "guarded holds pc m \<longleftrightarrow> (\<forall>t. holds (pc t) \<longleftrightarrow> m = Some t)"

lemma guarded_one: "guarded holds pc m \<Longrightarrow> holds (pc t) \<Longrightarrow> holds (pc t') \<Longrightarrow> t = t'"
  by (auto simp: guarded_def)

lemma guarded_holder: "guarded holds pc m \<Longrightarrow> holds (pc t) \<Longrightarrow> m = Some t"
  by (simp add: guarded_def)

lemma guarded_stay: "guarded holds pc m \<Longrightarrow> holds l = holds (pc t) \<Longrightarrow> guarded holds (pc(t := l)) m"
  by (simp add: guarded_def)

lemma guarded_enter: "guarded holds pc None \<Longrightarrow> holds l \<Longrightarrow> guarded holds (pc(t := l)) (Some t)"
  by (auto simp: guarded_def)

lemma guarded_leave: "guarded holds pc (Some t) \<Longrightarrow> \<not> holds l \<Longrightarrow> guarded holds (pc(t := l)) None"
  by (auto simp: guarded_def)

locale exclusive =
  fixes acquire :: "nat \<Rightarrow> 'm \<Rightarrow> 'm option"
    and give_back :: "nat \<Rightarrow> 'm \<Rightarrow> 'm res"
    and holder :: "'m \<Rightarrow> nat option"
  assumes acquire_law: "acquire t m = Some m' \<Longrightarrow> holder m = None \<and> holder m' = Some t"
    and acquire_free: "holder m = None \<Longrightarrow> \<exists>m'. acquire t m = Some m'"
    and give_back_law: "holder m = Some t \<Longrightarrow> \<exists>m'. give_back t m = Inr m' \<and> holder m' = None"

context exclusive begin

lemma enter:
  "guarded holds pc (holder m) \<Longrightarrow> acquire t m = Some m' \<Longrightarrow> holds l \<Longrightarrow> guarded holds (pc(t := l)) (holder m')"
  using acquire_law [of t m m'] guarded_enter by auto

lemma leave:
  assumes "guarded holds pc (holder m)" "holds (pc t)" "\<not> holds l"
  shows "\<exists>m'. give_back t m = Inr m' \<and> guarded holds (pc(t := l)) (holder m')"
proof -
  have "holder m = Some t" using guarded_holder [OF assms(1,2)] .
  with give_back_law [OF this] guarded_leave [of holds pc t l] assms(1,3) show ?thesis by auto
qed

text \<open>Either a thread is inside, or whoever wants to can enter.\<close>

lemma inside_or_free:
  "guarded holds pc (holder m) \<Longrightarrow> (\<exists>t. holds (pc t)) \<or> (\<forall>t. \<exists>m'. acquire t m = Some m')"
  using acquire_free by (cases "holder m") (auto simp: guarded_def)

end

definition guard_acquire :: "nat \<Rightarrow> mutex \<Rightarrow> mutex option" where
  "guard_acquire t m = (case MutexGuard_new t m of None \<Rightarrow> None | Some (g, m') \<Rightarrow> Some m')"

definition guard_release :: "nat \<Rightarrow> mutex \<Rightarrow> mutex res" where
  "guard_release t m = MutexGuard_destroy t (True, m)"

lemmas guard_defs = MutexGuard_new_def MutexLock_lock_def MutexGuard_destroy_def MutexGuard_unlock_def
  MutexLock_unlock_def guard_acquire_def guard_release_def

interpretation guard: exclusive guard_acquire guard_release "\<lambda>m. m"
  by unfold_locales (auto simp: guard_defs split: if_splits)

end
