(* ===== verification/LoggerInit.thy ===== *)
theory LoggerInit
  imports Mutex
begin

text \<open>
  \<open>Logger::getInstance\<close> of \<open>log/logger.cpp\<close>, step by step: the test without the lock, the test under
  the lock, and the three parts of \<open>instance = new Logger\<close> that its comment names. The theory
  \<open>Logger\<close> takes the call for one step; here is why it may, and when it may not.
\<close>

subsection \<open>State and steps\<close>

text \<open>
  \<open>Got p\<close>: the call has returned the pointer. Between the tests a thread waits for the lock; in \<open>Raw\<close>
  the memory is allocated, then the object is constructed and the pointer stored, in either order.
\<close>

datatype instance_pc =
    Outside | FirstTest | WantLock | SecondTest | Allocate | Raw nat | Constructed nat | Published nat
  | Unlocking | Returning | Got "nat option"

text \<open>\<open>li_objects\<close>: for every object ever allocated, whether its constructor has run.\<close>

record instance_state =
  li_instance :: "nat option"
  li_lock :: mutex
  li_objects :: "bool list"
  li_pc :: "nat \<Rightarrow> instance_pc"

definition instance_init :: instance_state where
  "instance_init = \<lparr>li_instance = None, li_lock = None, li_objects = [], li_pc = (\<lambda>_. Outside)\<rparr>"

datatype instance_event = Call | Test | Lock | Alloc | Construct | Publish | Unlock | Return | Use

definition goes :: "nat \<Rightarrow> instance_pc \<Rightarrow> instance_state \<Rightarrow> instance_state res option" where
  "goes t l s = Some (Inr (s\<lparr>li_pc := (li_pc s)(t := l)\<rparr>))"

text \<open>
  A step of a thread; \<open>reorder\<close>: the pointer may be stored before the constructor has run, which the
  compiler and the processor are free to do. \<open>Use\<close> is what the caller does with the pointer.
\<close>

fun instance_step :: "bool \<Rightarrow> nat \<Rightarrow> instance_event \<Rightarrow> instance_state \<Rightarrow> instance_state res option" where
  "instance_step reorder t Call s = (if li_pc s t = Outside then goes t FirstTest s else None)"
| "instance_step reorder t Test s =
     (case li_pc s t of
        FirstTest \<Rightarrow> goes t (if li_instance s = None then WantLock else Returning) s
      | SecondTest \<Rightarrow> goes t (if li_instance s = None then Allocate else Unlocking) s
      | _ \<Rightarrow> None)"
| "instance_step reorder t Lock s =
     (if li_pc s t \<noteq> WantLock then None
      else case guard_acquire t (li_lock s) of None \<Rightarrow> None
        | Some m \<Rightarrow> goes t SecondTest (s\<lparr>li_lock := m\<rparr>))"
| "instance_step reorder t Alloc s =
     (if li_pc s t \<noteq> Allocate then None
      else goes t (Raw (length (li_objects s))) (s\<lparr>li_objects := li_objects s @ [False]\<rparr>))"
| "instance_step reorder t Construct s =
     (case li_pc s t of
        Raw a \<Rightarrow> goes t (Constructed a) (s\<lparr>li_objects := (li_objects s)[a := True]\<rparr>)
      | Published a \<Rightarrow> goes t Unlocking (s\<lparr>li_objects := (li_objects s)[a := True]\<rparr>)
      | _ \<Rightarrow> None)"
| "instance_step reorder t Publish s =
     (case li_pc s t of
        Raw a \<Rightarrow> if reorder then goes t (Published a) (s\<lparr>li_instance := Some a\<rparr>) else None
      | Constructed a \<Rightarrow> goes t Unlocking (s\<lparr>li_instance := Some a\<rparr>)
      | _ \<Rightarrow> None)"
| "instance_step reorder t Unlock s =
     (if li_pc s t \<noteq> Unlocking then None
      else bindO (Some (guard_release t (li_lock s))) (\<lambda>m. goes t Returning (s\<lparr>li_lock := m\<rparr>)))"
| "instance_step reorder t Return s = (if li_pc s t = Returning then goes t (Got (li_instance s)) s else None)"
| "instance_step reorder t Use s =
     (case li_pc s t of
        Got p \<Rightarrow> (case p of None \<Rightarrow> Some (Inl NullDeref)
          | Some a \<Rightarrow> if li_objects s ! a then goes t Outside s else Some (Inl UninitRead))
      | _ \<Rightarrow> None)"

inductive instance_run :: "bool \<Rightarrow> instance_state \<Rightarrow> bool" for reorder where
  instance_start: "instance_run reorder instance_init"
| instance_next: "instance_run reorder s \<Longrightarrow> instance_step reorder t e s = Some (Inr s') \<Longrightarrow> instance_run reorder s'"

subsection \<open>When the steps are taken in their order\<close>

fun in_lock :: "instance_pc \<Rightarrow> bool" where
  "in_lock SecondTest \<longleftrightarrow> True" | "in_lock Allocate \<longleftrightarrow> True" | "in_lock (Raw a) \<longleftrightarrow> True"
| "in_lock (Constructed a) \<longleftrightarrow> True" | "in_lock (Published a) \<longleftrightarrow> True" | "in_lock Unlocking \<longleftrightarrow> True"
| "in_lock _ \<longleftrightarrow> False"

text \<open>What a thread at a place knows of the pointer and of the objects.\<close>

fun place_ok :: "nat option \<Rightarrow> bool list \<Rightarrow> instance_pc \<Rightarrow> bool" where
  "place_ok p objs Allocate \<longleftrightarrow> p = None \<and> objs = []"
| "place_ok p objs (Raw a) \<longleftrightarrow> p = None \<and> a = 0 \<and> objs = [False]"
| "place_ok p objs (Constructed a) \<longleftrightarrow> p = None \<and> a = 0 \<and> objs = [True]"
| "place_ok p objs (Published a) \<longleftrightarrow> False"
| "place_ok p objs Unlocking \<longleftrightarrow> p \<noteq> None"
| "place_ok p objs Returning \<longleftrightarrow> p \<noteq> None"
| "place_ok p objs (Got q) \<longleftrightarrow> p \<noteq> None \<and> q = p"
| "place_ok p objs _ \<longleftrightarrow> True"

definition instance_inv :: "instance_state \<Rightarrow> bool" where
  "instance_inv s \<longleftrightarrow> guarded in_lock (li_pc s) (li_lock s) \<and>
     (li_instance s = None \<or> li_instance s = Some 0 \<and> li_objects s = [True]) \<and>
     (\<forall>t. place_ok (li_instance s) (li_objects s) (li_pc s t)) \<and>
     (li_instance s = None \<and> li_objects s \<noteq> [] \<longrightarrow> (\<exists>t a. li_pc s t = Raw a \<or> li_pc s t = Constructed a))"

lemma instance_invD:
  assumes "instance_inv s"
  shows "guarded in_lock (li_pc s) (li_lock s)" "li_instance s = None \<or> li_instance s = Some 0 \<and> li_objects s = [True]"
    "\<And>t. place_ok (li_instance s) (li_objects s) (li_pc s t)"
    "li_instance s = None \<Longrightarrow> li_objects s \<noteq> [] \<Longrightarrow> \<exists>t a. li_pc s t = Raw a \<or> li_pc s t = Constructed a"
  using assms unfolding instance_inv_def by blast+

text \<open>A step that changes neither the pointer nor the objects.\<close>

lemma move_inv:
  assumes "instance_inv s" "guarded in_lock ((li_pc s)(t := l)) m" "place_ok (li_instance s) (li_objects s) l"
    and "\<And>a. li_pc s t \<noteq> Raw a" "\<And>a. li_pc s t \<noteq> Constructed a"
  shows "instance_inv (s\<lparr>li_lock := m, li_pc := (li_pc s)(t := l)\<rparr>)"
proof -
  note inv = instance_invD [OF assms(1)]
  have "\<exists>u a. ((li_pc s)(t := l)) u = Raw a \<or> ((li_pc s)(t := l)) u = Constructed a"
    if no: "li_instance s = None" "li_objects s \<noteq> []"
  proof -
    obtain u a where u: "li_pc s u = Raw a \<or> li_pc s u = Constructed a" using inv(4) [OF no] by blast
    with assms(4,5) have "u \<noteq> t" by metis
    with u show ?thesis by (intro exI [of _ u] exI [of _ a]) simp
  qed
  with inv(2,3) assms(2,3) show ?thesis unfolding instance_inv_def by simp
qed

text \<open>A step of the thread that makes the object: all others are outside the lock.\<close>

lemma make_inv:
  assumes "instance_inv s" "li_instance s = None" "in_lock (li_pc s t)" "in_lock l" "place_ok p objs l"
    and "p = None \<or> p = Some 0 \<and> objs = [True]" "p = None \<longrightarrow> objs = [] \<or> (\<exists>a. l = Raw a \<or> l = Constructed a)"
  shows "instance_inv (s\<lparr>li_instance := p, li_objects := objs, li_pc := (li_pc s)(t := l)\<rparr>)"
proof -
  note inv = instance_invD [OF assms(1)]
  have "place_ok p objs (li_pc s u)" if "u \<noteq> t" for u
  proof -
    have "\<not> in_lock (li_pc s u)" using guarded_one [OF inv(1), of u t] assms(3) that by blast
    then show ?thesis using inv(3) [of u] assms(2) by (cases "li_pc s u") simp_all
  qed
  moreover have "guarded in_lock ((li_pc s)(t := l)) (li_lock s)"
    using guarded_stay [OF inv(1), of l t] assms(3,4) by simp
  moreover have "\<exists>u a. ((li_pc s)(t := l)) u = Raw a \<or> ((li_pc s)(t := l)) u = Constructed a" if "p = None" "objs \<noteq> []"
    using assms(7) that by auto
  ultimately show ?thesis using assms(5,6) unfolding instance_inv_def by auto
qed

lemma unchanged:
  "li_instance s = p \<Longrightarrow> s\<lparr>li_instance := p, li_objects := objs, li_pc := pcs\<rparr> = s\<lparr>li_objects := objs, li_pc := pcs\<rparr>"
  "li_objects s = objs \<Longrightarrow> s\<lparr>li_instance := p, li_objects := objs, li_pc := pcs\<rparr> = s\<lparr>li_instance := p, li_pc := pcs\<rparr>"
  by (cases s; simp)+

lemma instance_step_inv:
  assumes "instance_inv s" "instance_step False t e s = Some r"
  shows "\<exists>s'. r = Inr s' \<and> instance_inv s'"
proof -
  note inv = instance_invD [OF assms(1)]
  have place: "place_ok (li_instance s) (li_objects s) (li_pc s t)" by (rule inv(3))
  have stay: "guarded in_lock ((li_pc s)(t := l)) (li_lock s)" if "in_lock l = in_lock (li_pc s t)" for l
    using guarded_stay [OF inv(1) that] .
  have goes: "\<exists>s'. goes t l s = Some (Inr s') \<and> instance_inv s'"
    if "in_lock l = in_lock (li_pc s t)" "place_ok (li_instance s) (li_objects s) l"
      "\<And>a. li_pc s t \<noteq> Raw a" "\<And>a. li_pc s t \<noteq> Constructed a" for l
    using move_inv [OF assms(1) stay [OF that(1)] that(2-4)] by (simp add: goes_def)
  show ?thesis
  proof (cases e)
    case Call
    then have pc: "li_pc s t = Outside" "goes t FirstTest s = Some r" using assms(2) by (auto split: if_splits)
    from goes [of FirstTest] pc show ?thesis by auto
  next
    case Test
    show ?thesis
    proof (cases "li_pc s t")
      case FirstTest
      with goes [of "if li_instance s = None then WantLock else Returning"] Test assms(2) show ?thesis by auto
    next
      case SecondTest
      have "li_objects s = []" if "li_instance s = None"
      proof (rule ccontr)
        assume "li_objects s \<noteq> []"
        with inv(4) that obtain u a where u: "li_pc s u = Raw a \<or> li_pc s u = Constructed a" by blast
        then have "in_lock (li_pc s u)" by auto
        with guarded_one [OF inv(1), of u t] SecondTest u show False by auto
      qed
      with goes [of "if li_instance s = None then Allocate else Unlocking"] SecondTest Test assms(2) show ?thesis by auto
    qed (use Test assms(2) in simp_all)
  next
    case Lock
    then obtain m where m: "li_pc s t = WantLock" "guard_acquire t (li_lock s) = Some m"
      "r = Inr (s\<lparr>li_lock := m, li_pc := (li_pc s)(t := SecondTest)\<rparr>)"
      using assms(2) by (auto simp: goes_def split: if_splits option.splits)
    have "guarded in_lock ((li_pc s)(t := SecondTest)) m" using guard.enter [OF inv(1) m(2)] by simp
    from move_inv [OF assms(1) this] m show ?thesis by simp
  next
    case Alloc
    then have pc: "li_pc s t = Allocate"
      "r = Inr (s\<lparr>li_objects := li_objects s @ [False], li_pc := (li_pc s)(t := Raw (length (li_objects s)))\<rparr>)"
      using assms(2) by (auto simp: goes_def split: if_splits)
    then have none: "li_instance s = None" "li_objects s = []" using place by simp_all
    from make_inv [OF assms(1) none(1), of t "Raw 0" None "[False]"] pc none show ?thesis by (simp add: unchanged)
  next
    case Construct
    then obtain a where pc: "li_pc s t = Raw a"
      "r = Inr (s\<lparr>li_objects := (li_objects s)[a := True], li_pc := (li_pc s)(t := Constructed a)\<rparr>)"
      using assms(2) place by (cases "li_pc s t") (auto simp: goes_def)
    then have none: "li_instance s = None" "a = 0" "li_objects s = [False]" using place by simp_all
    from make_inv [OF assms(1) none(1), of t "Constructed 0" None "[True]"] pc none show ?thesis by (simp add: unchanged)
  next
    case Publish
    then obtain a where pc: "li_pc s t = Constructed a"
      "r = Inr (s\<lparr>li_instance := Some a, li_pc := (li_pc s)(t := Unlocking)\<rparr>)"
      using assms(2) by (cases "li_pc s t") (auto simp: goes_def)
    then have none: "li_instance s = None" "a = 0" "li_objects s = [True]" using place by simp_all
    from make_inv [OF assms(1) none(1), of t Unlocking "Some 0" "[True]"] pc none show ?thesis by (simp add: unchanged)
  next
    case Unlock
    then have pc: "li_pc s t = Unlocking" using assms(2) by (auto split: if_splits)
    then obtain m where m: "guard_release t (li_lock s) = Inr m" "guarded in_lock ((li_pc s)(t := Returning)) m"
      using guard.leave [OF inv(1), of t Returning] by auto
    then have "r = Inr (s\<lparr>li_lock := m, li_pc := (li_pc s)(t := Returning)\<rparr>)"
      using Unlock assms(2) pc by (simp add: goes_def)
    with move_inv [OF assms(1) m(2)] pc place show ?thesis by simp
  next
    case Return
    then have pc: "li_pc s t = Returning" "goes t (Got (li_instance s)) s = Some r" using assms(2) by (auto split: if_splits)
    from goes [of "Got (li_instance s)"] pc place show ?thesis by auto
  next
    case Use
    then obtain p where p: "li_pc s t = Got p" using assms(2) by (cases "li_pc s t") simp_all
    then have "li_instance s = Some 0" "li_objects s = [True]" "p = Some 0" using place inv(2) by auto
    with goes [of Outside] Use assms(2) p show ?thesis by auto
  qed
qed

interpretation instances: safe_steps "\<lambda>(t, e). instance_step False t e" "\<lambda>_. instance_inv" "\<lambda>_ _ _. ()" "\<lambda>_ _. True"
  by unfold_locales (use instance_step_inv in auto)

lemma instance_run_inv: "instance_run False s \<Longrightarrow> instance_inv s"
proof (induction rule: instance_run.induct)
  case instance_start
  show ?case by (simp add: instance_inv_def instance_init_def guarded_def)
next
  case (instance_next s t e s')
  from instances.step_keeps [OF instance_next(3), of "(t, e)"] instance_next(2) show ?case by simp
qed

text \<open>Some thread in a call can always go on: the one in the lock, or, when nobody is, any.\<close>

lemma holder_moves:
  assumes "instance_inv s" "in_lock (li_pc s t)"
  shows "\<exists>e. e \<noteq> Call \<and> instance_step False t e s \<noteq> None"
proof -
  have "place_ok (li_instance s) (li_objects s) (li_pc s t)" using instance_invD(3) [OF assms(1)] .
  then have "instance_step False t Test s \<noteq> None \<or> instance_step False t Alloc s \<noteq> None \<or>
      instance_step False t Construct s \<noteq> None \<or> instance_step False t Publish s \<noteq> None \<or>
      instance_step False t Unlock s \<noteq> None"
    using assms(2) by (cases "li_pc s t") (auto simp: goes_def bindO_def split: sum.split)
  then show ?thesis by blast
qed

lemma other_moves:
  assumes "\<not> in_lock (li_pc s t)" "li_pc s t \<noteq> Outside" "\<exists>m. guard_acquire t (li_lock s) = Some m"
  shows "\<exists>e. e \<noteq> Call \<and> instance_step False t e s \<noteq> None"
proof -
  have "instance_step False t Test s \<noteq> None \<or> instance_step False t Lock s \<noteq> None \<or>
      instance_step False t Return s \<noteq> None \<or> instance_step False t Use s \<noteq> None"
    using assms by (cases "li_pc s t") (auto simp: goes_def split: option.split)
  then show ?thesis by blast
qed

text \<open>Several steps; and a run in which the pointer is stored too early.\<close>

fun instance_steps :: "bool \<Rightarrow> (nat \<times> instance_event) list \<Rightarrow> instance_state \<Rightarrow> instance_state res option" where
  "instance_steps reorder [] s = Some (Inr s)"
| "instance_steps reorder ((t, e) # es) s = bindO (instance_step reorder t e s) (instance_steps reorder es)"

lemma instance_steps_run:
  "instance_run reorder s \<Longrightarrow> instance_steps reorder es s = Some (Inr s') \<Longrightarrow> instance_run reorder s'"
proof (induction es arbitrary: s)
  case (Cons te es)
  obtain t e where te: "te = (t, e)" by (cases te)
  with Cons.prems(2) obtain s1 where "instance_step reorder t e s = Some (Inr s1)" "instance_steps reorder es s1 = Some (Inr s')"
    unfolding te instance_steps.simps bindO_Inr by blast
  with Cons.IH [OF instance_next [OF Cons.prems(1)]] show ?case by blast
qed simp

lemma stored_too_early: "\<exists>s. instance_run True s \<and> instance_step True 1 Use s = Some (Inl UninitRead)"
proof -
  let ?es = "[(0, Call), (0, Test), (0, Lock), (0, Test), (0, Alloc), (0, Publish), (1, Call), (1, Test), (1, Return)]"
  have "\<exists>s. instance_steps True ?es instance_init = Some (Inr s) \<and> li_pc s 1 = Got (Some 0) \<and> li_objects s = [False]"
    by (simp add: goes_def instance_init_def guard_defs)
  then obtain s where s: "instance_steps True ?es instance_init = Some (Inr s)" "li_pc s 1 = Got (Some 0)"
    "li_objects s = [False]" by blast
  from instance_steps_run [OF instance_start s(1)] s(2,3) show ?thesis by (intro exI [of _ s]) simp
qed

subsection \<open>Properties\<close>

text \<open>
  C11: When the constructor runs before the pointer is stored, as it is written, any number of threads may
  call getInstance at any time: at most one object is ever made, every call returns the pointer to
  it, constructed, nobody faults, and while a thread is inside a call some thread can go on. When
  the two are reordered, as the comment in the code fears, a caller can use an object whose
  constructor has not run.
\<close>

theorem getInstance_once:
  assumes "instance_run False s"
  shows "length (li_objects s) \<le> 1 \<and> (\<forall>p. li_pc s t = Got p \<longrightarrow> p = Some 0 \<and> li_objects s = [True]) \<and>
    instance_step False t e s \<noteq> Some (Inl f) \<and>
    (li_pc s t \<noteq> Outside \<longrightarrow> (\<exists>t' e'. e' \<noteq> Call \<and> instance_step False t' e' s \<noteq> None)) \<and>
    (\<exists>s' t'. instance_run True s' \<and> instance_step True t' Use s' = Some (Inl UninitRead))"
proof -
  note inv = instance_run_inv [OF assms]
  note D = instance_invD [OF inv]
  have "length (li_objects s) \<le> 1"
  proof (cases "li_instance s = None \<and> li_objects s \<noteq> []")
    case True
    then obtain u a where "li_pc s u = Raw a \<or> li_pc s u = Constructed a" using D(4) by blast
    with D(3) [of u] show ?thesis by auto
  qed (use D(2) in auto)
  moreover have "p = Some 0 \<and> li_objects s = [True]" if "li_pc s t = Got p" for p
    using D(2) D(3) [of t] that by auto
  moreover have "instance_step False t e s \<noteq> Some (Inl f)" using instances.no_fault [OF inv, of "(t, e)"] by simp
  moreover have "\<exists>t' e'. e' \<noteq> Call \<and> instance_step False t' e' s \<noteq> None" if "li_pc s t \<noteq> Outside"
    using guard.inside_or_free [OF D(1)]
  proof
    assume "\<exists>u. in_lock (li_pc s u)"
    then show ?thesis using holder_moves [OF inv] by blast
  next
    assume "\<forall>u. \<exists>m. guard_acquire u (li_lock s) = Some m"
    then show ?thesis using holder_moves [OF inv, of t] other_moves [OF _ that] by blast
  qed
  ultimately show ?thesis using stored_too_early by blast
qed

theorem getInstance_once_witness:
  "\<exists>s. instance_run False s \<and> li_pc s 1 = Got (Some 0) \<and> li_pc s 2 = WantLock \<and> li_objects s = [True]"
proof -
  let ?es = "[(0, Call), (0, Test), (2, Call), (2, Test), (0, Lock), (0, Test), (0, Alloc), (0, Construct), (0, Publish),
    (0, Unlock), (1, Call), (1, Test), (1, Return)]"
  have "\<exists>s. instance_steps False ?es instance_init = Some (Inr s) \<and> li_pc s 1 = Got (Some 0) \<and> li_pc s 2 = WantLock"
    by (simp add: goes_def instance_init_def guard_defs)
  then obtain s where s: "instance_steps False ?es instance_init = Some (Inr s)" "li_pc s 1 = Got (Some 0)"
    "li_pc s 2 = WantLock" by blast
  have run: "instance_run False s" by (rule instance_steps_run [OF instance_start s(1)])
  from getInstance_once [OF run, of 1] run s(2,3) show ?thesis by blast
qed

end
