(* ===== verification/LogProgram.thy ===== *)
theory LogProgram
  imports Logger AsyncLog
begin

text \<open>
  The log of a whole program, \<open>AsyncLogInit\<close> of \<open>log/flog.h\<close>: the object a \<open>main\<close> function holds
  starts the back end and makes it the output of all streams; its destructor first releases the
  logger, which flushes every stream into the back end, and then stops the back end.
\<close>

subsection \<open>Operations\<close>

definition AsyncLogInit_new :: "string \<Rightarrow> asynclog res" where
  "AsyncLogInit_new progname = AsyncLoggingWatcher progname"

text \<open>What the stream at an address has passed to the output function so far.\<close>

definition passed :: "logger \<Rightarrow> nat \<Rightarrow> string list" where
  "passed s a = (if a < length (lg_streams s)
     then case lg_streams s ! a of None \<Rightarrow> [] | Some st \<Rightarrow> ls_out st else [])"

text \<open>
  The destructor of \<open>LoggerWatcher\<close> releases the logger. Its second value is what goes to the
  output function meanwhile, each message with the address of its stream.
\<close>

definition LoggerWatcher_destroy :: "logger \<Rightarrow> (logger \<times> (nat \<times> string) list) res" where
  "LoggerWatcher_destroy s =
     bindR (Logger_release s) (\<lambda>s'.
       Inr (s', concat (map (\<lambda>(a, msgs). map (Pair a) (drop (length (passed s a)) msgs))
                  (drop (length (lg_out s)) (lg_out s')))))"

text \<open>
  The destructor of \<open>AsyncLogInit\<close>, in the order of its assignments. \<open>es\<close> are the steps of the
  back end and the appends while the logger is released, \<open>fs\<close> those from the call of \<open>stop\<close> on;
  \<open>None\<close>: the appends of \<open>es\<close> are not what the release passes on, or a step would wait.
\<close>

definition AsyncLogInit_destroy ::
  "async_event list \<Rightarrow> async_event list \<Rightarrow> logger \<Rightarrow> asynclog \<Rightarrow> (logger \<times> asynclog) res option" where
  "AsyncLogInit_destroy es fs s z =
     bindO (Some (LoggerWatcher_destroy s)) (\<lambda>(s', msgs).
     if concat (map appended es) = map snd msgs
     then bindO (async_steps es z) (\<lambda>z1. bindO (async_steps fs z1) (\<lambda>z2. Some (Inr (s', z2))))
     else None)"

subsection \<open>What the release passes on\<close>

lemma destroy_out: "LogStream_destroy st = Inr (ls_out st @ [ls_buf st])"
  by (simp add: LogStream_destroy_def LogStream_flush_def)

lemma release_some:
  "foldR (\<lambda>(a, st) out. case st of None \<Rightarrow> Inr out
     | Some st \<Rightarrow> bindR (LogStream_destroy st) (\<lambda>msgs. Inr (out @ [(a, msgs)]))) as out =
   Inr (out @ concat (map (\<lambda>(a, st). case st of None \<Rightarrow> [] | Some st \<Rightarrow> [(a, ls_out st @ [ls_buf st])]) as))"
proof (induction as arbitrary: out)
  case (Cons ast as)
  obtain a st where ast: "ast = (a, st)" by (cases ast)
  show ?case by (cases st) (simp_all add: ast destroy_out Cons)
qed simp

text \<open>The messages of one stream in a sequence of messages of many.\<close>

definition messages_of :: "nat \<Rightarrow> (nat \<times> string) list \<Rightarrow> string list" where
  "messages_of a ms = map snd (filter (\<lambda>m. fst m = a) ms)"

lemma messages_of_Nil [simp]: "messages_of a [] = []"
  by (simp add: messages_of_def)

lemma messages_of_append [simp]: "messages_of a (ms @ ns) = messages_of a ms @ messages_of a ns"
  by (simp add: messages_of_def)

lemma messages_of_Pair [simp]: "messages_of a (map (Pair b) ms) = (if a = b then ms else [])"
  by (auto simp: messages_of_def comp_def filter_map)

lemma messages_of_upt:
  "messages_of a (concat (map (\<lambda>a. map (Pair a) (f a)) [0..<n])) = (if a < n then f a else [])"
  by (induction n) (simp_all add: messages_of_Nil less_Suc_eq)

lemma watcher_destroy:
  assumes "lg_instance s \<noteq> None" "lg_out s = []"
    and "\<forall>a < length (lg_streams s). lg_streams s ! a = Some (st a)"
  shows "\<exists>s'. LoggerWatcher_destroy s =
    Inr (s', concat (map (\<lambda>a. map (Pair a) [ls_buf (st a)]) [0..<length (lg_streams s)]))"
proof -
  let ?n = "length (lg_streams s)"
  have "zip [0..<?n] (lg_streams s) = map (\<lambda>a. (a, lg_streams s ! a)) [0..<?n]"
    by (rule nth_equalityI) simp_all
  also have "\<dots> = map (\<lambda>a. (a, Some (st a))) [0..<?n]" using assms(3) by simp
  finally have zip: "zip [0..<?n] (lg_streams s) = map (\<lambda>a. (a, Some (st a))) [0..<?n]" .
  let ?out = "map (\<lambda>a. (a, ls_out (st a) @ [ls_buf (st a)])) [0..<?n]"
  have "concat (map (\<lambda>(a, st). case st of None \<Rightarrow> [] | Some st \<Rightarrow> [(a, ls_out st @ [ls_buf st])])
      (zip [0..<?n] (lg_streams s))) = ?out"
    unfolding zip by (simp add: comp_def)
  then obtain s' where s': "Logger_release s = Inr s'" "lg_out s' = ?out"
    using assms(1,2) by (simp add: Logger_release_def release_some)
  have eq: "map (\<lambda>(a, msgs). map (Pair a) (drop (length (passed s a)) msgs)) ?out = map (\<lambda>a. map (Pair a) [ls_buf (st a)]) [0..<?n]"
    using assms(3) by (simp add: passed_def)
  have "LoggerWatcher_destroy s = Inr (s', concat (map (\<lambda>a. map (Pair a) [ls_buf (st a)]) [0..<?n]))"
    unfolding LoggerWatcher_destroy_def s'(1) bindR_Inr s'(2) assms(2) list.size(3) drop_0 eq ..
  then show ?thesis ..
qed

text \<open>Appends that do not wait for the back end.\<close>

lemma append_all:
  assumes "accepting bn rs z" "\<forall>m \<in> set ms. length m < kAsyncBuffer"
  shows "\<exists>z'. async_steps (map Append ms) z = Some (Inr z') \<and> accepting bn rs z'"
  using assms
proof (induction ms arbitrary: z)
  case (Cons m ms)
  from back_end.emit_law [OF Cons.prems(1), of m] Cons.prems(2) obtain z1 where
    z1: "AsyncLogging_append m z = Inr z1" "accepting bn rs z1" by auto
  from Cons.IH [OF z1(2)] Cons.prems(2) obtain z' where
    "async_steps (map Append ms) z1 = Some (Inr z')" "accepting bn rs z'" by auto
  then show ?case using z1(1) Cons.prems(1) by (simp add: accepting_def)
qed simp

lemma appended_Append [simp]: "concat (map appended (map Append ms)) = ms"
  by (induction ms) simp_all

text \<open>The streams of a run are what the records of their threads make of a new one.\<close>

definition stream_at :: "logger \<Rightarrow> nat \<Rightarrow> logstream" where
  "stream_at s a = the (lg_streams s ! a)"

lemma streams_of_run:
  assumes "logger_inv l xs s" "a < length (lg_streams s)"
  shows "lg_streams s ! a = Some (stream_at s a)"
  using stream_of_owner [OF assms] by (auto simp: stream_at_def)

lemma stream_text:
  assumes "logger_inv l xs s" "\<forall>y \<in> snd ` set xs. rec_ok y" "lg_pStream s t = Some a"
  shows "concat (ls_out (stream_at s a) @ [ls_buf (stream_at s a)]) = concat (map rec_text (recs_of l t xs))"
    "small_messages (stream_at s a)" "a < length (lg_streams s)"
proof -
  have "case Some a of None \<Rightarrow> recs_of l t xs = [] | Some a \<Rightarrow> a < length (lg_streams s) \<and> recs_of l t xs \<noteq> [] \<and>
      (\<exists>st. lg_streams s ! a = Some st \<and> run_logs (lg_bufferLevel s) (recs_of l t xs) LogStream_new = Some (Inr st))"
    using assms(1) unfolding assms(3) [symmetric] logger_inv_def by blast
  then obtain st where st: "a < length (lg_streams s)" "lg_streams s ! a = Some st"
    "run_logs (lg_bufferLevel s) (recs_of l t xs) LogStream_new = Some (Inr st)" by auto
  have "\<forall>x \<in> set (recs_of l t xs). rec_ok x" using assms(2) by (auto simp: recs_of_def)
  from logs_out [OF this, of "lg_bufferLevel s"] st(3)
  show "concat (ls_out (stream_at s a) @ [ls_buf (stream_at s a)]) = concat (map rec_text (recs_of l t xs))"
    by (simp add: destroy_out stream_at_def st(2))
  show "small_messages (stream_at s a)" using run_logs_small [OF st(3) small_new] by (simp add: stream_at_def st(2))
  show "a < length (lg_streams s)" by (rule st(1))
qed

subsection \<open>The end of a program\<close>

definition thread_text :: "logger \<Rightarrow> nat \<Rightarrow> (nat \<times> string) list \<Rightarrow> string" where
  "thread_text s t ms = (case lg_pStream s t of None \<Rightarrow> [] | Some a \<Rightarrow> concat (messages_of a ms))"

text \<open>What the streams have passed on and what the release adds are the records of each thread.\<close>

lemma release_messages:
  assumes "logger_inv l xs s" "\<forall>y \<in> snd ` set xs. rec_ok y" "lg_instance s = Some l"
    and "\<forall>a. messages_of a sent = passed s a"
  shows "\<exists>s' rest. LoggerWatcher_destroy s = Inr (s', rest) \<and> (\<forall>m \<in> set (map snd rest). length m < kBufferSize) \<and>
    (\<forall>t. thread_text s t (sent @ rest) = concat (map rec_text (recs_of l t xs))) \<and>
    (\<forall>m \<in> set (sent @ rest). \<exists>!t. lg_pStream s t = Some (fst m)) \<and> instance_deleter_destroy s' = Inr s'"
proof -
  let ?n = "length (lg_streams s)"
  let ?rest = "concat (map (\<lambda>a. map (Pair a) [ls_buf (stream_at s a)]) [0..<?n])"
  have "lg_out s = []" using assms(1) unfolding logger_inv_def by blast
  then obtain s' where s': "LoggerWatcher_destroy s = Inr (s', ?rest)"
    using watcher_destroy [of s "stream_at s"] assms(3) streams_of_run [OF assms(1)] by auto
  have "length (ls_buf (stream_at s a)) < kBufferSize" if a: "a < ?n" for a
  proof -
    obtain t where "lg_pStream s t = Some a" using stream_of_owner [OF assms(1) a] by blast
    from stream_text(2) [OF assms(1,2) this] show ?thesis by (simp add: small_messages_def)
  qed
  then have short: "\<forall>m \<in> set (map snd ?rest). length m < kBufferSize" by auto
  have "thread_text s t (sent @ ?rest) = concat (map rec_text (recs_of l t xs))" for t
  proof (cases "lg_pStream s t")
    case None
    have "case None of None \<Rightarrow> recs_of l t xs = [] | Some a \<Rightarrow> a < length (lg_streams s) \<and> recs_of l t xs \<noteq> [] \<and>
      (\<exists>st. lg_streams s ! a = Some st \<and> run_logs (lg_bufferLevel s) (recs_of l t xs) LogStream_new = Some (Inr st))"
      using assms(1) unfolding None [symmetric] logger_inv_def by blast
    with None show ?thesis by (simp add: thread_text_def)
  next
    case (Some a)
    note st = stream_text [OF assms(1,2) Some]
    have "passed s a = ls_out (stream_at s a)"
      using st(3) streams_of_run [OF assms(1) st(3)] by (simp add: passed_def)
    then have "messages_of a (sent @ ?rest) = ls_out (stream_at s a) @ [ls_buf (stream_at s a)]"
      unfolding messages_of_append messages_of_upt using st(3) assms(4) by simp
    then show ?thesis using st(1) by (simp add: thread_text_def Some)
  qed
  moreover have "\<exists>!t. lg_pStream s t = Some (fst m)" if m: "m \<in> set (sent @ ?rest)" for m
  proof -
    have "fst m < ?n"
    proof (cases "m \<in> set sent")
      case True
      then have "messages_of (fst m) sent \<noteq> []" by (force simp: messages_of_def filter_empty_conv)
      then show ?thesis using assms(4) by (auto simp: passed_def split: if_splits)
    qed (use m in auto)
    then show ?thesis using assms(1) unfolding logger_inv_def by blast
  qed
  moreover have "instance_deleter_destroy s' = Inr s'"
    using s' by (auto simp: LoggerWatcher_destroy_def bindR_eq_Inr_iff intro: released_instance)
  ultimately show ?thesis using s' short by blast
qed

lemma logs_run:
  assumes "\<forall>y \<in> snd ` set xs. rec_ok y" "Logger_logs xs (SetBufferLevel bl (Logger_setLevel l logger_init)) = Some (Inr s)"
  shows "logger_inv l xs s \<and> lg_instance s = Some l"
proof -
  have "logger_inv l xs s" using logs_and_release [OF assms(1), of bl l] assms(2) by auto
  moreover have "lg_instance (SetBufferLevel bl (Logger_setLevel l logger_init)) = Some l"
    by (simp add: SetBufferLevel_def Logger_setLevel_def)
  ultimately show ?thesis using logger_logs_instance [OF assms(2)] by blast
qed

text \<open>
  C1: From the first record to the end of the program. Threads log records that can be printed and
  are shorter than a buffer; their streams pass messages to the back end in any order and with any
  steps of the back end between them. Then the destructor of AsyncLogInit can be brought to its end
  by appending what the streams still hold and at most ten further steps. However it ends, with the
  back end finished, the files hold the messages the streams have passed on, those passed on before
  and those the release adds, each once and nothing else. Every message is one of the stream of
  exactly one thread, and those of a thread make up exactly the text of its records that were not
  below the level, in their order. The release behind the end of the program finds nothing to do.
\<close>

theorem log_program:
  assumes "\<forall>y \<in> snd ` set xs. rec_ok y"
    and "Logger_logs xs (SetBufferLevel bl (Logger_setLevel l (instance_deleter_new logger_init))) = Some (Inr s)"
    and "AsyncLogInit_new progname = Inr z0" "async_steps es0 z0 = Some (Inr z)" "list_all (event_ok progname) es0"
    and "\<not> al_stopped z" "concat (map appended es0) = map snd sent" "\<forall>a. messages_of a sent = passed s a"
    and "rollFile progname micros pid = Inr name"
  shows "(\<exists>es fs s' z'. length fs \<le> 10 \<and> AsyncLogInit_destroy es fs s z = Some (Inr (s', z')) \<and> al_pc z' = Finished) \<and>
    (\<forall>es fs s' z'. list_all (event_ok progname) (es @ fs) \<longrightarrow> concat (map appended fs) = [] \<longrightarrow>
      AsyncLogInit_destroy es fs s z = Some (Inr (s', z')) \<longrightarrow> al_pc z' = Finished \<longrightarrow>
      (\<exists>rest. LoggerWatcher_destroy s = Inr (s', rest) \<and> files_text (al_files z') = concat (map snd (sent @ rest)) \<and>
        (\<forall>m \<in> set (sent @ rest). \<exists>!t. lg_pStream s t = Some (fst m)) \<and>
        (\<forall>t. thread_text s t (sent @ rest) = concat (map rec_text (recs_of l t xs))) \<and>
        instance_deleter_destroy s' = Inr s'))"
proof -
  let ?rs = "1000 * 1000 * 100 :: int"
  have z0: "AsyncLogging_start (AsyncLogging_new progname ?rs) = Inr z0"
    using assms(3) by (simp add: AsyncLogInit_new_def AsyncLoggingWatcher_def)
  have inv: "async_inv progname ?rs z (map snd sent)"
    using async.steps_keep [OF async_inv_started [OF z0] assms(5,4)] assms(7) by simp
  obtain s' rest where rest: "LoggerWatcher_destroy s = Inr (s', rest)" "\<forall>m \<in> set (map snd rest). length m < kBufferSize"
    "\<forall>t. thread_text s t (sent @ rest) = concat (map rec_text (recs_of l t xs))"
    "\<forall>m \<in> set (sent @ rest). \<exists>!t. lg_pStream s t = Some (fst m)" "instance_deleter_destroy s' = Inr s'"
    using release_messages [of l xs s sent] logs_run [OF assms(1) assms(2) [unfolded setLevel_started]] assms(1,8) by blast
  have "kBufferSize < kAsyncBuffer" by (simp add: kBufferSize_def kAsyncBuffer_def)
  with rest(2) have short: "\<forall>m \<in> set (map snd rest). length m < kAsyncBuffer" by (meson less_trans)
  have "accepting progname ?rs z" using inv assms(6) unfolding accepting_def by blast
  from append_all [OF this short] obtain z1 where
    z1: "async_steps (map Append (map snd rest)) z = Some (Inr z1)" "accepting progname ?rs z1" by blast
  obtain ms1 where "async_inv progname ?rs z1 ms1" using z1(2) unfolding accepting_def by blast
  from stop_finishes [OF this assms(9)] obtain fs z2 where fs: "length fs \<le> 10"
    "async_steps fs z1 = Some (Inr z2)" "al_pc z2 = Finished" by blast
  have "AsyncLogInit_destroy (map Append (map snd rest)) fs s z = Some (Inr (s', z2))"
    unfolding AsyncLogInit_destroy_def rest(1) bindO_simps prod.case appended_Append z1(1) fs(2) by simp
  moreover have "s'' = s' \<and> files_text (al_files z') = concat (map snd (sent @ rest))"
    if ok: "list_all (event_ok progname) (es @ gs)" "concat (map appended gs) = []"
      and run: "AsyncLogInit_destroy es gs s z = Some (Inr (s'', z'))" "al_pc z' = Finished" for es gs s'' z'
  proof -
    have eq: "concat (map appended es) = map snd rest"
      using run(1) unfolding AsyncLogInit_destroy_def rest(1) bindO_simps prod.case by (metis option.distinct(1))
    then obtain z3 where z3: "async_steps es z = Some (Inr z3)" "async_steps gs z3 = Some (Inr z')"
      using run(1) unfolding AsyncLogInit_destroy_def rest(1) bindO_simps prod.case if_P [OF eq] bindO_Inr by blast
    have "async_inv progname ?rs z3 (map snd (sent @ rest))"
      using async.steps_keep [OF inv _ z3(1)] ok(1) eq by simp
    from async.steps_keep [OF this _ z3(2)] ok have "async_inv progname ?rs z' (map snd (sent @ rest))" by simp
    from finished_complete [OF this run(2)] show ?thesis
      using run(1) z3 unfolding AsyncLogInit_destroy_def rest(1) bindO_simps prod.case if_P [OF eq] by simp
  qed
  ultimately show ?thesis using fs(1,3) rest(1,3-5) by blast
qed

text \<open>The streams in turn pass on what they have, before the end of the program.\<close>

lemma passed_in_turn:
  assumes "logger_inv l xs s" "\<forall>y \<in> snd ` set xs. rec_ok y"
  shows "\<exists>z0 sent z. AsyncLogInit_new progname = Inr z0 \<and> async_steps (map Append (map snd sent)) z0 = Some (Inr z) \<and>
    \<not> al_stopped z \<and> list_all (event_ok progname) (map Append (map snd sent)) \<and> (\<forall>a. messages_of a sent = passed s a)"
proof -
  let ?sent = "concat (map (\<lambda>a. map (Pair a) (passed s a)) [0..<length (lg_streams s)])"
  have "\<forall>a. messages_of a ?sent = passed s a" unfolding messages_of_upt by (simp add: passed_def)
  moreover have "length m < kBufferSize" if m: "m \<in> set (passed s a)" "a < length (lg_streams s)" for a m
  proof -
    obtain t where "lg_pStream s t = Some a" using stream_of_owner [OF assms(1) m(2)] by blast
    from stream_text(2) [OF assms this] m streams_of_run [OF assms(1) m(2)] show ?thesis
      by (simp add: small_messages_def passed_def)
  qed
  then have "\<forall>m \<in> set (map snd ?sent). length m < kBufferSize" by auto
  moreover have "kBufferSize < kAsyncBuffer" by (simp add: kBufferSize_def kAsyncBuffer_def)
  ultimately have short: "\<forall>m \<in> set (map snd ?sent). length m < kAsyncBuffer"
    and sent: "\<forall>a. messages_of a ?sent = passed s a" by (meson less_trans, blast)
  obtain z0 where z0: "AsyncLogging_start (AsyncLogging_new progname (1000 * 1000 * 100)) = Inr z0"
    "accepting progname (1000 * 1000 * 100) z0"
    using new_accepting by blast
  from append_all [OF z0(2) short] obtain z where z: "async_steps (map Append (map snd ?sent)) z0 = Some (Inr z)"
    "\<not> al_stopped z" unfolding accepting_def by blast
  have "list_all (event_ok progname) (map Append (map snd ?sent))"
    using short by (auto simp: list_all_iff event_ok_def)
  moreover have "AsyncLogInit_new progname = Inr z0"
    using z0(1) by (simp add: AsyncLogInit_new_def AsyncLoggingWatcher_def)
  ultimately show ?thesis using z sent by blast
qed

theorem log_program_witness:
  "\<exists>s z s' z' es fs. Logger_logs [(1, sample_rec), (2, sample_rec), (1, sample_rec)]
      (SetBufferLevel kFullBuffer (Logger_setLevel INFO (instance_deleter_new logger_init))) = Some (Inr s) \<and>
    AsyncLogInit_destroy es fs s z = Some (Inr (s', z')) \<and> al_pc z' = Finished \<and> length fs \<le> 10"
proof -
  let ?xs = "[(1, sample_rec), (2, sample_rec), (1, sample_rec)]"
  have ok: "\<forall>y \<in> snd ` set ?xs. rec_ok y" using sample_rec_ok(1) by simp
  obtain s where s: "Logger_logs ?xs (SetBufferLevel kFullBuffer (Logger_setLevel INFO logger_init)) = Some (Inr s)"
    "logger_inv INFO ?xs s" using logs_and_release [OF ok, of kFullBuffer INFO] by blast
  obtain z0 sent z where z: "AsyncLogInit_new ''server'' = Inr z0"
    "async_steps (map Append (map snd sent)) z0 = Some (Inr z)" "\<not> al_stopped z"
    "list_all (event_ok ''server'') (map Append (map snd sent))" "\<forall>a. messages_of a sent = passed s a"
    using passed_in_turn [OF s(2) ok] by blast
  have eq: "concat (map appended (map Append (map snd sent))) = map snd sent" by (rule appended_Append)
  have s1: "Logger_logs ?xs (SetBufferLevel kFullBuffer (Logger_setLevel INFO (instance_deleter_new logger_init))) = Some (Inr s)"
    using s(1) by simp
  from log_program [OF ok s1 z(1,2,4,3) eq z(5) sample_name] s1 show ?thesis by blast
qed

end
