(* ===== verification/LexCast.thy ===== *)
theory LexCast
  imports Prelude
begin

text \<open>
  The conversions between values and strings of \<open>config/config.h\<close>: the template \<open>LexicalCast\<close>
  with its specialisations for the containers. The containers go through the library yaml-cpp,
  which is a parameter here; so are the conversions of the element types.
\<close>

subsection \<open>Exceptions\<close>

text \<open>A result, or what the exception thrown instead says.\<close>

type_synonym 'a exn = "string + 'a"

definition bindE :: "'a exn \<Rightarrow> ('a \<Rightarrow> 'b exn) \<Rightarrow> 'b exn" where
  "bindE m f = (case m of Inl e \<Rightarrow> Inl e | Inr x \<Rightarrow> f x)"

lemma bindE_simps [simp, res_simps]: "bindE (Inl e) f = Inl e" "bindE (Inr x) f = f x"
  by (simp_all add: bindE_def)

lemma bindE_eq_Inr_iff: "bindE m f = Inr y \<longleftrightarrow> (\<exists>x. m = Inr x \<and> f x = Inr y)"
  by (cases m) auto

text \<open>The loop \<open>for (x : xs)\<close> over a state, left at the first exception.\<close>

fun foldE :: "('x \<Rightarrow> 's \<Rightarrow> 's exn) \<Rightarrow> 'x list \<Rightarrow> 's \<Rightarrow> 's exn" where
  "foldE f [] s = Inr s"
| "foldE f (x # xs) s = bindE (f x s) (foldE f xs)"

lemma foldE_append: "foldE f (xs @ ys) s = bindE (foldE f xs s) (foldE f ys)"
proof (induction xs arbitrary: s)
  case (Cons x xs)
  then show ?case by (cases "f x s") auto
qed simp

text \<open>A loop whose steps all succeed is a \<open>fold\<close>.\<close>

lemma foldE_ok:
  assumes "\<And>x s. x \<in> set xs \<Longrightarrow> f x s = Inr (g x s)"
  shows "foldE f xs s = Inr (fold g xs s)"
  using assms by (induction xs arbitrary: s) simp_all

lemma foldE_map: "foldE f (map h xs) s = foldE (\<lambda>x. f (h x)) xs s"
  by (induction xs arbitrary: s) (simp_all add: bindE_def split: sum.split)

subsection \<open>What the code uses of yaml-cpp\<close>

datatype yaml_kind = Undefined | Null | Scalar | Sequence | Map

text \<open>
  \<open>'n\<close> is the type of nodes. \<open>y_emit\<close> is what a stream shows of a node, \<open>y_pairs\<close> the entries an
  iteration over a node meets, \<open>y_text\<close> its method \<open>Scalar\<close> and \<open>y_as_string\<close> its method
  \<open>as<std::string>\<close>.
\<close>

record 'n yaml_lib =
  y_Load :: "string \<Rightarrow> 'n exn"
  y_LoadFile :: "string \<Rightarrow> 'n exn"
  y_emit :: "'n \<Rightarrow> string"
  y_null :: 'n
  y_kind :: "'n \<Rightarrow> yaml_kind"
  y_push_back :: "'n \<Rightarrow> 'n \<Rightarrow> 'n"
  y_force_insert :: "'n \<Rightarrow> 'n \<Rightarrow> 'n \<Rightarrow> 'n"
  y_size :: "'n \<Rightarrow> nat"
  y_at :: "'n \<Rightarrow> nat \<Rightarrow> 'n"
  y_pairs :: "'n \<Rightarrow> ('n \<times> 'n) list"
  y_text :: "'n \<Rightarrow> string"
  y_as_string :: "'n \<Rightarrow> string exn"

subsection \<open>Containers to strings\<close>

text \<open>The loop of the sequence-like containers: a sequence of the elements' nodes.\<close>

definition sequence_node :: "('n, 'z) yaml_lib_scheme \<Rightarrow> ('a \<Rightarrow> string exn) \<Rightarrow> 'a list \<Rightarrow> 'n exn" where
  "sequence_node Y toStr xs =
     bindE (y_Load Y ''[]'') (\<lambda>node.
       foldE (\<lambda>v node. bindE (toStr v) (\<lambda>s. bindE (y_Load Y s) (\<lambda>n. Inr (y_push_back Y node n)))) xs node)"

definition shown :: "('n, 'z) yaml_lib_scheme \<Rightarrow> 'n exn \<Rightarrow> string exn" where
  "shown Y node = bindE node (\<lambda>n. Inr (y_emit Y n))"

definition vector_toString :: "('n, 'z) yaml_lib_scheme \<Rightarrow> ('a \<Rightarrow> string exn) \<Rightarrow> 'a list \<Rightarrow> string exn" where
  "vector_toString Y toStr vec = shown Y (sequence_node Y toStr vec)"

definition list_toString :: "('n, 'z) yaml_lib_scheme \<Rightarrow> ('a \<Rightarrow> string exn) \<Rightarrow> 'a list \<Rightarrow> string exn" where
  "list_toString Y toStr vec = shown Y (sequence_node Y toStr vec)"

text \<open>A set is iterated in ascending order, an unordered one in the order \<open>it\<close> of its buckets.\<close>

definition set_toString :: "('n, 'z) yaml_lib_scheme \<Rightarrow> ('a :: linorder \<Rightarrow> string exn) \<Rightarrow> 'a set \<Rightarrow> string exn" where
  "set_toString Y toStr vec = shown Y (sequence_node Y toStr (sorted_list_of_set vec))"

definition unordered_set_toString ::
  "('n, 'z) yaml_lib_scheme \<Rightarrow> ('a set \<Rightarrow> 'a list) \<Rightarrow> ('a \<Rightarrow> string exn) \<Rightarrow> 'a set \<Rightarrow> string exn" where
  "unordered_set_toString Y it toStr vec = shown Y (sequence_node Y toStr (it vec))"

text \<open>
  The maps. The ordered one converts its values by way of a string, the unordered one hands keys
  and values to the library; \<open>knode\<close> and \<open>vnode\<close> are the library's conversions of them to nodes.
\<close>

definition map_items :: "('k :: linorder \<rightharpoonup> 'v) \<Rightarrow> ('k \<times> 'v) list" where
  "map_items m = map (\<lambda>k. (k, the (m k))) (sorted_list_of_set (dom m))"

definition map_node ::
  "('n, 'z) yaml_lib_scheme \<Rightarrow> ('k :: linorder \<Rightarrow> 'n) \<Rightarrow> ('v \<Rightarrow> string exn) \<Rightarrow> ('k \<rightharpoonup> 'v) \<Rightarrow> 'n exn" where
  "map_node Y knode toStr mp =
     foldE (\<lambda>(k, v) node. bindE (toStr v) (\<lambda>s. bindE (y_Load Y s) (\<lambda>n. Inr (y_force_insert Y node (knode k) n))))
       (map_items mp) (y_null Y)"

definition map_toString ::
  "('n, 'z) yaml_lib_scheme \<Rightarrow> ('k :: linorder \<Rightarrow> 'n) \<Rightarrow> ('v \<Rightarrow> string exn) \<Rightarrow> ('k \<rightharpoonup> 'v) \<Rightarrow> string exn" where
  "map_toString Y knode toStr mp = shown Y (map_node Y knode toStr mp)"

definition unordered_map_node ::
  "('n, 'z) yaml_lib_scheme \<Rightarrow> (('k \<rightharpoonup> 'v) \<Rightarrow> ('k \<times> 'v) list) \<Rightarrow> ('k \<Rightarrow> 'n) \<Rightarrow> ('v \<Rightarrow> 'n) \<Rightarrow> ('k \<rightharpoonup> 'v) \<Rightarrow> 'n" where
  "unordered_map_node Y it knode vnode mp =
     fold (\<lambda>(k, v) node. y_force_insert Y node (knode k) (vnode v)) (it mp) (y_null Y)"

definition unordered_map_toString ::
  "('n, 'z) yaml_lib_scheme \<Rightarrow> (('k \<rightharpoonup> 'v) \<Rightarrow> ('k \<times> 'v) list) \<Rightarrow> ('k \<Rightarrow> 'n) \<Rightarrow> ('v \<Rightarrow> 'n) \<Rightarrow> ('k \<rightharpoonup> 'v) \<Rightarrow> string exn" where
  "unordered_map_toString Y it knode vnode mp = shown Y (Inr (unordered_map_node Y it knode vnode mp))"

subsection \<open>Strings to containers\<close>

text \<open>The loop over the indices of a node; \<open>add\<close> puts an element into the container.\<close>

definition collect_elems ::
  "('n, 'z) yaml_lib_scheme \<Rightarrow> (string \<Rightarrow> 'a exn) \<Rightarrow> ('a \<Rightarrow> 'c \<Rightarrow> 'c) \<Rightarrow> 'c \<Rightarrow> string \<Rightarrow> 'c exn" where
  "collect_elems Y fromStr add c0 str =
     bindE (y_Load Y str) (\<lambda>node.
       foldE (\<lambda>i c. bindE (fromStr (y_emit Y (y_at Y node i))) (\<lambda>v. Inr (add v c))) [0..<y_size Y node] c0)"

definition vector_fromString :: "('n, 'z) yaml_lib_scheme \<Rightarrow> (string \<Rightarrow> 'a exn) \<Rightarrow> string \<Rightarrow> 'a list exn" where
  "vector_fromString Y fromStr = collect_elems Y fromStr (\<lambda>v vec. vec @ [v]) []"

definition list_fromString :: "('n, 'z) yaml_lib_scheme \<Rightarrow> (string \<Rightarrow> 'a exn) \<Rightarrow> string \<Rightarrow> 'a list exn" where
  "list_fromString Y fromStr = collect_elems Y fromStr (\<lambda>v vec. vec @ [v]) []"

definition set_fromString :: "('n, 'z) yaml_lib_scheme \<Rightarrow> (string \<Rightarrow> 'a exn) \<Rightarrow> string \<Rightarrow> 'a set exn" where
  "set_fromString Y fromStr = collect_elems Y fromStr insert {}"

definition unordered_set_fromString :: "('n, 'z) yaml_lib_scheme \<Rightarrow> (string \<Rightarrow> 'a exn) \<Rightarrow> string \<Rightarrow> 'a set exn" where
  "unordered_set_fromString Y fromStr = collect_elems Y fromStr insert {}"

text \<open>\<open>insert\<close> of a map leaves the entry of a key that is there.\<close>

definition map_insert :: "'k \<Rightarrow> 'v \<Rightarrow> ('k \<rightharpoonup> 'v) \<Rightarrow> ('k \<rightharpoonup> 'v)" where
  "map_insert k v m = (if m k = None then m(k \<mapsto> v) else m)"

definition collect_pairs ::
  "('n, 'z) yaml_lib_scheme \<Rightarrow> (string \<Rightarrow> 'k exn) \<Rightarrow> (string \<Rightarrow> 'v exn) \<Rightarrow> string \<Rightarrow> ('k \<rightharpoonup> 'v) exn" where
  "collect_pairs Y kFrom vFrom str =
     bindE (y_Load Y str) (\<lambda>node.
       foldE (\<lambda>(kn, vn) mp. bindE (kFrom (y_text Y kn)) (\<lambda>k. bindE (vFrom (y_emit Y vn)) (\<lambda>v.
         Inr (map_insert k v mp)))) (y_pairs Y node) Map.empty)"

definition map_fromString ::
  "('n, 'z) yaml_lib_scheme \<Rightarrow> (string \<Rightarrow> 'k exn) \<Rightarrow> (string \<Rightarrow> 'v exn) \<Rightarrow> string \<Rightarrow> ('k \<rightharpoonup> 'v) exn" where
  "map_fromString Y kFrom vFrom = collect_pairs Y kFrom vFrom"

definition unordered_map_fromString ::
  "('n, 'z) yaml_lib_scheme \<Rightarrow> (string \<Rightarrow> 'k exn) \<Rightarrow> (string \<Rightarrow> 'v exn) \<Rightarrow> string \<Rightarrow> ('k \<rightharpoonup> 'v) exn" where
  "unordered_map_fromString Y kFrom vFrom = collect_pairs Y kFrom vFrom"

subsection \<open>Round trips\<close>

text \<open>What the library documents of the nodes the code builds.\<close>

definition yaml_ok :: "('n, 'z) yaml_lib_scheme \<Rightarrow> bool" where
  "yaml_ok Y \<longleftrightarrow>
     (\<exists>e. y_Load Y ''[]'' = Inr e \<and> y_kind Y e = Sequence \<and> y_size Y e = 0) \<and>
     (\<forall>n x. y_kind Y n = Sequence \<longrightarrow>
        y_kind Y (y_push_back Y n x) = Sequence \<and> y_size Y (y_push_back Y n x) = Suc (y_size Y n) \<and>
        y_at Y (y_push_back Y n x) (y_size Y n) = x \<and>
        (\<forall>i < y_size Y n. y_at Y (y_push_back Y n x) i = y_at Y n i)) \<and>
     y_kind Y (y_null Y) = Null \<and> (\<forall>n. y_kind Y n = Null \<longrightarrow> y_pairs Y n = []) \<and>
     (\<forall>n k v. y_kind Y n \<in> {Null, Map} \<longrightarrow>
        y_kind Y (y_force_insert Y n k v) = Map \<and> y_pairs Y (y_force_insert Y n k v) = y_pairs Y n @ [(k, v)])"

text \<open>
  Two nodes with the same content: the same kinds, and sequences and maps of nodes with the same
  contents in the same order. A leaf has a text, and a stream shows something of it; the style in
  which a collection is shown does not count.
\<close>

inductive same_content :: "('n, 'z) yaml_lib_scheme \<Rightarrow> 'n \<Rightarrow> 'n \<Rightarrow> bool" for Y where
  same_leaf: "y_kind Y m = y_kind Y n \<Longrightarrow> y_kind Y n \<notin> {Sequence, Map} \<Longrightarrow> y_text Y m = y_text Y n \<Longrightarrow>
    y_emit Y m = y_emit Y n \<Longrightarrow> same_content Y m n"
| same_sequence: "y_kind Y m = Sequence \<Longrightarrow> y_kind Y n = Sequence \<Longrightarrow> y_size Y m = y_size Y n \<Longrightarrow>
    (\<And>i. i < y_size Y n \<Longrightarrow> same_content Y (y_at Y m i) (y_at Y n i)) \<Longrightarrow> same_content Y m n"
| same_map: "y_kind Y m = Map \<Longrightarrow> y_kind Y n = Map \<Longrightarrow> length (y_pairs Y m) = length (y_pairs Y n) \<Longrightarrow>
    (\<And>i. i < length (y_pairs Y n) \<Longrightarrow> same_content Y (fst (y_pairs Y m ! i)) (fst (y_pairs Y n ! i))) \<Longrightarrow>
    (\<And>i. i < length (y_pairs Y n) \<Longrightarrow> same_content Y (snd (y_pairs Y m ! i)) (snd (y_pairs Y n ! i))) \<Longrightarrow>
    same_content Y m n"

inductive_cases same_cases: "same_content Y m n"

lemma same_kind: "same_content Y m n \<Longrightarrow> y_kind Y m = y_kind Y n"
  by (erule same_cases) simp_all

lemma same_text: "same_content Y m n \<Longrightarrow> y_kind Y n = Scalar \<Longrightarrow> y_text Y m = y_text Y n"
  by (erule same_cases) simp_all

lemma same_trans: "same_content Y l m \<Longrightarrow> same_content Y m n \<Longrightarrow> same_content Y l n"
proof (induction arbitrary: n rule: same_content.induct)
  case (same_leaf l m)
  from same_leaf.prems show ?case
    by (rule same_cases) (use same_leaf.hyps in \<open>auto intro: same_content.same_leaf\<close>)
next
  case (same_sequence l m)
  from same_sequence.prems show ?case
  proof (rule same_cases)
    assume n: "y_kind Y m = Sequence" "y_kind Y n = Sequence" "y_size Y m = y_size Y n"
      "\<And>i. i < y_size Y n \<Longrightarrow> same_content Y (y_at Y m i) (y_at Y n i)"
    show ?thesis
      by (rule same_content.same_sequence) (use same_sequence.hyps same_sequence.IH n in auto)
  qed (use same_sequence.hyps in simp_all)
next
  case (same_map l m)
  from same_map.prems show ?case
  proof (rule same_cases)
    assume n: "y_kind Y m = Map" "y_kind Y n = Map" "length (y_pairs Y m) = length (y_pairs Y n)"
      "\<And>i. i < length (y_pairs Y n) \<Longrightarrow> same_content Y (fst (y_pairs Y m ! i)) (fst (y_pairs Y n ! i))"
      "\<And>i. i < length (y_pairs Y n) \<Longrightarrow> same_content Y (snd (y_pairs Y m ! i)) (snd (y_pairs Y n ! i))"
    show ?thesis
      by (rule same_content.same_map) (use same_map.hyps same_map.IH n in auto)
  qed (use same_map.hyps in simp_all)
qed

text \<open>
  What YAML promises of a node that is dumped and loaded: the content stays, the style may change.
  It is asked for a node and for all with the same content.
\<close>

definition node_stable :: "('n, 'z) yaml_lib_scheme \<Rightarrow> 'n \<Rightarrow> bool" where
  "node_stable Y n \<longleftrightarrow> (\<forall>m. m = n \<or> same_content Y m n \<longrightarrow> (\<exists>m'. y_Load Y (y_emit Y m) = Inr m' \<and> same_content Y m' m))"

text \<open>A node from which, in whatever style it is shown, a conversion gets the value \<open>v\<close>.\<close>

definition gives :: "('n, 'z) yaml_lib_scheme \<Rightarrow> (string \<Rightarrow> 'a exn) \<Rightarrow> 'n \<Rightarrow> 'a \<Rightarrow> bool" where
  "gives Y fromStr n v \<longleftrightarrow> (\<forall>m. same_content Y m n \<longrightarrow> fromStr (y_emit Y m) = Inr v)"

text \<open>
  A value that survives the way to a string and back, directly or through a node. A container
  whose elements have this property has it too, so that containers nest.
\<close>

definition good_cast :: "('n, 'z) yaml_lib_scheme \<Rightarrow> ('a \<Rightarrow> string exn) \<Rightarrow> (string \<Rightarrow> 'a exn) \<Rightarrow> 'a \<Rightarrow> bool" where
  "good_cast Y toStr fromStr v \<longleftrightarrow>
     (\<exists>s n. toStr v = Inr s \<and> fromStr s = Inr v \<and> y_Load Y s = Inr n \<and> gives Y fromStr n v)"

text \<open>A container that is shown by way of a stable node, when every node with that content gives it.\<close>

lemma container_good:
  assumes "node_stable Y n" "toC c = Inr (y_emit Y n)"
    and "\<And>s m. y_Load Y s = Inr m \<Longrightarrow> same_content Y m n \<Longrightarrow> fromC s = Inr c"
  shows "good_cast Y toC fromC c"
proof -
  obtain n' where n': "y_Load Y (y_emit Y n) = Inr n'" "same_content Y n' n"
    using assms(1) unfolding node_stable_def by blast
  have "fromC (y_emit Y m) = Inr c" if m: "same_content Y m n'" for m
  proof -
    have mn: "same_content Y m n" using same_trans [OF m n'(2)] .
    then obtain m' where "y_Load Y (y_emit Y m) = Inr m'" "same_content Y m' m"
      using assms(1) unfolding node_stable_def by blast
    with assms(3) same_trans [OF _ mn] show ?thesis by blast
  qed
  then have "gives Y fromC n' c" by (simp add: gives_def)
  with n' assms(2) assms(3) [OF n'] show ?thesis unfolding good_cast_def by blast
qed

definition elems :: "('n, 'z) yaml_lib_scheme \<Rightarrow> 'n \<Rightarrow> 'n list" where
  "elems Y n = map (y_at Y n) [0..<y_size Y n]"

text \<open>A node that has the content of a sequence gives the same elements.\<close>

lemma same_elems:
  assumes "same_content Y m n" "y_kind Y n = Sequence" "list_all2 (gives Y fromStr) (elems Y n) xs"
  shows "list_all2 (\<lambda>k x. fromStr (y_emit Y k) = Inr x) (elems Y m) xs"
  using assms(1)
proof (rule same_cases)
  assume "y_size Y m = y_size Y n" "\<And>i. i < y_size Y n \<Longrightarrow> same_content Y (y_at Y m i) (y_at Y n i)"
  with assms(3) show ?thesis by (auto simp: list_all2_conv_all_nth elems_def gives_def)
qed (use assms(2) in simp_all)

lemma elems_push:
  assumes "yaml_ok Y" "y_kind Y n = Sequence"
  shows "elems Y (y_push_back Y n x) = elems Y n @ [x]" "y_kind Y (y_push_back Y n x) = Sequence"
  using assms by (auto simp: yaml_ok_def elems_def)

lemma sequence_node_elems:
  assumes "yaml_ok Y" "\<forall>x \<in> set xs. good_cast Y toStr fromStr x"
  shows "\<exists>n. sequence_node Y toStr xs = Inr n \<and> y_kind Y n = Sequence \<and> list_all2 (gives Y fromStr) (elems Y n) xs"
proof -
  let ?f = "\<lambda>v node. bindE (toStr v) (\<lambda>s. bindE (y_Load Y s) (\<lambda>n. Inr (y_push_back Y node n)))"
  have loop: "\<exists>n ms. foldE ?f xs node = Inr n \<and> y_kind Y n = Sequence \<and> elems Y n = elems Y node @ ms \<and>
      list_all2 (gives Y fromStr) ms xs"
    if "y_kind Y node = Sequence" "\<forall>x \<in> set xs. good_cast Y toStr fromStr x" for node xs
    using that
  proof (induction xs arbitrary: node)
    case (Cons x xs)
    from Cons.prems(2) obtain s m where x: "toStr x = Inr s" "y_Load Y s = Inr m" "gives Y fromStr m x"
      by (auto simp: good_cast_def)
    note push = elems_push [OF assms(1) Cons.prems(1), of m]
    from Cons.IH [OF push(2)] Cons.prems(2) obtain n ms where
      "foldE ?f xs (y_push_back Y node m) = Inr n" "y_kind Y n = Sequence" "elems Y n = elems Y node @ m # ms"
      "list_all2 (gives Y fromStr) ms xs" by (auto simp: push(1))
    with x show ?case by (intro exI [of _ n] exI [of _ "m # ms"]) simp
  qed simp
  obtain e where e: "y_Load Y ''[]'' = Inr e" "y_kind Y e = Sequence" "elems Y e = []"
    using assms(1) by (auto simp: yaml_ok_def elems_def)
  from loop [OF e(2) assms(2)] e(1,3) show ?thesis by (auto simp: sequence_node_def)
qed

lemma collect_elems_ok:
  assumes "y_Load Y s = Inr n" "list_all2 (\<lambda>m x. fromStr (y_emit Y m) = Inr x) (elems Y n) xs"
  shows "collect_elems Y fromStr add c0 s = Inr (fold add xs c0)"
proof -
  have "foldE (\<lambda>m c. bindE (fromStr (y_emit Y m)) (\<lambda>v. Inr (add v c))) ms c = Inr (fold add xs c)"
    if "list_all2 (\<lambda>m x. fromStr (y_emit Y m) = Inr x) ms xs" for ms c
    using that by (induction arbitrary: c rule: list_all2_induct) simp_all
  from this [OF assms(2)] show ?thesis by (simp add: collect_elems_def assms(1) elems_def foldE_map)
qed

text \<open>The two together, for any way \<open>add\<close> of building a container from its elements.\<close>

lemma sequence_good:
  assumes "yaml_ok Y" "\<forall>x \<in> set xs. good_cast Y toStr fromStr x"
    and "\<forall>n. sequence_node Y toStr xs = Inr n \<longrightarrow> node_stable Y n"
    and "toC c = shown Y (sequence_node Y toStr xs)" "fromC = collect_elems Y fromStr add c0"
    and "fold add xs c0 = c"
  shows "good_cast Y toC fromC c"
proof -
  obtain n where n: "sequence_node Y toStr xs = Inr n" "y_kind Y n = Sequence"
    "list_all2 (gives Y fromStr) (elems Y n) xs"
    using sequence_node_elems [OF assms(1,2)] by blast
  show ?thesis
  proof (rule container_good)
    show "node_stable Y n" using assms(3) n(1) by blast
    show "toC c = Inr (y_emit Y n)" by (simp add: assms(4) shown_def n(1))
    show "fromC s = Inr c" if "y_Load Y s = Inr m" "same_content Y m n" for s m
      using collect_elems_ok [OF that(1) same_elems [OF that(2) n(2,3)], of add c0] assms(5,6) by simp
  qed
qed

lemma fold_snoc: "fold (\<lambda>v vec. vec @ [v]) xs ys = ys @ xs"
  by (induction xs arbitrary: ys) simp_all

lemma fold_insert_set: "fold insert xs A = A \<union> set xs"
  by (induction xs arbitrary: A) auto

lemmas cast_defs = vector_toString_def list_toString_def set_toString_def unordered_set_toString_def
  vector_fromString_def list_fromString_def set_fromString_def unordered_set_fromString_def
  map_toString_def unordered_map_toString_def map_fromString_def unordered_map_fromString_def

text \<open>The entries of a map.\<close>

lemma collect_pairs_ok:
  assumes "y_Load Y s = Inr n"
    and "list_all2 (\<lambda>(kn, vn) (k, v). kFrom (y_text Y kn) = Inr k \<and> vFrom (y_emit Y vn) = Inr v) (y_pairs Y n) kvs"
  shows "collect_pairs Y kFrom vFrom s = Inr (fold (\<lambda>(k, v). map_insert k v) kvs Map.empty)"
proof -
  let ?f = "\<lambda>(kn, vn) mp. bindE (kFrom (y_text Y kn)) (\<lambda>k. bindE (vFrom (y_emit Y vn)) (\<lambda>v. Inr (map_insert k v mp)))"
  have "foldE ?f ms mp = Inr (fold (\<lambda>(k, v). map_insert k v) kvs mp)"
    if "list_all2 (\<lambda>(kn, vn) (k, v). kFrom (y_text Y kn) = Inr k \<and> vFrom (y_emit Y vn) = Inr v) ms kvs" for ms mp
    using that by (induction arbitrary: mp rule: list_all2_induct) auto
  from this [OF assms(2)] show ?thesis by (simp add: collect_pairs_def assms(1))
qed

lemma fold_map_insert:
  assumes "distinct (map fst kvs)" "\<forall>k \<in> fst ` set kvs. m k = None"
  shows "fold (\<lambda>(k, v). map_insert k v) kvs m = m ++ map_of kvs"
  using assms
proof (induction kvs arbitrary: m)
  case (Cons kv kvs)
  obtain k v where kv: "kv = (k, v)" by (cases kv)
  have "fold (\<lambda>(k, v). map_insert k v) kvs (m(k \<mapsto> v)) = m(k \<mapsto> v) ++ map_of kvs"
    using Cons by (intro Cons.IH) (auto simp: kv)
  moreover have "k \<notin> dom (map_of kvs)" using Cons.prems(1) by (simp add: kv dom_map_of_conv_image_fst)
  then have "m(k \<mapsto> v) ++ map_of kvs = m ++ map_of (kv # kvs)"
    unfolding kv map_of.simps map_add_upd fst_conv snd_conv by (rule map_add_upd_left)
  moreover have "map_insert k v m = m(k \<mapsto> v)" using Cons.prems(2) by (simp add: kv map_insert_def)
  ultimately show ?case by (simp only: kv fold_simps o_apply prod.case)
qed simp

lemma pairs_fold_insert:
  assumes "yaml_ok Y" "y_kind Y node \<in> {Null, Map}"
  shows "y_pairs Y (fold (\<lambda>(kn, vn) node. y_force_insert Y node kn vn) ps node) = y_pairs Y node @ ps \<and>
    y_kind Y (fold (\<lambda>(kn, vn) node. y_force_insert Y node kn vn) ps node) \<in> {Null, Map}"
  using assms(2)
proof (induction ps arbitrary: node)
  case (Cons p ps)
  obtain kn vn where p: "p = (kn, vn)" by (cases p)
  have "y_kind Y (y_force_insert Y node kn vn) = Map" "y_pairs Y (y_force_insert Y node kn vn) = y_pairs Y node @ [p]"
    using assms(1) Cons.prems by (auto simp: yaml_ok_def p)
  with Cons.IH [of "y_force_insert Y node kn vn"] show ?case by (simp add: p)
qed simp

lemma pairs_of_null:
  "yaml_ok Y \<Longrightarrow> y_pairs Y (fold (\<lambda>(kn, vn) node. y_force_insert Y node kn vn) ps (y_null Y)) = ps \<and>
    y_kind Y (fold (\<lambda>(kn, vn) node. y_force_insert Y node kn vn) ps (y_null Y)) \<in> {Null, Map}"
  using pairs_fold_insert [of Y "y_null Y" ps] by (auto simp: yaml_ok_def)

lemma fold_pair_map:
  "fold (\<lambda>(k, v) node. g node (f k) (h v)) kvs z = fold (\<lambda>(a, b) node. g node a b) (map (\<lambda>(k, v). (f k, h v)) kvs) z"
  by (induction kvs arbitrary: z) auto

text \<open>A node that has the content of a map gives the same entries.\<close>

definition entry_good ::
  "('n, 'z) yaml_lib_scheme \<Rightarrow> (string \<Rightarrow> 'k exn) \<Rightarrow> (string \<Rightarrow> 'v exn) \<Rightarrow> 'n \<times> 'n \<Rightarrow> 'k \<times> 'v \<Rightarrow> bool" where
  "entry_good Y kFrom vFrom ns kv \<longleftrightarrow> y_kind Y (fst ns) = Scalar \<and> kFrom (y_text Y (fst ns)) = Inr (fst kv) \<and>
     gives Y vFrom (snd ns) (snd kv)"

lemma same_pairs:
  assumes "yaml_ok Y" "same_content Y m n" "y_kind Y n \<in> {Null, Map}"
    and "list_all2 (entry_good Y kFrom vFrom) (y_pairs Y n) kvs"
  shows "list_all2 (\<lambda>(kn, vn) (k, v). kFrom (y_text Y kn) = Inr k \<and> vFrom (y_emit Y vn) = Inr v) (y_pairs Y m) kvs"
  using assms(2)
proof (rule same_cases)
  assume "y_kind Y m = y_kind Y n" "y_kind Y n \<noteq> Sequence" "y_kind Y n \<noteq> Map"
  then have "y_pairs Y m = []" "y_pairs Y n = []" using assms(1,3) by (auto simp: yaml_ok_def)
  with assms(4) show ?thesis by simp
next
  assume *: "length (y_pairs Y m) = length (y_pairs Y n)"
    "\<And>i. i < length (y_pairs Y n) \<Longrightarrow> same_content Y (fst (y_pairs Y m ! i)) (fst (y_pairs Y n ! i))"
    "\<And>i. i < length (y_pairs Y n) \<Longrightarrow> same_content Y (snd (y_pairs Y m ! i)) (snd (y_pairs Y n ! i))"
  have "kFrom (y_text Y (fst (y_pairs Y m ! i))) = Inr (fst (kvs ! i)) \<and>
      vFrom (y_emit Y (snd (y_pairs Y m ! i))) = Inr (snd (kvs ! i))" if i: "i < length (y_pairs Y n)" for i
  proof -
    have "entry_good Y kFrom vFrom (y_pairs Y n ! i) (kvs ! i)" using assms(4) i by (simp add: list_all2_nthD)
    with same_text [OF *(2) [OF i]] *(3) [OF i] show ?thesis by (simp add: entry_good_def gives_def)
  qed
  with *(1) assms(4) show ?thesis by (auto simp: list_all2_conv_all_nth split: prod.split) (metis fst_conv snd_conv)+
qed (use assms(3) in simp_all)

text \<open>
  The entries \<open>kvs\<close> of a container, as the maps and the unordered maps build their node and read
  it back.
\<close>

lemma pairs_good:
  assumes "yaml_ok Y" "distinct (map fst kvs)" "map_of kvs = mp"
    and "\<forall>(k, v) \<in> set kvs. entry_good Y kFrom vFrom (knode k, vnode v) (k, v)"
    and "node = fold (\<lambda>(k, v) node. y_force_insert Y node (knode k) (vnode v)) kvs (y_null Y)" "node_stable Y node"
    and "toC mp = Inr (y_emit Y node)"
  shows "good_cast Y toC (collect_pairs Y kFrom vFrom) mp"
proof (rule container_good [where toC = toC and c = mp, OF assms(6,7)])
  fix s m
  assume m: "y_Load Y s = Inr m" "same_content Y m node"
  have node: "y_pairs Y node = map (\<lambda>(k, v). (knode k, vnode v)) kvs" "y_kind Y node \<in> {Null, Map}"
    using pairs_of_null [OF assms(1)] assms(5)
      fold_pair_map [of "\<lambda>node a b. y_force_insert Y node a b" knode vnode kvs "y_null Y"] by simp_all
  have "list_all2 (entry_good Y kFrom vFrom) (y_pairs Y node) kvs"
    unfolding node(1) list_all2_map1 using assms(4) by (intro list.rel_refl_strong) (auto split: prod.split)
  from collect_pairs_ok [OF m(1) same_pairs [OF assms(1) m(2) node(2) this]]
    fold_map_insert [OF assms(2), of Map.empty] assms(3)
  show "collect_pairs Y kFrom vFrom s = Inr mp" by simp
qed

lemma map_of_items: "finite (dom m) \<Longrightarrow> map_of (map_items m) = m"
  by (rule ext) (auto simp: map_items_def map_of_map_restrict restrict_map_def dom_def)

lemma distinct_items: "distinct (map fst (map_items m))"
  by (simp add: map_items_def comp_def)

lemma set_items: "finite (dom m) \<Longrightarrow> (k, v) \<in> set (map_items m) \<longleftrightarrow> m k = Some v"
  by (auto simp: map_items_def)

lemma map_node_fold:
  assumes "finite (dom mp)" "\<forall>v \<in> ran mp. good_cast Y vTo vFrom v"
  obtains vnode where "\<forall>v \<in> ran mp. gives Y vFrom (vnode v) v"
    and "map_node Y knode vTo mp =
      Inr (fold (\<lambda>(k, v) node. y_force_insert Y node (knode k) (vnode v)) (map_items mp) (y_null Y))"
proof -
  have "\<forall>v \<in> ran mp. \<exists>n s. vTo v = Inr s \<and> y_Load Y s = Inr n \<and> gives Y vFrom n v"
    using assms(2) by (fastforce simp: good_cast_def)
  from bchoice [OF this] obtain vnode where
    vnode: "\<forall>v \<in> ran mp. \<exists>s. vTo v = Inr s \<and> y_Load Y s = Inr (vnode v) \<and> gives Y vFrom (vnode v) v"
    by blast
  have "map_node Y knode vTo mp =
      Inr (fold (\<lambda>(k, v) node. y_force_insert Y node (knode k) (vnode v)) (map_items mp) (y_null Y))"
    unfolding map_node_def
  proof (rule foldE_ok)
    fix kv node
    assume kv: "kv \<in> set (map_items mp)"
    obtain k v where "kv = (k, v)" by (cases kv)
    moreover have "v \<in> ran mp" using kv calculation set_items [OF assms(1)] by (auto simp: ran_def)
    ultimately show "(case kv of (k, v) \<Rightarrow> \<lambda>node. bindE (vTo v) (\<lambda>s. bindE (y_Load Y s)
        (\<lambda>n. Inr (y_force_insert Y node (knode k) n)))) node =
      Inr ((case kv of (k, v) \<Rightarrow> \<lambda>node. y_force_insert Y node (knode k) (vnode v)) node)"
      using vnode by auto
  qed
  with that vnode show ?thesis by blast
qed

subsection \<open>A library to apply the properties to\<close>

text \<open>
  Nodes as trees. A map is shown in block or in flow style, what is inside another collection
  always in flow style, so that a node can come back in another style. \<open>Load\<close> knows the nodes of a list.
\<close>

datatype ynode = YNull | YScalar string | YSeq "ynode list" | YMap bool "(ynode \<times> ynode) list"

fun show_flow :: "ynode \<Rightarrow> string" where
  "show_flow YNull = ''~''"
| "show_flow (YScalar s) = s"
| "show_flow (YSeq ns) = ''['' @ concat (map (\<lambda>n. show_flow n @ '','') ns) @ '']''"
| "show_flow (YMap flow ps) = ''{'' @ concat (map (\<lambda>(k, v). show_flow k @ '':'' @ show_flow v @ '','') ps) @ ''}''"

definition show_node :: "ynode \<Rightarrow> string" where
  "show_node n =
     (case n of YMap False ps \<Rightarrow> concat (map (\<lambda>(k, v). show_flow k @ '': '' @ show_flow v @ [CHR 0x0A]) ps)
      | _ \<Rightarrow> show_flow n)"

definition sample_load :: "ynode list \<Rightarrow> string \<Rightarrow> ynode exn" where
  "sample_load known s = (case find (\<lambda>n. show_node n = s) (YSeq [] # known) of
     Some n \<Rightarrow> Inr n | None \<Rightarrow> Inl ''yaml-cpp: error'')"

definition sample_yaml :: "ynode list \<Rightarrow> ynode \<Rightarrow> ynode yaml_lib" where
  "sample_yaml known file =
     \<lparr>y_Load = sample_load known, y_LoadFile = (\<lambda>_. Inr file), y_emit = show_node, y_null = YNull,
      y_kind = (\<lambda>n. case n of YNull \<Rightarrow> Null | YScalar _ \<Rightarrow> Scalar | YSeq _ \<Rightarrow> Sequence | YMap _ _ \<Rightarrow> Map),
      y_push_back = (\<lambda>n x. case n of YSeq ns \<Rightarrow> YSeq (ns @ [x]) | _ \<Rightarrow> YSeq [x]),
      y_force_insert = (\<lambda>n k v. case n of YMap b ps \<Rightarrow> YMap b (ps @ [(k, v)]) | _ \<Rightarrow> YMap False [(k, v)]),
      y_size = (\<lambda>n. case n of YSeq ns \<Rightarrow> length ns | YMap _ ps \<Rightarrow> length ps | _ \<Rightarrow> 0),
      y_at = (\<lambda>n i. case n of YSeq ns \<Rightarrow> ns ! i | _ \<Rightarrow> YNull),
      y_pairs = (\<lambda>n. case n of YMap _ ps \<Rightarrow> ps | _ \<Rightarrow> []),
      y_text = (\<lambda>n. case n of YScalar s \<Rightarrow> s | _ \<Rightarrow> []),
      y_as_string = (\<lambda>n. case n of YScalar s \<Rightarrow> Inr s | _ \<Rightarrow> Inl ''bad conversion'')\<rparr>"

lemma sample_fields [simp]:
  "y_Load (sample_yaml known file) = sample_load known" "y_LoadFile (sample_yaml known file) name = Inr file"
  "y_as_string (sample_yaml known file) n = (case n of YScalar s \<Rightarrow> Inr s | _ \<Rightarrow> Inl ''bad conversion'')"
  "y_emit (sample_yaml known file) = show_node"
  "y_null (sample_yaml known file) = YNull"
  "y_kind (sample_yaml known file) n = (case n of YNull \<Rightarrow> Null | YScalar _ \<Rightarrow> Scalar | YSeq _ \<Rightarrow> Sequence | YMap _ _ \<Rightarrow> Map)"
  "y_push_back (sample_yaml known file) n x = (case n of YSeq ns \<Rightarrow> YSeq (ns @ [x]) | _ \<Rightarrow> YSeq [x])"
  "y_force_insert (sample_yaml known file) n k v = (case n of YMap b ps \<Rightarrow> YMap b (ps @ [(k, v)]) | _ \<Rightarrow> YMap False [(k, v)])"
  "y_size (sample_yaml known file) n = (case n of YSeq ns \<Rightarrow> length ns | YMap _ ps \<Rightarrow> length ps | _ \<Rightarrow> 0)"
  "y_at (sample_yaml known file) n i = (case n of YSeq ns \<Rightarrow> ns ! i | _ \<Rightarrow> YNull)"
  "y_pairs (sample_yaml known file) n = (case n of YMap _ ps \<Rightarrow> ps | _ \<Rightarrow> [])"
  "y_text (sample_yaml known file) n = (case n of YScalar s \<Rightarrow> s | _ \<Rightarrow> [])"
  by (simp_all add: sample_yaml_def)

lemma sample_yaml_ok: "yaml_ok (sample_yaml known file)"
  by (auto simp: yaml_ok_def sample_load_def show_node_def nth_append split: ynode.splits)

text \<open>The nodes with the content of a given one.\<close>

lemma same_scalar_iff: "same_content (sample_yaml known file) m (YScalar s) \<longleftrightarrow> m = YScalar s"
proof
  assume "same_content (sample_yaml known file) m (YScalar s)"
  then show "m = YScalar s" by (rule same_cases) (auto split: ynode.splits)
qed (rule same_leaf; simp)

lemma same_seq_iff:
  "same_content (sample_yaml known file) m (YSeq ns) \<longleftrightarrow>
     (\<exists>ms. m = YSeq ms \<and> list_all2 (same_content (sample_yaml known file)) ms ns)"
proof
  assume "same_content (sample_yaml known file) m (YSeq ns)"
  then show "\<exists>ms. m = YSeq ms \<and> list_all2 (same_content (sample_yaml known file)) ms ns"
    by (rule same_cases) (auto simp: list_all2_conv_all_nth split: ynode.splits)
qed (auto simp: list_all2_conv_all_nth intro: same_sequence)

lemma same_map_iff:
  "same_content (sample_yaml known file) m (YMap b ns) \<longleftrightarrow>
     (\<exists>c ms. m = YMap c ms \<and> list_all2 (rel_prod (same_content (sample_yaml known file)) (same_content (sample_yaml known file))) ms ns)"
proof
  assume "same_content (sample_yaml known file) m (YMap b ns)"
  then show "\<exists>c ms. m = YMap c ms \<and>
      list_all2 (rel_prod (same_content (sample_yaml known file)) (same_content (sample_yaml known file))) ms ns"
    by (rule same_cases) (auto simp: list_all2_conv_all_nth rel_prod_sel split: ynode.splits)
qed (auto simp: list_all2_conv_all_nth rel_prod_sel intro: same_content.same_map)

lemmas same_iffs = same_scalar_iff same_seq_iff same_map_iff list_all2_Cons2 rel_prod_sel

text \<open>The conversions of two numbers.\<close>

definition sample_to :: "nat \<Rightarrow> string exn" where
  "sample_to n = (if n = 3 then Inr ''3'' else if n = 5 then Inr ''5'' else Inl ''bad lexical cast'')"

definition sample_from :: "string \<Rightarrow> nat exn" where
  "sample_from s = (if s = ''3'' then Inr 3 else if s = ''5'' then Inr 5 else Inl ''bad lexical cast'')"

text \<open>The library knows two numbers, sequences of them, a map in both styles, and a sequence of maps.\<close>

definition sample_nodes :: "ynode list" where
  "sample_nodes =
     [YScalar ''3'', YScalar ''5'', YSeq [YScalar ''5'', YScalar ''3''], YSeq [YScalar ''3'', YScalar ''5''],
      YMap False [(YScalar ''3'', YScalar ''5'')], YMap True [(YScalar ''3'', YScalar ''5'')],
      YSeq [YMap True [(YScalar ''3'', YScalar ''5'')]]]"

abbreviation sample_lib :: "ynode yaml_lib" where
  "sample_lib \<equiv> sample_yaml sample_nodes YNull"

lemma sample_loads [simp]:
  "sample_load sample_nodes ''[]'' = Inr (YSeq [])"
  "sample_load sample_nodes ''3'' = Inr (YScalar ''3'')" "sample_load sample_nodes ''5'' = Inr (YScalar ''5'')"
  "sample_load sample_nodes ''[5,3,]'' = Inr (YSeq [YScalar ''5'', YScalar ''3''])"
  "sample_load sample_nodes ''[3,5,]'' = Inr (YSeq [YScalar ''3'', YScalar ''5''])"
  "sample_load sample_nodes ''{3:5,}'' = Inr (YMap True [(YScalar ''3'', YScalar ''5'')])"
  "sample_load sample_nodes (''3: 5'' @ [CHR 0x0A]) = Inr (YMap False [(YScalar ''3'', YScalar ''5'')])"
  "sample_load sample_nodes ''[{3:5,},]'' = Inr (YSeq [YMap True [(YScalar ''3'', YScalar ''5'')]])"
  by code_simp+

lemmas sample_loads_block = sample_loads(7) [simplified]

lemma sample_gives: "n \<in> {(''3'', 3), (''5'', 5)} \<Longrightarrow> gives sample_lib sample_from (YScalar (fst n)) (snd n)"
  by (auto simp: gives_def same_iffs show_node_def sample_from_def)

lemma sample_good: "n \<in> {3, 5} \<Longrightarrow> good_cast sample_lib sample_to sample_from n"
  using sample_gives by (fastforce simp: good_cast_def sample_to_def sample_from_def)

lemma sample_stable:
  "node_stable sample_lib (YSeq [YScalar ''5'', YScalar ''3''])" "node_stable sample_lib (YSeq [YScalar ''3'', YScalar ''5''])"
  "node_stable sample_lib (YMap b [(YScalar ''3'', YScalar ''5'')])"
  "node_stable sample_lib (YSeq [YMap b [(YScalar ''3'', YScalar ''5'')]])"
  by (auto simp: node_stable_def same_iffs show_node_def sample_loads_block ex_bool_eq split: bool.split)

lemma sample_sequences:
  "xs \<in> {[5, 3], [3, 5]} \<Longrightarrow> sequence_node sample_lib sample_to xs = Inr n \<Longrightarrow> node_stable sample_lib n"
  by (auto simp: sequence_node_def sample_to_def sample_stable)

subsection \<open>Properties\<close>

text \<open>
  C21: A vector, a list, a set or an unordered set whose elements survive the way to a string and
  back, in whatever style the library shows them, does so itself, provided that the library does
  with the sequence node the conversion builds what YAML promises: dumped and loaded, it keeps its
  content, if not its style. Elements can be containers again.
\<close>

theorem sequence_casts:
  assumes "yaml_ok Y" "\<forall>x \<in> set xs. good_cast Y toStr fromStr x" "set (it (set xs)) = set xs"
    and "\<forall>ys \<in> {xs, sorted_list_of_set (set xs), it (set xs)}. \<forall>n. sequence_node Y toStr ys = Inr n \<longrightarrow> node_stable Y n"
  shows "good_cast Y (vector_toString Y toStr) (vector_fromString Y fromStr) xs \<and>
    good_cast Y (list_toString Y toStr) (list_fromString Y fromStr) xs \<and>
    good_cast Y (set_toString Y toStr) (set_fromString Y fromStr) (set xs) \<and>
    good_cast Y (unordered_set_toString Y it toStr) (unordered_set_fromString Y fromStr) (set xs)"
proof (intro conjI)
  show "good_cast Y (vector_toString Y toStr) (vector_fromString Y fromStr) xs"
    by (rule sequence_good [OF assms(1,2), where add = "\<lambda>v vec. vec @ [v]" and ?c0.0 = "[]"])
      (use assms(4) in \<open>simp_all add: cast_defs fold_snoc\<close>)
  show "good_cast Y (list_toString Y toStr) (list_fromString Y fromStr) xs"
    by (rule sequence_good [OF assms(1,2), where add = "\<lambda>v vec. vec @ [v]" and ?c0.0 = "[]"])
      (use assms(4) in \<open>simp_all add: cast_defs fold_snoc\<close>)
  show "good_cast Y (set_toString Y toStr) (set_fromString Y fromStr) (set xs)"
    by (rule sequence_good [OF assms(1), where xs = "sorted_list_of_set (set xs)" and add = insert and ?c0.0 = "{}"])
      (use assms(2,4) in \<open>simp_all add: cast_defs fold_insert_set\<close>)
  show "good_cast Y (unordered_set_toString Y it toStr) (unordered_set_fromString Y fromStr) (set xs)"
    by (rule sequence_good [OF assms(1), where xs = "it (set xs)" and add = insert and ?c0.0 = "{}"])
      (use assms(2-4) in \<open>simp_all add: cast_defs fold_insert_set\<close>)
qed

theorem sequence_casts_witness:
  "good_cast sample_lib (vector_toString sample_lib sample_to) (vector_fromString sample_lib sample_from) [5, 3] \<and>
   good_cast sample_lib (set_toString sample_lib sample_to) (set_fromString sample_lib sample_from) {5, 3}"
proof -
  have s: "sorted_list_of_set {5, 3 :: nat} = [3, 5]" by code_simp
  have st: "\<forall>ys \<in> {[5, 3], sorted_list_of_set (set [5, 3]), sorted_list_of_set (set [5, 3])}.
      \<forall>n. sequence_node sample_lib sample_to ys = Inr n \<longrightarrow> node_stable sample_lib n"
    using sample_sequences [of "[5, 3]"] sample_sequences [of "[3, 5]"] by (simp add: s)
  have g: "\<forall>x \<in> set [5, 3]. good_cast sample_lib sample_to sample_from x" using sample_good by simp
  from sequence_casts [where it = sorted_list_of_set, OF sample_yaml_ok g _ st] show ?thesis by (simp add: insert_commute)
qed

text \<open>
  C22: A map whose keys the library shows as their strings, and whose values survive the way to a
  string and back, does so itself, and so does an unordered one whose values survive the way to a
  node and back, both provided that the library keeps the content of the map nodes that are built
  when it dumps and loads them. The values can be containers again, and so can a container of maps.
\<close>

theorem map_casts:
  assumes "yaml_ok Y" "finite (dom mp)" "\<forall>k \<in> dom mp. y_kind Y (knode k) = Scalar \<and> kFrom (y_text Y (knode k)) = Inr k"
    and "\<forall>v \<in> ran mp. good_cast Y vTo vFrom v \<and> gives Y vFrom (vnode v) v"
    and "\<forall>n. map_node Y knode vTo mp = Inr n \<longrightarrow> node_stable Y n"
    and "distinct (map fst (it mp))" "map_of (it mp) = mp" "node_stable Y (unordered_map_node Y it knode vnode mp)"
  shows "good_cast Y (map_toString Y knode vTo) (map_fromString Y kFrom vFrom) mp \<and>
    good_cast Y (unordered_map_toString Y it knode vnode) (unordered_map_fromString Y kFrom vFrom) mp"
proof
  from assms(4) have "\<forall>v \<in> ran mp. good_cast Y vTo vFrom v" by blast
  from map_node_fold [OF assms(2) this] obtain vn where vn: "\<forall>v \<in> ran mp. gives Y vFrom (vn v) v"
    "map_node Y knode vTo mp =
      Inr (fold (\<lambda>(k, v) node. y_force_insert Y node (knode k) (vn v)) (map_items mp) (y_null Y))" by blast
  have entries: "\<forall>(k, v) \<in> set kvs. entry_good Y kFrom vFrom (knode k, w v) (k, v)"
    if "\<And>k v. (k, v) \<in> set kvs \<Longrightarrow> mp k = Some v" "\<forall>v \<in> ran mp. gives Y vFrom (w v) v" for kvs w
    using assms(3) that by (fastforce simp: entry_good_def intro: ranI)
  show "good_cast Y (map_toString Y knode vTo) (map_fromString Y kFrom vFrom) mp"
    unfolding map_fromString_def
    by (rule pairs_good [OF assms(1) distinct_items map_of_items [OF assms(2)] entries [where w = vn] refl])
      (use vn assms(5) set_items [OF assms(2)] in \<open>auto simp: cast_defs shown_def\<close>)
  show "good_cast Y (unordered_map_toString Y it knode vnode) (unordered_map_fromString Y kFrom vFrom) mp"
    unfolding unordered_map_fromString_def
    by (rule pairs_good [OF assms(1,6,7) entries [where w = vnode] unordered_map_node_def assms(8)])
      (use assms(4,6,7) map_of_is_SomeI in \<open>fastforce simp: cast_defs shown_def\<close>)+
qed

text \<open>A vector of maps: the map is built in block style, and read back from flow style.\<close>

theorem map_casts_witness:
  "good_cast sample_lib (map_toString sample_lib (\<lambda>_. YScalar ''3'') sample_to)
     (map_fromString sample_lib sample_from sample_from) [3 \<mapsto> 5] \<and>
   good_cast sample_lib (vector_toString sample_lib (map_toString sample_lib (\<lambda>_. YScalar ''3'') sample_to))
     (vector_fromString sample_lib (map_fromString sample_lib sample_from sample_from)) [[3 \<mapsto> 5]]"
proof -
  let ?mTo = "map_toString sample_lib (\<lambda>_ :: nat. YScalar ''3'') sample_to"
  let ?mFrom = "map_fromString sample_lib sample_from sample_from"
  let ?mp = "[3 :: nat \<mapsto> 5 :: nat]" and ?node = "YMap False [(YScalar ''3'', YScalar ''5'')]"
  let ?it = "\<lambda>_ :: nat \<rightharpoonup> nat. [(3 :: nat, 5 :: nat)]"
  have n: "map_node sample_lib (\<lambda>_. YScalar ''3'') sample_to ?mp = Inr ?node"
    by (simp add: map_node_def map_items_def sample_to_def)
  have "\<forall>k \<in> dom ?mp. y_kind sample_lib (YScalar ''3'') = Scalar \<and> sample_from (y_text sample_lib (YScalar ''3'')) = Inr k"
    by (simp add: sample_from_def)
  moreover have "\<forall>v \<in> ran ?mp. good_cast sample_lib sample_to sample_from v \<and> gives sample_lib sample_from (YScalar ''5'') v"
    using sample_good [of 5] sample_gives [of "(''5'', 5)"] by (auto simp: ran_def split: if_splits)
  moreover have "node_stable sample_lib (unordered_map_node sample_lib ?it (\<lambda>_. YScalar ''3'') (\<lambda>_. YScalar ''5'') ?mp)"
    by (simp add: unordered_map_node_def sample_stable)
  ultimately have map: "good_cast sample_lib ?mTo ?mFrom ?mp"
    using map_casts [where Y = sample_lib and mp = ?mp and it = ?it and knode = "\<lambda>_. YScalar ''3''" and
        vnode = "\<lambda>_. YScalar ''5''" and vTo = sample_to and vFrom = sample_from and kFrom = sample_from,
        OF sample_yaml_ok] n sample_stable(3) [of False] by simp
  have "sequence_node sample_lib ?mTo [?mp] = Inr (YSeq [?node])"
    using sample_loads(7) by (simp add: sequence_node_def cast_defs n shown_def show_node_def sample_loads_block)
  then have "good_cast sample_lib (vector_toString sample_lib ?mTo) (vector_fromString sample_lib ?mFrom) [?mp]"
    by (intro sequence_good [where add = "\<lambda>v vec. vec @ [v]" and ?c0.0 = "[]" and xs = "[?mp]"
          and toStr = ?mTo and fromStr = ?mFrom])
      (use sample_yaml_ok map sample_stable(4) in \<open>simp_all add: cast_defs\<close>)
  with map show ?thesis by blast
qed

end
