(* ===== verification/Config.thy ===== *)
theory Config
  imports LexCast "HOL-Library.List_Lexorder" "HOL-Library.Char_ord"
begin

text \<open>
  The configuration of \<open>config/config.h\<close> and \<open>config/config.cpp\<close>: configuration variables of any
  type with a callback for changes, their global registry, and loading values for them from a
  YAML file.
\<close>

subsection \<open>Configuration variables\<close>

text \<open>
  \<open>'v\<close> holds the values of all types. What a class \<open>ConfigVar<T>\<close> adds to its base class are the
  two conversions, found by the name of the type, \<open>typeid(T).name()\<close>; two values of the type
  \<open>'v\<close> are equal when \<open>operator==\<close> says so.
\<close>

record 'v config_type =
  FromStr :: "string \<Rightarrow> 'v exn"
  ToStr :: "'v \<Rightarrow> string exn"

type_synonym 'v config_types = "string \<Rightarrow> 'v config_type"

text \<open>A callback can throw; \<open>cv_calls\<close> are the arguments of the calls so far.\<close>

record 'v config_var =
  cv_name :: string
  cv_description :: string
  cv_type :: string
  cv_val :: 'v
  cv_cb :: "('v \<Rightarrow> 'v \<Rightarrow> unit exn) option"
  cv_calls :: "('v \<times> 'v) list"

definition ConfigVar_new :: "string \<Rightarrow> 'v \<Rightarrow> string \<Rightarrow> string \<Rightarrow> 'v config_var" where
  "ConfigVar_new T val name description =
     \<lparr>cv_name = name, cv_description = description, cv_type = T, cv_val = val, cv_cb = None, cv_calls = []\<rparr>"

definition ConfigVar_toString :: "'v config_types \<Rightarrow> 'v config_var \<Rightarrow> string" where
  "ConfigVar_toString tys p = (case ToStr (tys (cv_type p)) (cv_val p) of Inr s \<Rightarrow> s | Inl e \<Rightarrow> [])"

text \<open>The value is set under the lock, the callback is called behind it.\<close>

definition ConfigVar_setValue :: "'v \<Rightarrow> 'v config_var \<Rightarrow> 'v config_var \<times> unit exn" where
  "ConfigVar_setValue v p =
     (if v = cv_val p then (p, Inr ())
      else
        let oldVal = cv_val p; p1 = p\<lparr>cv_val := v\<rparr> in
        case cv_cb p of
          None \<Rightarrow> (p1, Inr ())
        | Some cb \<Rightarrow> (p1\<lparr>cv_calls := cv_calls p1 @ [(oldVal, v)]\<rparr>, cb oldVal v))"

text \<open>Every exception is caught, also one of the callback.\<close>

definition ConfigVar_fromString :: "'v config_types \<Rightarrow> string \<Rightarrow> 'v config_var \<Rightarrow> bool \<times> 'v config_var" where
  "ConfigVar_fromString tys str p =
     (case FromStr (tys (cv_type p)) str of
        Inl e \<Rightarrow> (False, p)
      | Inr v \<Rightarrow>
          (case ConfigVar_setValue v p of
             (p', Inr _) \<Rightarrow> (True, p')
           | (p', Inl e) \<Rightarrow> (False, p')))"

definition ConfigVar_getValue :: "'v config_var \<Rightarrow> 'v" where
  "ConfigVar_getValue p = cv_val p"

definition setOnChangeCallBack :: "('v \<Rightarrow> 'v \<Rightarrow> unit exn) \<Rightarrow> 'v config_var \<Rightarrow> 'v config_var" where
  "setOnChangeCallBack cb p = p\<lparr>cv_cb := Some cb\<rparr>"

definition delOnChangeCallBack :: "'v config_var \<Rightarrow> 'v config_var" where
  "delOnChangeCallBack p = p\<lparr>cv_cb := None\<rparr>"

subsection \<open>The registry\<close>

text \<open>Variables are shared through pointers: \<open>cf_store\<close> holds them, an address is an index into it.\<close>

record 'v config =
  cf_vars :: "string \<rightharpoonup> nat"
  cf_store :: "'v config_var list"

definition Config_init :: "'v config" where
  "Config_init = \<lparr>cf_vars = Map.empty, cf_store = []\<rparr>"

definition at_var :: "nat \<Rightarrow> ('v config_var \<Rightarrow> 'v config_var) \<Rightarrow> 'v config \<Rightarrow> 'v config" where
  "at_var a f c = c\<lparr>cf_store := (cf_store c)[a := f (cf_store c ! a)]\<rparr>"

definition Config_find :: "string \<Rightarrow> 'v config \<Rightarrow> nat option" where
  "Config_find name c = cf_vars c name"

text \<open>\<open>dynamic_pointer_cast\<close> to a variable of another type is null.\<close>

definition Config_lookup :: "string \<Rightarrow> string \<Rightarrow> 'v config \<Rightarrow> nat option" where
  "Config_lookup T name c =
     (case cf_vars c name of None \<Rightarrow> None
      | Some a \<Rightarrow> if cv_type (cf_store c ! a) = T then Some a else None)"

definition Config_lookup_default ::
  "string \<Rightarrow> string \<Rightarrow> 'v \<Rightarrow> string \<Rightarrow> 'v config \<Rightarrow> nat option \<times> 'v config" where
  "Config_lookup_default T name val description c =
     (case Config_lookup T name c of
        Some sp \<Rightarrow> (Some sp, c)
      | None \<Rightarrow>
          (case cf_vars c name of
             Some a \<Rightarrow> (None, c)
           | None \<Rightarrow>
               let sp = length (cf_store c) in
               (Some sp, c\<lparr>cf_store := cf_store c @ [ConfigVar_new T val name description],
                           cf_vars := (cf_vars c)(name \<mapsto> sp)\<rparr>)))"

text \<open>\<open>traverse\<close> calls its argument for every variable, in the order of the names.\<close>

definition Config_traverse :: "(nat \<Rightarrow> 'v config \<Rightarrow> 'v config) \<Rightarrow> 'v config \<Rightarrow> 'v config" where
  "Config_traverse f c = fold (\<lambda>name. f (the (cf_vars c name))) (sorted_list_of_set (dom (cf_vars c))) c"

subsection \<open>Loading\<close>

text \<open>
  A loop over a state whose steps may throw or may need more than the fuel there is (\<open>None\<close>).
\<close>

fun foldEO :: "('x \<Rightarrow> 's \<Rightarrow> 's exn option) \<Rightarrow> 'x list \<Rightarrow> 's \<Rightarrow> 's exn option" where
  "foldEO f [] s = Some (Inr s)"
| "foldEO f (x # xs) s = (case f x s of Some (Inr t) \<Rightarrow> foldEO f xs t | r \<Rightarrow> r)"

text \<open>\<open>listAllNodes\<close>, with fuel for the depth of the recursion.\<close>

fun listAllNodes ::
  "('n, 'z) yaml_lib_scheme \<Rightarrow> nat \<Rightarrow> string \<Rightarrow> 'n \<Rightarrow> (string \<times> 'n) list \<Rightarrow> (string \<times> 'n) list exn option" where
  "listAllNodes Y 0 name node allNodes = None"
| "listAllNodes Y (Suc fuel) name node allNodes =
     (let allNodes1 = allNodes @ [(name, node)] in
      if y_kind Y node = Map then
        foldEO (\<lambda>(k, v) ns.
          case (if name = [] then y_as_string Y k else Inr (name @ ''.'' @ y_text Y k)) of
            Inl e \<Rightarrow> Some (Inl e)
          | Inr name1 \<Rightarrow> listAllNodes Y fuel name1 v ns) (y_pairs Y node) allNodes1
      else Some (Inr allNodes1))"

definition load_node :: "('n, 'z) yaml_lib_scheme \<Rightarrow> 'v config_types \<Rightarrow> string \<times> 'n \<Rightarrow> 'v config \<Rightarrow> 'v config" where
  "load_node Y tys i c =
     (if fst i = [] then c
      else case Config_find (fst i) c of
        None \<Rightarrow> c
      | Some a \<Rightarrow> at_var a (\<lambda>p. snd (ConfigVar_fromString tys (y_emit Y (snd i)) p)) c)"

definition Config_loadFromYaml ::
  "('n, 'z) yaml_lib_scheme \<Rightarrow> 'v config_types \<Rightarrow> nat \<Rightarrow> string \<Rightarrow> 'v config \<Rightarrow> 'v config exn option" where
  "Config_loadFromYaml Y tys fuel filename c =
     (case y_LoadFile Y filename of
        Inl e \<Rightarrow> Some (Inl e)
      | Inr node \<Rightarrow>
          (case listAllNodes Y fuel [] node [] of
             None \<Rightarrow> None
           | Some (Inl e) \<Rightarrow> Some (Inl e)
           | Some (Inr allNodes) \<Rightarrow> Some (Inr (fold (load_node Y tys) allNodes c))))"

subsection \<open>Changes and callbacks\<close>

text \<open>The calls of a callback that lead from one value to another.\<close>

fun changes :: "'v \<Rightarrow> ('v \<times> 'v) list \<Rightarrow> 'v \<Rightarrow> bool" where
  "changes v [] w \<longleftrightarrow> v = w"
| "changes v ((old, new) # cs) w \<longleftrightarrow> old = v \<and> new \<noteq> old \<and> changes new cs w"

lemma changes_append: "changes u (cs @ ds) w \<longleftrightarrow> (\<exists>v. changes u cs v \<and> changes v ds w)"
  by (induction u cs w rule: changes.induct) auto

text \<open>What is done to a variable: it is set, or read from a string.\<close>

datatype 'v var_op = SetTo 'v | ReadFrom string

fun do_op :: "'v config_types \<Rightarrow> 'v var_op \<Rightarrow> 'v config_var \<Rightarrow> 'v config_var" where
  "do_op tys (SetTo v) p = fst (ConfigVar_setValue v p)"
| "do_op tys (ReadFrom s) p = snd (ConfigVar_fromString tys s p)"

lemma setValue_fields:
  "cv_type (fst (ConfigVar_setValue v p)) = cv_type p" "cv_name (fst (ConfigVar_setValue v p)) = cv_name p"
  "cv_cb (fst (ConfigVar_setValue v p)) = cv_cb p" "cv_val (fst (ConfigVar_setValue v p)) = v"
  by (auto simp: ConfigVar_setValue_def Let_def split: option.split)

lemma fromString_cases:
  "snd (ConfigVar_fromString tys s p) =
    (case FromStr (tys (cv_type p)) s of Inl e \<Rightarrow> p | Inr v \<Rightarrow> fst (ConfigVar_setValue v p))"
  by (auto simp: ConfigVar_fromString_def split: sum.split prod.split)

lemma fromString_fields:
  "cv_type (snd (ConfigVar_fromString tys s p)) = cv_type p"
  "cv_name (snd (ConfigVar_fromString tys s p)) = cv_name p"
  "cv_cb (snd (ConfigVar_fromString tys s p)) = cv_cb p"
  by (auto simp: fromString_cases setValue_fields split: sum.split)

lemma setValue_changes:
  assumes "cv_cb p = Some cb"
  shows "\<exists>cs. cv_calls (fst (ConfigVar_setValue v p)) = cv_calls p @ cs \<and> changes (cv_val p) cs v"
  using assms by (cases "v = cv_val p") (auto simp: ConfigVar_setValue_def Let_def)

lemma do_op_changes:
  assumes "cv_cb p = Some cb"
  shows "\<exists>cs. cv_calls (do_op tys x p) = cv_calls p @ cs \<and> changes (cv_val p) cs (cv_val (do_op tys x p)) \<and>
    cv_cb (do_op tys x p) = Some cb"
proof (cases x)
  case (SetTo v)
  with setValue_changes [OF assms] assms show ?thesis by (auto simp: setValue_fields)
next
  case (ReadFrom s)
  show ?thesis
  proof (cases "FromStr (tys (cv_type p)) s")
    case (Inr v)
    with ReadFrom setValue_changes [OF assms] assms show ?thesis by (auto simp: fromString_cases setValue_fields)
  qed (use ReadFrom assms in \<open>auto simp: fromString_cases\<close>)
qed

lemma do_ops_changes:
  assumes "cv_cb p = Some cb"
  shows "\<exists>cs. cv_calls (fold (do_op tys) xs p) = cv_calls p @ cs \<and>
    changes (cv_val p) cs (cv_val (fold (do_op tys) xs p))"
  using assms
proof (induction xs arbitrary: p)
  case (Cons x xs)
  from do_op_changes [OF Cons.prems] obtain cs where cs: "cv_calls (do_op tys x p) = cv_calls p @ cs"
    "changes (cv_val p) cs (cv_val (do_op tys x p))" "cv_cb (do_op tys x p) = Some cb" by blast
  from Cons.IH [OF cs(3)] obtain ds where
    "cv_calls (fold (do_op tys) xs (do_op tys x p)) = cv_calls (do_op tys x p) @ ds"
    "changes (cv_val (do_op tys x p)) ds (cv_val (fold (do_op tys) xs (do_op tys x p)))" by blast
  with cs show ?case by (intro exI [of _ "cs @ ds"]) (auto simp: changes_append)
qed simp

subsection \<open>Types\<close>

text \<open>
  \<open>has T v\<close>: \<open>v\<close> is a value of type \<open>T\<close>. A registry is well typed when every name leads to a
  variable of this name, two names to two variables, and every variable holds a value of its type.
\<close>

definition types_ok :: "'v config_types \<Rightarrow> (string \<Rightarrow> 'v \<Rightarrow> bool) \<Rightarrow> bool" where
  "types_ok tys has \<longleftrightarrow> (\<forall>T s v. FromStr (tys T) s = Inr v \<longrightarrow> has T v)"

definition config_ok :: "(string \<Rightarrow> 'v \<Rightarrow> bool) \<Rightarrow> 'v config \<Rightarrow> bool" where
  "config_ok has c \<longleftrightarrow>
     (\<forall>name a. cf_vars c name = Some a \<longrightarrow> a < length (cf_store c) \<and> cv_name (cf_store c ! a) = name) \<and>
     (\<forall>p \<in> set (cf_store c). has (cv_type p) (cv_val p))"

text \<open>What a client can do.\<close>

datatype 'v config_op =
    Lookup string string 'v string
  | Change nat "'v var_op"
  | Load string

fun config_do ::
  "('n, 'z) yaml_lib_scheme \<Rightarrow> 'v config_types \<Rightarrow> nat \<Rightarrow> 'v config_op \<Rightarrow> 'v config \<Rightarrow> 'v config exn option" where
  "config_do Y tys fuel (Lookup T name val description) c =
     Some (Inr (snd (Config_lookup_default T name val description c)))"
| "config_do Y tys fuel (Change a x) c = Some (Inr (at_var a (do_op tys x) c))"
| "config_do Y tys fuel (Load filename) c = Config_loadFromYaml Y tys fuel filename c"

text \<open>Values a client passes have the type of the variable.\<close>

fun op_ok :: "(string \<Rightarrow> 'v \<Rightarrow> bool) \<Rightarrow> 'v config_op \<Rightarrow> 'v config \<Rightarrow> bool" where
  "op_ok has (Lookup T name val description) c \<longleftrightarrow> has T val"
| "op_ok has (Change a (SetTo v)) c \<longleftrightarrow> a < length (cf_store c) \<and> has (cv_type (cf_store c ! a)) v"
| "op_ok has (Change a (ReadFrom s)) c \<longleftrightarrow> a < length (cf_store c)"
| "op_ok has (Load filename) c \<longleftrightarrow> True"

inductive config_run ::
  "('n, 'z) yaml_lib_scheme \<Rightarrow> 'v config_types \<Rightarrow> (string \<Rightarrow> 'v \<Rightarrow> bool) \<Rightarrow> 'v config \<Rightarrow> 'v config \<Rightarrow> bool"
  for Y tys has where
  none: "config_run Y tys has c c"
| more: "config_run Y tys has c c1 \<Longrightarrow> op_ok has x c1 \<Longrightarrow> config_do Y tys fuel x c1 = Some (Inr c2) \<Longrightarrow>
    config_run Y tys has c c2"

text \<open>\<open>extends c c'\<close>: every variable of \<open>c\<close> is still there, with its name and its type.\<close>

definition extends :: "'v config \<Rightarrow> 'v config \<Rightarrow> bool" where
  "extends c c' \<longleftrightarrow> length (cf_store c) \<le> length (cf_store c') \<and> cf_vars c \<subseteq>\<^sub>m cf_vars c' \<and>
     (\<forall>a < length (cf_store c). cv_name (cf_store c' ! a) = cv_name (cf_store c ! a) \<and>
        cv_type (cf_store c' ! a) = cv_type (cf_store c ! a))"

lemma extends_refl: "extends c c"
  by (simp add: extends_def)

lemma extends_trans: "extends a b \<Longrightarrow> extends b c \<Longrightarrow> extends a c"
  by (auto simp: extends_def intro: map_le_trans)

text \<open>A change of one variable that keeps its name and type.\<close>

lemma at_var_ok:
  assumes "config_ok has c" "a < length (cf_store c)"
    and "cv_name (f (cf_store c ! a)) = cv_name (cf_store c ! a)" "cv_type (f (cf_store c ! a)) = cv_type (cf_store c ! a)"
    and "has (cv_type (cf_store c ! a)) (cv_val (f (cf_store c ! a)))"
  shows "config_ok has (at_var a f c)" "extends c (at_var a f c)"
proof -
  show "config_ok has (at_var a f c)"
    using assms unfolding config_ok_def at_var_def
    by (auto simp: nth_list_update dest: set_update_subset_insert [THEN subsetD])
  show "extends c (at_var a f c)"
    using assms by (auto simp: extends_def at_var_def nth_list_update)
qed

lemma fromString_has:
  assumes "types_ok tys has" "has (cv_type p) (cv_val p)"
  shows "has (cv_type p) (cv_val (snd (ConfigVar_fromString tys s p)))"
  using assms by (auto simp: fromString_cases types_ok_def setValue_fields split: sum.split)

lemma do_op_ok:
  assumes "types_ok tys has" "has (cv_type p) (cv_val p)" "\<forall>v. x = SetTo v \<longrightarrow> has (cv_type p) v"
  shows "cv_name (do_op tys x p) = cv_name p" "cv_type (do_op tys x p) = cv_type p"
    "has (cv_type p) (cv_val (do_op tys x p))"
  using assms by (cases x; simp add: setValue_fields fromString_fields fromString_has)+

lemma load_node_ok:
  assumes "types_ok tys has" "config_ok has c"
  shows "config_ok has (load_node Y tys i c)" "extends c (load_node Y tys i c)"
proof -
  have "config_ok has (load_node Y tys i c) \<and> extends c (load_node Y tys i c)"
  proof (cases "fst i = [] \<or> Config_find (fst i) c = None")
    case False
    then obtain a where a: "fst i \<noteq> []" "cf_vars c (fst i) = Some a" by (auto simp: Config_find_def)
    have "a < length (cf_store c)" using assms(2) a(2) by (auto simp: config_ok_def)
    moreover have "has (cv_type (cf_store c ! a)) (cv_val (cf_store c ! a))"
      using assms(2) calculation by (auto simp: config_ok_def)
    ultimately show ?thesis
      using at_var_ok [OF assms(2), of a "\<lambda>p. snd (ConfigVar_fromString tys (y_emit Y (snd i)) p)"]
        fromString_has [OF assms(1)] a
      by (simp add: load_node_def Config_find_def fromString_fields)
  qed (use assms(2) in \<open>auto simp: load_node_def extends_refl\<close>)
  then show "config_ok has (load_node Y tys i c)" "extends c (load_node Y tys i c)" by blast+
qed

lemma load_nodes_ok:
  assumes "types_ok tys has"
  shows "config_ok has c \<Longrightarrow> config_ok has (fold (load_node Y tys) ns c) \<and> extends c (fold (load_node Y tys) ns c)"
proof (induction ns arbitrary: c)
  case (Cons i ns)
  note step = load_node_ok [OF assms Cons.prems, of Y i]
  from Cons.IH [OF step(1)] extends_trans [OF step(2)] show ?case by simp
qed (simp add: extends_refl)

lemma lookup_default_ok:
  assumes "config_ok has c" "has T val" "Config_lookup_default T name val description c = (r, c')"
  shows "config_ok has c'" "extends c c'"
    "r = Some a \<Longrightarrow> a < length (cf_store c') \<and> cv_type (cf_store c' ! a) = T \<and> cf_vars c' name = Some a"
proof -
  have "config_ok has c' \<and> extends c c' \<and>
    (\<forall>a. r = Some a \<longrightarrow> a < length (cf_store c') \<and> cv_type (cf_store c' ! a) = T \<and> cf_vars c' name = Some a)"
  proof (cases "cf_vars c name")
    case None
    with assms(3) have c': "r = Some (length (cf_store c))"
      "c' = c\<lparr>cf_store := cf_store c @ [ConfigVar_new T val name description],
              cf_vars := (cf_vars c)(name \<mapsto> length (cf_store c))\<rparr>"
      by (auto simp: Config_lookup_default_def Config_lookup_def Let_def)
    have "config_ok has c'" using assms(1,2) None
      by (auto simp: c' config_ok_def ConfigVar_new_def nth_append less_SucI)
    moreover have "extends c c'" using None by (auto simp: c' extends_def nth_append map_le_def)
    ultimately show ?thesis by (simp add: c' ConfigVar_new_def)
  next
    case (Some b)
    have "b < length (cf_store c)" using assms(1) Some by (auto simp: config_ok_def)
    with assms(1,3) Some show ?thesis
      by (auto simp: Config_lookup_default_def Config_lookup_def extends_refl split: if_splits)
  qed
  then show "config_ok has c'" "extends c c'"
    "r = Some a \<Longrightarrow> a < length (cf_store c') \<and> cv_type (cf_store c' ! a) = T \<and> cf_vars c' name = Some a"
    by blast+
qed

lemma config_do_ok:
  assumes "types_ok tys has" "config_ok has c" "op_ok has x c" "config_do Y tys fuel x c = Some (Inr c')"
  shows "config_ok has c' \<and> extends c c'"
proof (cases x)
  case (Lookup T name val description)
  with assms lookup_default_ok(1,2) [OF assms(2), of T val name description] show ?thesis
    by (cases "Config_lookup_default T name val description c") auto
next
  case (Change a y)
  from assms(3) Change have a: "a < length (cf_store c)" "\<forall>v. y = SetTo v \<longrightarrow> has (cv_type (cf_store c ! a)) v"
    by (cases y; simp)+
  have "has (cv_type (cf_store c ! a)) (cv_val (cf_store c ! a))"
    using assms(2) a(1) by (auto simp: config_ok_def)
  from at_var_ok [where f = "do_op tys y", OF assms(2) a(1) do_op_ok [OF assms(1) this a(2)]] assms(4) Change show ?thesis by auto
next
  case (Load filename)
  with assms(4) obtain ns where "c' = fold (load_node Y tys) ns c"
    by (auto simp: Config_loadFromYaml_def split: sum.splits option.splits)
  with load_nodes_ok [OF assms(1,2)] show ?thesis by blast
qed

lemma config_run_ok:
  "config_run Y tys has c c' \<Longrightarrow> types_ok tys has \<Longrightarrow> config_ok has c \<Longrightarrow> config_ok has c' \<and> extends c c'"
  by (induction rule: config_run.induct) (auto simp: extends_refl dest: config_do_ok intro: extends_trans)

lemma config_ok_init: "config_ok has Config_init"
  by (simp add: config_ok_def Config_init_def)

subsection \<open>What a file sets\<close>

text \<open>
  A document is \<open>tree_ok\<close> up to a depth when its maps nest no deeper and have strings that are not
  empty for keys. \<open>paths\<close> lists its nodes with the keys that lead to them.
\<close>

fun tree_ok :: "('n, 'z) yaml_lib_scheme \<Rightarrow> nat \<Rightarrow> 'n \<Rightarrow> bool" where
  "tree_ok Y 0 n \<longleftrightarrow> False"
| "tree_ok Y (Suc d) n \<longleftrightarrow> (y_kind Y n = Map \<longrightarrow>
     (\<forall>(k, v) \<in> set (y_pairs Y n). y_as_string Y k = Inr (y_text Y k) \<and> y_text Y k \<noteq> [] \<and> tree_ok Y d v))"

fun paths :: "('n, 'z) yaml_lib_scheme \<Rightarrow> nat \<Rightarrow> 'n \<Rightarrow> (string list \<times> 'n) list" where
  "paths Y 0 n = []"
| "paths Y (Suc d) n = ([], n) # (if y_kind Y n = Map
     then concat (map (\<lambda>(k, v). map (\<lambda>(ks, m). (y_text Y k # ks, m)) (paths Y d v)) (y_pairs Y n)) else [])"

text \<open>The name of a node is made of its keys, with dots between them.\<close>

fun dotted :: "string list \<Rightarrow> string" where
  "dotted [] = []"
| "dotted [k] = k"
| "dotted (k # l # ks) = k @ ''.'' @ dotted (l # ks)"

definition under :: "string \<Rightarrow> string list \<Rightarrow> string" where
  "under name ks = (if name = [] then dotted ks else if ks = [] then name else name @ ''.'' @ dotted ks)"

lemma under_simps: "under name [] = name" "under [] ks = dotted ks"
  by (simp_all add: under_def)

lemma under_step: "k \<noteq> [] \<Longrightarrow> under (if name = [] then k else name @ ''.'' @ k) ks = under name (k # ks)"
  by (cases ks) (auto simp: under_def)

lemma foldEO_append:
  "(\<And>x s. x \<in> set xs \<Longrightarrow> f x s = Some (Inr (s @ g x))) \<Longrightarrow> foldEO f xs s = Some (Inr (s @ concat (map g xs)))"
  by (induction xs arbitrary: s) simp_all

lemma listAllNodes_paths:
  "tree_ok Y d node \<Longrightarrow>
    listAllNodes Y d name node ns = Some (Inr (ns @ map (\<lambda>(ks, m). (under name ks, m)) (paths Y d node)))"
proof (induction d arbitrary: name node ns)
  case (Suc d)
  show ?case
  proof (cases "y_kind Y node = Map")
    case False
    then show ?thesis by (simp add: under_simps)
  next
    case True
    let ?f = "\<lambda>(k, v) ns.
          case (if name = [] then y_as_string Y k else Inr (name @ ''.'' @ y_text Y k)) of
            Inl e \<Rightarrow> Some (Inl e)
          | Inr name1 \<Rightarrow> listAllNodes Y d name1 v ns"
    let ?g = "\<lambda>(k, v). map (\<lambda>(ks, m). (under name (y_text Y k # ks), m)) (paths Y d v)"
    have "foldEO ?f (y_pairs Y node) (ns @ [(name, node)]) =
      Some (Inr ((ns @ [(name, node)]) @ concat (map ?g (y_pairs Y node))))"
    proof (rule foldEO_append)
      fix kv s
      assume kv: "kv \<in> set (y_pairs Y node)"
      obtain k v where k: "kv = (k, v)" by (cases kv)
      with kv True Suc.prems have "y_as_string Y k = Inr (y_text Y k)" "y_text Y k \<noteq> []" "tree_ok Y d v" by auto
      then show "?f kv s = Some (Inr (s @ ?g kv))"
        using Suc.IH [of v "if name = [] then y_text Y k else name @ ''.'' @ y_text Y k" s]
        by (simp add: k under_step split: if_splits)
    qed
    moreover have "map (\<lambda>(ks, m). (under name ks, m)) (paths Y (Suc d) node) = (name, node) # concat (map ?g (y_pairs Y node))"
      using True by (simp add: under_simps map_concat comp_def case_prod_unfold)
    ultimately show ?thesis using True by simp
  qed
qed simp

text \<open>Reading the nodes of one name, one after the other.\<close>

definition read_nodes :: "('n, 'z) yaml_lib_scheme \<Rightarrow> 'v config_types \<Rightarrow> 'n list \<Rightarrow> 'v config_var \<Rightarrow> 'v config_var" where
  "read_nodes Y tys ms p = fold (\<lambda>m. do_op tys (ReadFrom (y_emit Y m))) ms p"

lemma fold_load_var:
  assumes "config_ok has c" "types_ok tys has" "cf_vars c name = Some a" "name \<noteq> []"
  shows "cf_vars (fold (load_node Y tys) ns c) = cf_vars c \<and>
    cf_store (fold (load_node Y tys) ns c) ! a =
      read_nodes Y tys (map snd (filter (\<lambda>i. fst i = name) ns)) (cf_store c ! a)"
  using assms(1,3)
proof (induction ns arbitrary: c)
  case (Cons i ns)
  let ?c1 = "load_node Y tys i c"
  have a: "a < length (cf_store c)" "cv_name (cf_store c ! a) = name"
    using Cons.prems by (auto simp: config_ok_def)
  have other: "b \<noteq> a" if "cf_vars c (fst i) = Some b" "fst i \<noteq> name" for b
    using that Cons.prems(1) a(2) unfolding config_ok_def by metis
  have step: "cf_vars ?c1 = cf_vars c" "cf_store ?c1 ! a =
      (if fst i = name then do_op tys (ReadFrom (y_emit Y (snd i))) (cf_store c ! a) else cf_store c ! a)"
    using other Cons.prems(2) a(1) assms(4)
    by (auto simp: load_node_def Config_find_def at_var_def nth_list_update split: option.split)
  from Cons.IH [OF load_node_ok(1) [OF assms(2) Cons.prems(1), of Y i]] step Cons.prems(2) show ?case
    by (simp add: read_nodes_def)
qed (simp add: read_nodes_def)

lemma do_op_read_val:
  "FromStr (tys (cv_type p)) s = Inr v \<Longrightarrow> cv_val (do_op tys (ReadFrom s) p) = v"
  by (simp add: fromString_cases setValue_fields)

lemma read_nodes_type: "cv_type (read_nodes Y tys ms p) = cv_type p"
  by (induction ms arbitrary: p) (simp_all add: read_nodes_def fromString_fields)

text \<open>The nodes of a document with a given name.\<close>

definition nodes_named :: "('n, 'z) yaml_lib_scheme \<Rightarrow> nat \<Rightarrow> 'n \<Rightarrow> string \<Rightarrow> 'n list" where
  "nodes_named Y d root name = map snd (filter (\<lambda>(ks, m). dotted ks = name) (paths Y d root))"

lemma filter_paths:
  "map snd (filter (\<lambda>i. fst i = name) (map (\<lambda>(ks, m). (dotted ks, m)) xs)) = map snd (filter (\<lambda>(ks, m). dotted ks = name) xs)"
  by (induction xs) auto

lemma load_reads:
  assumes "config_ok has c" "types_ok tys has" "y_LoadFile Y filename = Inr root" "tree_ok Y d root"
    and "cf_vars c name = Some a" "name \<noteq> []"
  shows "\<exists>c'. Config_loadFromYaml Y tys d filename c = Some (Inr c') \<and> cf_vars c' = cf_vars c \<and>
    cf_store c' ! a = read_nodes Y tys (nodes_named Y d root name) (cf_store c ! a)"
proof -
  let ?ns = "map (\<lambda>(ks, m). (dotted ks, m)) (paths Y d root)"
  have "listAllNodes Y d [] root [] = Some (Inr ?ns)"
    using listAllNodes_paths [OF assms(4), of "[]" "[]"] by (simp add: under_simps)
  then have "Config_loadFromYaml Y tys d filename c = Some (Inr (fold (load_node Y tys) ?ns c))"
    by (simp add: Config_loadFromYaml_def assms(3))
  with fold_load_var [OF assms(1,2,5,6), of Y ?ns] show ?thesis
    unfolding nodes_named_def filter_paths by blast
qed

subsection \<open>Properties\<close>

text \<open>
  C16: The registry keeps its types. Whatever is looked up, set, read from strings and loaded from
  files, a variable found under a name and a type is found there for ever, at the same address, and
  always holds a value of this type; under another type nothing is found.
\<close>

theorem config_types_kept:
  assumes "types_ok tys has" "config_run Y tys has Config_init c" "Config_lookup T name c = Some a"
    and "config_run Y tys has c c'"
  shows "Config_lookup T name c' = Some a \<and> cv_name (cf_store c' ! a) = name \<and>
    has T (ConfigVar_getValue (cf_store c' ! a)) \<and> (\<forall>T'. T' \<noteq> T \<longrightarrow> Config_lookup T' name c' = None)"
proof -
  have c: "config_ok has c" using config_run_ok [OF assms(2,1) config_ok_init] by blast
  have c': "config_ok has c'" "extends c c'" using config_run_ok [OF assms(4,1) c] by blast+
  have a: "cf_vars c name = Some a" "cv_type (cf_store c ! a) = T"
    using assms(3) by (auto simp: Config_lookup_def split: option.splits if_splits)
  have len: "a < length (cf_store c)" using c a(1) by (auto simp: config_ok_def)
  have e: "cf_vars c' name = Some a" "cv_type (cf_store c' ! a) = T"
    using c'(2) a len by (auto simp: extends_def map_le_def dom_def)
  moreover have "a < length (cf_store c')" "cv_name (cf_store c' ! a) = name" "has T (cv_val (cf_store c' ! a))"
    using c'(1) e by (auto simp: config_ok_def)
  ultimately show ?thesis by (simp add: Config_lookup_def ConfigVar_getValue_def)
qed

definition sample_types :: "nat config_types" where
  "sample_types T = \<lparr>FromStr = sample_from, ToStr = sample_to\<rparr>"

definition sample_config :: "nat config" where
  "sample_config = snd (Config_lookup_default ''int'' ''a.b'' 3 ''a number'' Config_init)"

definition sample_file :: ynode where
  "sample_file = YMap False [(YScalar ''a'', YMap True [(YScalar ''b'', YScalar ''5'')])]"

abbreviation sample_disk :: "ynode yaml_lib" where
  "sample_disk \<equiv> sample_yaml [] sample_file"

definition small :: "string \<Rightarrow> nat \<Rightarrow> bool" where
  "small T v \<longleftrightarrow> v \<le> 5"

lemma sample_types_ok: "types_ok sample_types small"
  by (simp add: types_ok_def sample_types_def sample_from_def small_def)

lemma sample_config_eq:
  "sample_config = \<lparr>cf_vars = [''a.b'' \<mapsto> 0], cf_store = [ConfigVar_new ''int'' 3 ''a.b'' ''a number'']\<rparr>"
  by (simp add: sample_config_def Config_lookup_default_def Config_lookup_def Config_init_def Let_def)

lemma sample_config_run: "config_run Y sample_types small Config_init sample_config"
proof -
  have "op_ok small (Lookup ''int'' ''a.b'' 3 ''a number'') Config_init" by (simp add: small_def)
  moreover have "config_do Y sample_types 0 (Lookup ''int'' ''a.b'' 3 ''a number'') Config_init = Some (Inr sample_config)"
    by (simp add: sample_config_def)
  ultimately show ?thesis by (rule config_run.more [OF config_run.none])
qed

theorem config_types_kept_witness:
  "config_run sample_disk sample_types small sample_config (at_var 0 (do_op sample_types (SetTo 4)) sample_config) \<and>
   Config_lookup ''int'' ''a.b'' (at_var 0 (do_op sample_types (SetTo 4)) sample_config) = Some 0"
proof -
  let ?c' = "at_var 0 (do_op sample_types (SetTo 4)) sample_config"
  have "op_ok small (Change 0 (SetTo 4)) sample_config" by (simp add: small_def sample_config_eq)
  moreover have "config_do sample_disk sample_types 0 (Change 0 (SetTo 4)) sample_config = Some (Inr ?c')" by simp
  ultimately have run: "config_run sample_disk sample_types small sample_config ?c'"
    by (rule config_run.more [OF config_run.none])
  have "Config_lookup ''int'' ''a.b'' sample_config = Some 0"
    by (simp add: Config_lookup_def sample_config_eq ConfigVar_new_def)
  from config_types_kept [OF sample_types_ok sample_config_run this run] run show ?thesis by blast
qed

text \<open>
  C17: While a variable has a callback, the calls of it tell its history without a gap: each is for
  a change of the value, each starts from the value the one before ended with, the first from the
  value the variable had and the last ends with the value it has. Nothing is reported when the
  value does not change.
\<close>

theorem config_changes:
  assumes "cv_cb p = Some cb"
  shows "\<exists>cs. cv_calls (fold (do_op tys) xs p) = cv_calls p @ cs \<and>
    changes (ConfigVar_getValue p) cs (ConfigVar_getValue (fold (do_op tys) xs p))"
  using do_ops_changes [OF assms] by (simp add: ConfigVar_getValue_def)

theorem config_changes_witness:
  "let p = setOnChangeCallBack (\<lambda>_ _. Inl ''no'') (ConfigVar_new ''int'' (3 :: nat) ''a'' []);
       q = fold (do_op sample_types) [SetTo 4, SetTo 4, ReadFrom ''x'', ReadFrom ''5''] p
   in cv_calls q = [(3, 4), (4, 5)] \<and> changes 3 (cv_calls q) (ConfigVar_getValue q)"
proof -
  let ?p = "setOnChangeCallBack (\<lambda>_ _. Inl ''no'') (ConfigVar_new ''int'' (3 :: nat) ''a'' [])"
  have "cv_cb ?p = Some (\<lambda>_ _. Inl ''no'')" by (simp add: setOnChangeCallBack_def)
  from config_changes [OF this, of sample_types "[SetTo 4, SetTo 4, ReadFrom ''x'', ReadFrom ''5'']"]
  show ?thesis
    by (simp add: Let_def setOnChangeCallBack_def ConfigVar_new_def ConfigVar_setValue_def ConfigVar_fromString_def
        sample_types_def sample_from_def ConfigVar_getValue_def)
qed

text \<open>
  C18: Loading a file adds no variable and gives each one, in the order of the file, the strings of
  the nodes whose keys, joined with dots, are its name. A variable the file does not name keeps its
  value; when the last node of its name can be converted, the variable holds its value.
\<close>

theorem config_load:
  assumes "config_ok has c" "types_ok tys has" "y_LoadFile Y filename = Inr root" "tree_ok Y d root"
    and "cf_vars c name = Some a" "name \<noteq> []"
  shows "\<exists>c'. Config_loadFromYaml Y tys d filename c = Some (Inr c') \<and> cf_vars c' = cf_vars c \<and>
    cf_store c' ! a = read_nodes Y tys (nodes_named Y d root name) (cf_store c ! a) \<and>
    (nodes_named Y d root name = [] \<longrightarrow> cf_store c' ! a = cf_store c ! a) \<and>
    (\<forall>ms m v. nodes_named Y d root name = ms @ [m] \<longrightarrow> FromStr (tys (cv_type (cf_store c ! a))) (y_emit Y m) = Inr v \<longrightarrow>
       ConfigVar_getValue (cf_store c' ! a) = v)"
proof -
  obtain c' where c': "Config_loadFromYaml Y tys d filename c = Some (Inr c')" "cf_vars c' = cf_vars c"
    "cf_store c' ! a = read_nodes Y tys (nodes_named Y d root name) (cf_store c ! a)"
    using load_reads [OF assms] by blast
  have "ConfigVar_getValue (cf_store c' ! a) = v"
    if "nodes_named Y d root name = ms @ [m]" "FromStr (tys (cv_type (cf_store c ! a))) (y_emit Y m) = Inr v" for ms m v
  proof -
    have "cf_store c' ! a = do_op tys (ReadFrom (y_emit Y m)) (read_nodes Y tys ms (cf_store c ! a))"
      by (simp add: c'(3) that(1) read_nodes_def)
    with do_op_read_val [of tys "read_nodes Y tys ms (cf_store c ! a)" "y_emit Y m" v] that(2) show ?thesis
      by (simp add: read_nodes_type ConfigVar_getValue_def)
  qed
  with c' show ?thesis by (auto simp: read_nodes_def)
qed

theorem config_load_witness:
  "\<exists>c'. Config_loadFromYaml sample_disk sample_types 3 ''config.yaml'' sample_config = Some (Inr c') \<and>
    ConfigVar_getValue (cf_store c' ! 0) = 5"
proof -
  have ok: "config_ok small sample_config"
    by (simp add: config_ok_def sample_config_eq ConfigVar_new_def small_def)
  have disk: "y_LoadFile sample_disk ''config.yaml'' = Inr sample_file" "tree_ok sample_disk 3 sample_file"
    "nodes_named sample_disk 3 sample_file ''a.b'' = [] @ [YScalar ''5'']"
    by (simp_all add: sample_file_def numeral_3_eq_3 nodes_named_def)
  have conv: "FromStr (sample_types (cv_type (cf_store sample_config ! 0))) (y_emit sample_disk (YScalar ''5'')) = Inr 5"
    by (simp add: sample_types_def sample_from_def show_node_def)
  have "cf_vars sample_config ''a.b'' = Some 0" by (simp add: sample_config_eq)
  from config_load [OF ok sample_types_ok disk(1,2) this] disk(3) conv show ?thesis by blast
qed

end
