(* ===== verification/ConfigThreads.thy ===== *)
theory ConfigThreads
  imports Config Mutex "HOL-Library.Multiset"
begin

text \<open>
  One configuration variable used by many threads: \<open>setValue\<close>, \<open>getValue\<close>, \<open>fromString\<close> and
  \<open>toString\<close> of \<open>config/config.h\<close>, cut where they lock, unlock, and go on behind the lock. The
  theory \<open>Config\<close> has the same operations as functions; a call that runs alone is one of those.
\<close>

subsection \<open>State and steps\<close>

datatype 'v var_call = SetValue 'v | FromString string | GetValue | ToString

datatype 'v var_result = NoResult | Threw string | Success bool | Value 'v | Shown string

text \<open>
  The value read, and the change made (\<open>None\<close> when the value stays the same), travel with the
  thread: they are local variables. In \<open>Back\<close> the call has returned.
\<close>

datatype 'v var_pc =
    NotIn
  | WantRead "'v var_call" | InRead "'v var_call" | ReadLeaves "'v var_call" 'v | HasRead "'v var_call" 'v
  | WantSet "'v var_call" 'v | InSet "'v var_call" 'v
  | SetLeaves "'v var_call" "('v \<times> 'v) option" | HasSet "'v var_call" "('v \<times> 'v) option"
  | Back "'v var_result"

record 'v var_state =
  vs_var :: "'v config_var"
  vs_lock :: mutex
  vs_pc :: "nat \<Rightarrow> 'v var_pc"

definition var_init :: "'v config_var \<Rightarrow> 'v var_state" where
  "var_init p = \<lparr>vs_var = p, vs_lock = None, vs_pc = (\<lambda>_. NotIn)\<rparr>"

datatype 'v var_event = Enter "'v var_call" | LockVar | Body | UnlockVar | Behind | Leave

definition moves :: "nat \<Rightarrow> 'v var_pc \<Rightarrow> 'v var_state \<Rightarrow> 'v var_state res option" where
  "moves t l s = Some (Inr (s\<lparr>vs_pc := (vs_pc s)(t := l)\<rparr>))"

text \<open>The section of \<open>setValue\<close> that the lock guards: the change it makes, and the variable after it.\<close>

definition set_section :: "'v \<Rightarrow> 'v config_var \<Rightarrow> ('v \<times> 'v) option \<times> 'v config_var" where
  "set_section v p = (if v = cv_val p then (None, p) else (Some (cv_val p, v), p\<lparr>cv_val := v\<rparr>))"

text \<open>What \<open>setValue\<close> does behind the lock: the exception of the callback, and the variable after it.\<close>

definition call_back :: "'v \<times> 'v \<Rightarrow> 'v config_var \<Rightarrow> unit exn \<times> 'v config_var" where
  "call_back c p =
     (case cv_cb p of None \<Rightarrow> (Inr (), p)
      | Some cb \<Rightarrow> (cb (fst c) (snd c), p\<lparr>cv_calls := cv_calls p @ [c]\<rparr>))"

text \<open>\<open>setValue\<close> passes an exception of its callback on, \<open>fromString\<close> catches it.\<close>

fun set_result :: "'v var_call \<Rightarrow> unit exn \<Rightarrow> 'v var_result" where
  "set_result (FromString str) r = Success (case r of Inl e \<Rightarrow> False | Inr _ \<Rightarrow> True)"
| "set_result _ r = (case r of Inl e \<Rightarrow> Threw e | Inr _ \<Rightarrow> NoResult)"

text \<open>Where a call goes on with the value it has read.\<close>

fun read_result :: "'v config_type \<Rightarrow> 'v var_call \<Rightarrow> 'v \<Rightarrow> 'v var_pc" where
  "read_result ty ToString v = Back (Shown (case ToStr ty v of Inl e \<Rightarrow> [] | Inr str \<Rightarrow> str))"
| "read_result ty (FromString str) v =
     (case FromStr ty str of Inl e \<Rightarrow> Back (Success False) | Inr w \<Rightarrow> WantSet (FromString str) w)"
| "read_result ty _ v = Back (Value v)"

fun var_step :: "'v config_types \<Rightarrow> nat \<Rightarrow> 'v var_event \<Rightarrow> 'v var_state \<Rightarrow> 'v var_state res option" where
  "var_step tys t (Enter c) s =
     (if vs_pc s t \<noteq> NotIn then None
      else moves t (case c of SetValue v \<Rightarrow> WantSet c v | _ \<Rightarrow> WantRead c) s)"
| "var_step tys t LockVar s =
     (case guard_acquire t (vs_lock s) of None \<Rightarrow> None
      | Some m \<Rightarrow> (case vs_pc s t of
          WantRead c \<Rightarrow> moves t (InRead c) (s\<lparr>vs_lock := m\<rparr>)
        | WantSet c v \<Rightarrow> moves t (InSet c v) (s\<lparr>vs_lock := m\<rparr>)
        | _ \<Rightarrow> None))"
| "var_step tys t Body s =
     (case vs_pc s t of
        InRead c \<Rightarrow> moves t (ReadLeaves c (cv_val (vs_var s))) s
      | InSet c v \<Rightarrow> (case set_section v (vs_var s) of (x, p) \<Rightarrow> moves t (SetLeaves c x) (s\<lparr>vs_var := p\<rparr>))
      | _ \<Rightarrow> None)"
| "var_step tys t UnlockVar s =
     (case vs_pc s t of
        ReadLeaves c v \<Rightarrow> bindO (Some (guard_release t (vs_lock s))) (\<lambda>m. moves t (HasRead c v) (s\<lparr>vs_lock := m\<rparr>))
      | SetLeaves c x \<Rightarrow> bindO (Some (guard_release t (vs_lock s))) (\<lambda>m. moves t (HasSet c x) (s\<lparr>vs_lock := m\<rparr>))
      | _ \<Rightarrow> None)"
| "var_step tys t Behind s =
     (case vs_pc s t of
        HasRead c v \<Rightarrow> moves t (read_result (tys (cv_type (vs_var s))) c v) s
      | HasSet c None \<Rightarrow> moves t (Back (set_result c (Inr ()))) s
      | HasSet c (Some x) \<Rightarrow>
          (case call_back x (vs_var s) of (r, p) \<Rightarrow> moves t (Back (set_result c r)) (s\<lparr>vs_var := p\<rparr>))
      | _ \<Rightarrow> None)"
| "var_step tys t Leave s = (case vs_pc s t of Back r \<Rightarrow> moves t NotIn s | _ \<Rightarrow> None)"

fun var_steps :: "'v config_types \<Rightarrow> (nat \<times> 'v var_event) list \<Rightarrow> 'v var_state \<Rightarrow> 'v var_state res option" where
  "var_steps tys [] s = Some (Inr s)"
| "var_steps tys ((t, e) # es) s = bindO (var_step tys t e s) (var_steps tys es)"

subsection \<open>A call that runs alone\<close>

text \<open>The variable after a call, and its result, by the operations of \<open>Config\<close>.\<close>

fun alone :: "'v config_types \<Rightarrow> 'v var_call \<Rightarrow> 'v config_var \<Rightarrow> 'v config_var \<times> 'v var_result" where
  "alone tys (SetValue v) p =
     (fst (ConfigVar_setValue v p), case snd (ConfigVar_setValue v p) of Inl e \<Rightarrow> Threw e | Inr _ \<Rightarrow> NoResult)"
| "alone tys (FromString str) p =
     (snd (ConfigVar_fromString tys str p), Success (fst (ConfigVar_fromString tys str p)))"
| "alone tys GetValue p = (p, Value (ConfigVar_getValue p))"
| "alone tys ToString p = (p, Shown (ConfigVar_toString tys p))"

lemma setValue_sections:
  "ConfigVar_setValue v p =
     (case set_section v p of
        (None, q) \<Rightarrow> (q, Inr ())
      | (Some c, q) \<Rightarrow> (case call_back c q of (r, q') \<Rightarrow> (q', r)))"
  by (simp add: ConfigVar_setValue_def set_section_def call_back_def Let_def split: option.splits)

definition section_events :: "nat \<Rightarrow> (nat \<times> 'v var_event) list" where
  "section_events t = [(t, LockVar), (t, Body), (t, UnlockVar), (t, Behind)]"

lemma var_steps_append: "var_steps tys (es @ fs) s = bindO (var_steps tys es s) (var_steps tys fs)"
proof (induction es arbitrary: s)
  case (Cons te es)
  obtain t e where te: "te = (t, e)" by (cases te)
  show ?case by (cases "var_step tys t e s" rule: option.exhaust)
    (auto simp: te Cons.IH bindO_def split: sum.split)
qed simp

text \<open>The two sections, each from its lock to what is behind it.\<close>

lemma set_alone:
  assumes "vs_pc s t = WantSet c v" "vs_lock s = None"
  shows "var_steps tys (section_events t) s =
    Some (Inr (s\<lparr>vs_var := fst (ConfigVar_setValue v (vs_var s)),
      vs_pc := (vs_pc s)(t := Back (set_result c (snd (ConfigVar_setValue v (vs_var s)))))\<rparr>))"
  using assms by (cases s)
    (simp add: section_events_def moves_def guard_defs setValue_sections split: option.split prod.split)

lemma read_alone:
  assumes "vs_pc s t = WantRead c" "vs_lock s = None"
  shows "var_steps tys (section_events t) s =
    Some (Inr (s\<lparr>vs_pc := (vs_pc s)(t := read_result (tys (cv_type (vs_var s))) c (cv_val (vs_var s)))\<rparr>))"
  using assms by (cases s) (simp add: section_events_def moves_def guard_defs)

lemma call_alone:
  assumes "vs_pc s t = NotIn" "vs_lock s = None"
  shows "\<exists>es. set es \<subseteq> set (section_events t) \<and> var_steps tys ((t, Enter c) # es) s =
    Some (Inr (s\<lparr>vs_var := fst (alone tys c (vs_var s)), vs_pc := (vs_pc s)(t := Back (snd (alone tys c (vs_var s))))\<rparr>))"
proof -
  let ?to = "\<lambda>l. s\<lparr>vs_pc := (vs_pc s)(t := l)\<rparr>"
  have enter: "var_step tys t (Enter c) s = Some (Inr (?to (case c of SetValue v \<Rightarrow> WantSet c v | _ \<Rightarrow> WantRead c)))"
    using assms(1) by (simp add: moves_def)
  have read: "var_steps tys (section_events t) (?to (WantRead c)) =
      Some (Inr (?to (read_result (tys (cv_type (vs_var s))) c (cv_val (vs_var s)))))"
    using read_alone [of "?to (WantRead c)" t c tys] assms(2) by simp
  have set1: "var_steps tys (section_events t) (?to (WantSet c v)) =
      Some (Inr (s\<lparr>vs_var := fst (ConfigVar_setValue v (vs_var s)),
        vs_pc := (vs_pc s)(t := Back (set_result c (snd (ConfigVar_setValue v (vs_var s)))))\<rparr>))" for v
    using set_alone [of "?to (WantSet c v)" t c v tys] assms(2) by (cases s) simp
  have same: "s\<lparr>vs_var := vs_var s, vs_pc := l\<rparr> = s\<lparr>vs_pc := l\<rparr>" for l by (cases s) simp
  show ?thesis
  proof (cases c)
    case (SetValue v)
    with enter set1 [of v] show ?thesis by (intro exI [of _ "section_events t"]) (simp split: sum.split)
  next
    case (FromString str)
    show ?thesis
    proof (cases "FromStr (tys (cv_type (vs_var s))) str")
      case (Inl e)
      with FromString enter read show ?thesis
        by (intro exI [of _ "section_events t"]) (simp add: ConfigVar_fromString_def same)
    next
      case (Inr w)
      with FromString enter read set1 [of w] show ?thesis
        by (intro exI [of _ "section_events t @ section_events t"])
          (simp add: ConfigVar_fromString_def var_steps_append split: prod.split sum.split)
    qed
  next
    case GetValue
    with enter read show ?thesis
      by (intro exI [of _ "section_events t"]) (simp add: ConfigVar_getValue_def same)
  next
    case ToString
    with enter read show ?thesis
      by (intro exI [of _ "section_events t"]) (simp add: ConfigVar_toString_def same split: sum.split)
  qed
qed

subsection \<open>Calls that run together\<close>

text \<open>
  What a run has done: the changes of the value with the thread that made each, and the calls of the
  callback with the thread that called.
\<close>

type_synonym 'v var_log = "(nat \<times> 'v \<times> 'v) list \<times> (nat \<times> 'v \<times> 'v) list"

fun var_trace :: "nat \<times> 'v var_event \<Rightarrow> 'v var_state \<Rightarrow> 'v var_log \<Rightarrow> 'v var_log" where
  "var_trace (t, Body) s (hist, calls) =
     (case vs_pc s t of
        InSet c v \<Rightarrow> (case fst (set_section v (vs_var s)) of None \<Rightarrow> (hist, calls) | Some x \<Rightarrow> (hist @ [(t, x)], calls))
      | _ \<Rightarrow> (hist, calls))"
| "var_trace (t, Behind) s (hist, calls) =
     (case vs_pc s t of HasSet c (Some x) \<Rightarrow> (hist, calls @ [(t, x)]) | _ \<Rightarrow> (hist, calls))"
| "var_trace (t, e) s (hist, calls) = (hist, calls)"

inductive var_run :: "'v config_types \<Rightarrow> 'v config_var \<Rightarrow> 'v var_log \<Rightarrow> 'v var_state \<Rightarrow> bool" for tys p where
  var_start: "var_run tys p ([], []) (var_init p)"
| var_next: "var_run tys p g s \<Longrightarrow> var_step tys t e s = Some (Inr s') \<Longrightarrow> var_run tys p (var_trace (t, e) s g) s'"

fun in_section :: "'v var_pc \<Rightarrow> bool" where
  "in_section (InRead c) \<longleftrightarrow> True" | "in_section (ReadLeaves c v) \<longleftrightarrow> True"
| "in_section (InSet c v) \<longleftrightarrow> True" | "in_section (SetLeaves c x) \<longleftrightarrow> True"
| "in_section _ \<longleftrightarrow> False"

text \<open>The change a thread has made and not yet reported, and the value it has read.\<close>

fun unreported :: "'v var_pc \<Rightarrow> ('v \<times> 'v) list" where
  "unreported (SetLeaves c (Some x)) = [x]"
| "unreported (HasSet c (Some x)) = [x]"
| "unreported _ = []"

fun value_read :: "'v var_pc \<Rightarrow> 'v set" where
  "value_read (ReadLeaves c v) = {v}"
| "value_read (HasRead c v) = {v}"
| "value_read (Back (Value v)) = {v}"
| "value_read _ = {}"

definition of_thread :: "nat \<Rightarrow> (nat \<times> 'a) list \<Rightarrow> 'a list" where
  "of_thread t xs = map snd (filter (\<lambda>x. fst x = t) xs)"

lemma of_thread_simps [simp]:
  "of_thread t [] = []" "of_thread t (xs @ ys) = of_thread t xs @ of_thread t ys"
  "of_thread t [(u, x)] = (if u = t then [x] else [])"
  by (simp_all add: of_thread_def)

text \<open>Sequences with the same elements for every thread are the same up to the order.\<close>

lemma mset_of_threads:
  assumes "\<And>t. of_thread t xs = of_thread t ys"
  shows "mset xs = mset ys"
proof (rule multiset_eqI)
  fix x :: "nat \<times> 'a"
  have "count (mset zs) x = count (mset (of_thread (fst x) zs)) (snd x)" for zs :: "(nat \<times> 'a) list"
    by (induction zs) (auto simp: of_thread_def)
  then show "count (mset xs) x = count (mset ys) x" using assms by simp
qed

definition values_of :: "'v config_var \<Rightarrow> (nat \<times> 'v \<times> 'v) list \<Rightarrow> 'v set" where
  "values_of p hist = insert (cv_val p) ((\<lambda>x. snd (snd x)) ` set hist)"

definition var_inv :: "'v config_var \<Rightarrow> 'v var_log \<Rightarrow> 'v var_state \<Rightarrow> bool" where
  "var_inv p g s \<longleftrightarrow> guarded in_section (vs_pc s) (vs_lock s) \<and> changes (cv_val p) (map snd (fst g)) (cv_val (vs_var s)) \<and>
     (\<forall>t. of_thread t (fst g) = of_thread t (snd g) @ unreported (vs_pc s t)) \<and>
     (\<forall>t. value_read (vs_pc s t) \<subseteq> values_of p (fst g)) \<and>
     vs_var s = p\<lparr>cv_val := cv_val (vs_var s),
       cv_calls := cv_calls p @ (if cv_cb p = None then [] else map snd (snd g))\<rparr>"

lemma var_invD:
  assumes "var_inv p g s"
  shows "guarded in_section (vs_pc s) (vs_lock s)" "changes (cv_val p) (map snd (fst g)) (cv_val (vs_var s))"
    "\<And>t. of_thread t (fst g) = of_thread t (snd g) @ unreported (vs_pc s t)"
    "\<And>t. value_read (vs_pc s t) \<subseteq> values_of p (fst g)"
    "vs_var s = p\<lparr>cv_val := cv_val (vs_var s), cv_calls := cv_calls p @ (if cv_cb p = None then [] else map snd (snd g))\<rparr>"
  using assms unfolding var_inv_def by blast+

text \<open>A step that changes neither the variable nor the log; a change; and a call of the callback.\<close>

lemma quiet_inv:
  assumes "var_inv p g s" "guarded in_section ((vs_pc s)(t := l)) m" "unreported l = unreported (vs_pc s t)"
    "value_read l \<subseteq> values_of p (fst g)"
  shows "var_inv p g (s\<lparr>vs_lock := m, vs_pc := (vs_pc s)(t := l)\<rparr>)"
  using var_invD [OF assms(1)] assms(2-4) unfolding var_inv_def by simp

lemma change_inv:
  assumes "var_inv p (h, k) s" "vs_pc s t = InSet c v" "v \<noteq> cv_val (vs_var s)"
  shows "var_inv p (h @ [(t, cv_val (vs_var s), v)], k)
    (s\<lparr>vs_var := (vs_var s)\<lparr>cv_val := v\<rparr>, vs_pc := (vs_pc s)(t := SetLeaves c (Some (cv_val (vs_var s), v)))\<rparr>)"
proof -
  note inv = var_invD [OF assms(1)]
  have "guarded in_section ((vs_pc s)(t := SetLeaves c (Some (cv_val (vs_var s), v)))) (vs_lock s)"
    using guarded_stay [OF inv(1)] assms(2) by simp
  moreover have "value_read (vs_pc s u) \<subseteq> values_of p (h @ [(t, cv_val (vs_var s), v)])" for u
    using inv(4) [of u] by (auto simp: values_of_def)
  moreover have "(vs_var s)\<lparr>cv_val := v\<rparr> = p\<lparr>cv_val := v, cv_calls := cv_calls p @ (if cv_cb p = None then [] else map snd k)\<rparr>"
    by (subst inv(5)) simp
  moreover have "changes (cv_val p) (map snd (h @ [(t, cv_val (vs_var s), v)])) v"
    using inv(2) assms(3) by (auto simp: changes_append)
  moreover have "of_thread u (h @ [(t, cv_val (vs_var s), v)]) =
      of_thread u k @ unreported (((vs_pc s)(t := SetLeaves c (Some (cv_val (vs_var s), v)))) u)" for u
    using inv(3) [of u] assms(2) by auto
  ultimately show ?thesis unfolding var_inv_def by simp
qed

lemma call_back_form:
  assumes "q = p\<lparr>cv_val := w, cv_calls := cv_calls p @ (if cv_cb p = None then [] else ks)\<rparr>"
  shows "snd (call_back x q) = p\<lparr>cv_val := w, cv_calls := cv_calls p @ (if cv_cb p = None then [] else ks @ [x])\<rparr>"
  by (cases "cv_cb p") (simp_all add: assms call_back_def)

lemma report_inv:
  assumes "var_inv p (h, k) s" "vs_pc s t = HasSet c (Some x)"
  shows "var_inv p (h, k @ [(t, x)])
    (s\<lparr>vs_var := snd (call_back x (vs_var s)), vs_pc := (vs_pc s)(t := Back (set_result c r))\<rparr>)"
proof -
  note inv = var_invD [OF assms(1)]
  have none: "value_read (Back (set_result c r)) = {}" "unreported (Back (set_result c r)) = []"
    by (cases c; cases r; simp)+
  have "guarded in_section ((vs_pc s)(t := Back (set_result c r))) (vs_lock s)"
    using guarded_stay [OF inv(1)] assms(2) by simp
  moreover have "of_thread u h = of_thread u (k @ [(t, x)]) @ unreported (((vs_pc s)(t := Back (set_result c r))) u)" for u
    using inv(3) [of u] assms(2) none by auto
  moreover have "cv_val (snd (call_back x (vs_var s))) = cv_val (vs_var s)"
    by (simp add: call_back_def split: option.split)
  moreover have "snd (call_back x (vs_var s)) = p\<lparr>cv_val := cv_val (vs_var s),
      cv_calls := cv_calls p @ (if cv_cb p = None then [] else map snd (k @ [(t, x)]))\<rparr>"
    using call_back_form [OF inv(5)] by simp
  ultimately show ?thesis using inv(2,4) none unfolding var_inv_def by simp
qed

lemma section_inv:
  assumes "var_inv p (h, k) s" "vs_pc s t = InSet c v" "set_section v (vs_var s) = (x, q)"
  shows "var_inv p (case x of None \<Rightarrow> (h, k) | Some y \<Rightarrow> (h @ [(t, y)], k))
    (s\<lparr>vs_var := q, vs_pc := (vs_pc s)(t := SetLeaves c x)\<rparr>)"
proof (cases "v = cv_val (vs_var s)")
  case True
  have "guarded in_section ((vs_pc s)(t := SetLeaves c None)) (vs_lock s)"
    using guarded_stay [OF var_invD(1) [OF assms(1)]] assms(2) by simp
  from quiet_inv [OF assms(1) this] True assms(2,3) show ?thesis by (cases s) (auto simp: set_section_def)
next
  case False
  with change_inv [OF assms(1,2) False] assms(3) show ?thesis by (auto simp: set_section_def)
qed

lemma lock_step:
  assumes "var_inv p g s" "var_step tys t LockVar s = Some r"
  shows "\<exists>s'. r = Inr s' \<and> var_inv p g s'"
proof -
  note inv = var_invD [OF assms(1)]
  obtain m where m: "guard_acquire t (vs_lock s) = Some m"
    using assms(2) by (cases "guard_acquire t (vs_lock s)") auto
  have enter: "in_section l \<Longrightarrow> guarded in_section ((vs_pc s)(t := l)) m" for l
    using guard.enter [OF inv(1) m] by simp
  show ?thesis
  proof (cases "vs_pc s t")
    case (WantRead c)
    with quiet_inv [OF assms(1) enter, of "InRead c"] m assms(2) show ?thesis by (auto simp: moves_def)
  next
    case (WantSet c v)
    with quiet_inv [OF assms(1) enter, of "InSet c v"] m assms(2) show ?thesis by (auto simp: moves_def)
  qed (use m assms(2) in auto)
qed

lemma unlock_step:
  assumes "var_inv p g s" "var_step tys t UnlockVar s = Some r"
  shows "\<exists>s'. r = Inr s' \<and> var_inv p g s'"
proof -
  note inv = var_invD [OF assms(1)]
  have leave: "\<exists>m. guard_release t (vs_lock s) = Inr m \<and> guarded in_section ((vs_pc s)(t := l)) m"
    if "in_section (vs_pc s t)" "\<not> in_section l" for l
    using guard.leave [OF inv(1) that] .
  show ?thesis
  proof (cases "vs_pc s t")
    case (ReadLeaves c v)
    with leave [of "HasRead c v"] obtain m where "guard_release t (vs_lock s) = Inr m"
      "guarded in_section ((vs_pc s)(t := HasRead c v)) m" by auto
    with quiet_inv [OF assms(1) this(2)] ReadLeaves inv(4) [of t] assms(2) show ?thesis by (auto simp: moves_def)
  next
    case (SetLeaves c x)
    with leave [of "HasSet c x"] obtain m where "guard_release t (vs_lock s) = Inr m"
      "guarded in_section ((vs_pc s)(t := HasSet c x)) m" by auto
    with quiet_inv [OF assms(1) this(2)] SetLeaves assms(2) show ?thesis by (cases x) (auto simp: moves_def)
  qed (use assms(2) in auto)
qed

lemma value_kept: "var_inv p g s \<Longrightarrow> cv_val (vs_var s) \<in> values_of p (fst g)"
proof -
  have "changes u cs w \<Longrightarrow> w \<in> insert u (snd ` set cs)" for u w and cs :: "('a \<times> 'a) list"
    by (induction u cs w rule: changes.induct) auto
  from this [OF var_invD(2)] show "var_inv p g s \<Longrightarrow> cv_val (vs_var s) \<in> values_of p (fst g)"
    by (simp add: values_of_def image_image)
qed

lemma body_step:
  assumes "var_inv p (h, k) s" "var_step tys t Body s = Some r"
  shows "\<exists>s'. r = Inr s' \<and> var_inv p (var_trace (t, Body) s (h, k)) s'"
proof (cases "vs_pc s t")
  case (InRead c)
  have "guarded in_section ((vs_pc s)(t := ReadLeaves c (cv_val (vs_var s)))) (vs_lock s)"
    using guarded_stay [OF var_invD(1) [OF assms(1)]] InRead by simp
  from quiet_inv [OF assms(1) this] value_kept [OF assms(1)] InRead assms(2) show ?thesis
    by (cases s) (auto simp: moves_def)
next
  case (InSet c v)
  obtain x q where xq: "set_section v (vs_var s) = (x, q)" by fastforce
  from section_inv [OF assms(1) InSet this] InSet xq assms(2) show ?thesis by (auto simp: moves_def)
qed (use assms(2) in auto)

lemma result_quiet:
  "unreported (read_result ty c v) = []" "value_read (read_result ty c v) \<subseteq> {v}" "\<not> in_section (read_result ty c v)"
  "unreported (Back (set_result c r)) = []" "value_read (Back (set_result c r)) = {}"
  by (cases c; simp split: sum.split)+

lemma behind_step:
  assumes "var_inv p (h, k) s" "var_step tys t Behind s = Some r"
  shows "\<exists>s'. r = Inr s' \<and> var_inv p (var_trace (t, Behind) s (h, k)) s'"
proof -
  note inv = var_invD [OF assms(1)]
  have stay: "guarded in_section ((vs_pc s)(t := l)) (vs_lock s)" if "\<not> in_section l" "\<not> in_section (vs_pc s t)" for l
    using guarded_stay [OF inv(1)] that by simp
  have quiet: "var_inv p (h, k) (s\<lparr>vs_pc := (vs_pc s)(t := l)\<rparr>)"
    if "\<not> in_section l" "\<not> in_section (vs_pc s t)" "unreported l = unreported (vs_pc s t)" "value_read l \<subseteq> values_of p h" for l
    using quiet_inv [OF assms(1) stay] that by (cases s) auto
  show ?thesis
  proof (cases "vs_pc s t")
    case (HasRead c v)
    have "value_read (read_result (tys (cv_type (vs_var s))) c v) \<subseteq> values_of p h"
      using inv(4) [of t] result_quiet(2) [of "tys (cv_type (vs_var s))" c v] HasRead by auto
    with quiet [of "read_result (tys (cv_type (vs_var s))) c v"] HasRead assms(2) show ?thesis
      by (auto simp: moves_def result_quiet)
  next
    case (HasSet c x)
    show ?thesis
    proof (cases x)
      case None
      with quiet [of "Back (set_result c (Inr ()))"] HasSet assms(2) show ?thesis by (auto simp: moves_def result_quiet)
    next
      case (Some y)
      with HasSet report_inv [OF assms(1), of t c y "fst (call_back y (vs_var s))"] assms(2) show ?thesis
        by (auto simp: moves_def split: prod.splits)
    qed
  qed (use assms(2) in auto)
qed

lemma var_step_inv:
  assumes "var_inv p g s" "var_step tys t e s = Some r"
  shows "\<exists>s'. r = Inr s' \<and> var_inv p (var_trace (t, e) s g) s'"
proof -
  obtain h k where g: "g = (h, k)" by (cases g)
  have quiet: "var_inv p g (s\<lparr>vs_pc := (vs_pc s)(t := l)\<rparr>)"
    if "\<not> in_section l" "\<not> in_section (vs_pc s t)" "unreported l = unreported (vs_pc s t)" "value_read l = {}" for l
    using quiet_inv [OF assms(1) guarded_stay [OF var_invD(1) [OF assms(1)]], of l t] that by (cases s) auto
  show ?thesis
  proof (cases e)
    case (Enter c)
    with quiet [of "case c of SetValue v \<Rightarrow> WantSet c v | _ \<Rightarrow> WantRead c"] assms(2) g show ?thesis
      by (cases c) (auto simp: moves_def split: if_splits)
  next
    case Leave
    then obtain q where "vs_pc s t = Back q" using assms(2) by (cases "vs_pc s t") auto
    with Leave quiet [of NotIn] assms(2) g show ?thesis by (auto simp: moves_def)
  qed (use assms g lock_step [OF assms(1), of tys t r] unlock_step [OF assms(1), of tys t r]
      body_step [of p h k s tys t r] behind_step [of p h k s tys t r] in \<open>simp_all del: var_step.simps\<close>)
qed

interpretation variable: safe_steps "\<lambda>(t, e). var_step tys t e" "var_inv p" var_trace "\<lambda>_ _. True"
  by unfold_locales (use var_step_inv in auto)

lemma var_run_inv: "var_run tys p g s \<Longrightarrow> var_inv p g s"
proof (induction rule: var_run.induct)
  case var_start
  show ?case by (simp add: var_inv_def var_init_def guarded_def)
next
  case (var_next g s t e s')
  from variable.step_keeps [OF var_next(3), of tys "(t, e)"] var_next(2) show ?case by simp
qed

text \<open>A thread inside a call can go on, or the one that holds the lock can.\<close>

lemma var_moves:
  assumes "var_inv p g s" "vs_pc s t \<noteq> NotIn"
  shows "\<exists>t' e r. (\<forall>c. e \<noteq> Enter c) \<and> var_step tys t' e s = Some r"
proof -
  have inside: "\<exists>e r. (\<forall>c. e \<noteq> Enter c) \<and> var_step tys u e s = Some r" if "in_section (vs_pc s u)" for u
  proof -
    have "(\<exists>r. var_step tys u Body s = Some r) \<or> (\<exists>r. var_step tys u UnlockVar s = Some r)"
      using that by (cases "vs_pc s u") (auto simp: moves_def bindO_def split: sum.split prod.split)
    then show ?thesis by blast
  qed
  have outside: "\<exists>e r. (\<forall>c. e \<noteq> Enter c) \<and> var_step tys t e s = Some r"
    if "\<not> in_section (vs_pc s t)" "\<exists>m. guard_acquire t (vs_lock s) = Some m"
  proof -
    have "(\<exists>r. var_step tys t LockVar s = Some r) \<or> (\<exists>r. var_step tys t Behind s = Some r) \<or>
        (\<exists>r. var_step tys t Leave s = Some r)"
    proof (cases "vs_pc s t")
      case (HasSet c x)
      then show ?thesis by (cases x) (auto simp: moves_def split: prod.split)
    qed (use that assms(2) in \<open>auto simp: moves_def split: prod.split\<close>)
    then show ?thesis by blast
  qed
  from guard.inside_or_free [OF var_invD(1) [OF assms(1)]] show ?thesis
  proof
    assume "\<exists>t. in_section (vs_pc s t)"
    with inside show ?thesis by blast
  next
    assume "\<forall>t. \<exists>m. guard_acquire t (vs_lock s) = Some m"
    with inside outside show ?thesis by (cases "in_section (vs_pc s t)") blast+
  qed
qed

lemma var_steps_run:
  "var_run tys p g s \<Longrightarrow> var_steps tys es s = Some (Inr s') \<Longrightarrow> \<exists>g'. var_run tys p g' s'"
proof (induction es arbitrary: g s)
  case (Cons te es)
  obtain t e where te: "te = (t, e)" by (cases te)
  with Cons.prems(2) obtain s1 where "var_step tys t e s = Some (Inr s1)" "var_steps tys es s1 = Some (Inr s')"
    by (auto simp: bindO_Inr)
  with Cons.IH var_next [OF Cons.prems(1)] show ?case by blast
qed auto

text \<open>Two threads set the variable one after the other, and report in the other order.\<close>

definition overtaking :: "'v \<Rightarrow> 'v \<Rightarrow> (nat \<times> 'v var_event) list" where
  "overtaking v w =
     [(0, Enter (SetValue v)), (0, LockVar), (0, Body), (0, UnlockVar),
      (1, Enter (SetValue w)), (1, LockVar), (1, Body), (1, UnlockVar), (1, Behind), (1, Leave),
      (0, Behind), (0, Leave)]"

lemma overtaken:
  assumes "cv_cb p = Some cb" "v \<noteq> cv_val p" "w \<noteq> v"
  shows "\<exists>s. var_steps tys (overtaking v w) (var_init p) = Some (Inr s) \<and> cv_val (vs_var s) = w \<and>
    cv_calls (vs_var s) = cv_calls p @ [(v, w), (cv_val p, v)] \<and> (\<forall>t. vs_pc s t = NotIn)"
  using assms
  by (simp add: overtaking_def var_init_def moves_def guard_defs set_section_def call_back_def split: option.split sum.split)

subsection \<open>Properties\<close>

text \<open>
  C10: Any number of threads may use a variable at the same time. No step faults, and a thread inside
  a call can go on unless another one inside can. In the order in which they are made the changes form a
  chain from the first value to the present one, every value that is read is one of the chain, and
  every thread reports its own changes to the callback in order, at most one of them outstanding; so
  when no call is going on the callback has been called exactly once for every change.
\<close>

theorem config_threads:
  assumes "var_run tys p (hist, calls) s" "cv_cb p = Some cb"
  shows "var_step tys t e s \<noteq> Some (Inl f) \<and>
    (vs_pc s t \<noteq> NotIn \<longrightarrow> (\<exists>t' e' r. (\<forall>c. e' \<noteq> Enter c) \<and> var_step tys t' e' s = Some r)) \<and>
    changes (cv_val p) (map snd hist) (cv_val (vs_var s)) \<and>
    cv_calls (vs_var s) = cv_calls p @ map snd calls \<and>
    (\<forall>v. vs_pc s t = Back (Value v) \<longrightarrow> v \<in> values_of p hist) \<and>
    of_thread t hist = of_thread t calls @ unreported (vs_pc s t) \<and>
    ((\<forall>t. vs_pc s t = NotIn) \<longrightarrow> mset (cv_calls (vs_var s)) = mset (cv_calls p) + mset (map snd hist))"
proof -
  note inv = var_run_inv [OF assms(1)]
  note D = var_invD [OF inv, simplified]
  have calls: "cv_calls (vs_var s) = cv_calls p @ map snd calls" by (subst D(5)) (simp add: assms(2))
  have "mset hist = mset calls" if quiet: "\<forall>t. vs_pc s t = NotIn"
    by (rule mset_of_threads) (use D(3) quiet in simp)
  then have "(\<forall>t. vs_pc s t = NotIn) \<longrightarrow> mset (cv_calls (vs_var s)) = mset (cv_calls p) + mset (map snd hist)"
    by (simp add: calls)
  moreover have "var_step tys t e s \<noteq> Some (Inl f)" using variable.no_fault [OF inv, of tys "(t, e)"] by simp
  moreover have "\<forall>v. vs_pc s t = Back (Value v) \<longrightarrow> v \<in> values_of p hist" using D(4) [of t] by auto
  ultimately show ?thesis using var_moves [OF inv] D(2) D(3) [of t] calls by blast
qed

text \<open>
  C20: A call of setValue, fromString, getValue or toString that is not disturbed has the effect and
  the result of the sequential operation; two calls of setValue that overlap can reach the callback
  in the other order, so that the last value it is told is not the value of the variable.
\<close>

theorem config_call_order:
  assumes "vs_pc s t = NotIn" "vs_lock s = None"
    and "cv_cb p = Some cb" "v \<noteq> cv_val p" "w \<noteq> v"
  shows "(\<exists>es s'. set es \<subseteq> set (section_events t) \<and> var_steps tys ((t, Enter c) # es) s = Some (Inr s') \<and>
      vs_var s' = fst (alone tys c (vs_var s)) \<and> vs_pc s' = (vs_pc s)(t := Back (snd (alone tys c (vs_var s)))) \<and>
      vs_lock s' = None) \<and>
    (\<exists>g s'. var_run tys p g s' \<and> (\<forall>t. vs_pc s' t = NotIn) \<and> cv_val (vs_var s') = w \<and>
      cv_calls (vs_var s') = cv_calls p @ [(v, w), (cv_val p, v)])"
proof -
  obtain es where "set es \<subseteq> set (section_events t)" "var_steps tys ((t, Enter c) # es) s =
    Some (Inr (s\<lparr>vs_var := fst (alone tys c (vs_var s)), vs_pc := (vs_pc s)(t := Back (snd (alone tys c (vs_var s))))\<rparr>))"
    using call_alone [OF assms(1,2), of tys c] by blast
  then have "\<exists>es s'. set es \<subseteq> set (section_events t) \<and> var_steps tys ((t, Enter c) # es) s = Some (Inr s') \<and>
      vs_var s' = fst (alone tys c (vs_var s)) \<and> vs_pc s' = (vs_pc s)(t := Back (snd (alone tys c (vs_var s)))) \<and>
      vs_lock s' = None" using assms(2) by (intro exI [of _ es]) (simp del: var_steps.simps)
  moreover obtain s' where s': "var_steps tys (overtaking v w) (var_init p) = Some (Inr s')" "cv_val (vs_var s') = w"
    "cv_calls (vs_var s') = cv_calls p @ [(v, w), (cv_val p, v)]" "\<forall>t. vs_pc s' t = NotIn"
    using overtaken [OF assms(3-5), of tys] by blast
  ultimately show ?thesis using var_steps_run [OF var_start s'(1)] by blast
qed

theorem config_threads_witness:
  "\<exists>hist calls s. let p = setOnChangeCallBack (\<lambda>_ _. Inr ()) (ConfigVar_new ''int'' (3 :: nat) ''a'' []) in
    var_run sample_types p (hist, calls) s \<and> vs_pc s 0 = NotIn \<and> cv_val (vs_var s) = 5 \<and>
    changes 3 (map snd hist) 5 \<and> mset (cv_calls (vs_var s)) = mset (map snd hist)"
proof -
  let ?p = "setOnChangeCallBack (\<lambda>_ _. Inr ()) (ConfigVar_new ''int'' (3 :: nat) ''a'' [])"
  have p: "cv_cb ?p = Some (\<lambda>_ _. Inr ())" "cv_val ?p = 3" "cv_calls ?p = []"
    by (simp_all add: setOnChangeCallBack_def ConfigVar_new_def)
  obtain s where s: "var_steps sample_types (overtaking 4 5) (var_init ?p) = Some (Inr s)" "cv_val (vs_var s) = 5"
    "\<forall>t. vs_pc s t = NotIn"
    using overtaken [OF p(1), of 4 5 sample_types] p(2) by auto
  obtain hist calls where run: "var_run sample_types ?p (hist, calls) s"
    using var_steps_run [OF var_start s(1)] by auto
  from config_threads [OF run p(1), of 0 Leave NullDeref] s(2,3) p(2,3) run show ?thesis
    by - (rule exI [of _ hist], rule exI [of _ calls], rule exI [of _ s], auto simp: Let_def)
qed

theorem config_call_order_witness:
  "\<exists>g s. let p = setOnChangeCallBack (\<lambda>_ _. Inl ''no'') (ConfigVar_new ''int'' (3 :: nat) ''a'' []) in
    var_run sample_types p g s \<and> cv_val (vs_var s) = 5 \<and> cv_calls (vs_var s) = [(4, 5), (3, 4)]"
proof -
  let ?p = "setOnChangeCallBack (\<lambda>_ _. Inl ''no'') (ConfigVar_new ''int'' (3 :: nat) ''a'' [])"
  have p: "cv_cb ?p = Some (\<lambda>_ _. Inl ''no'')" "cv_val ?p = 3" "cv_calls ?p = []"
    by (simp_all add: setOnChangeCallBack_def ConfigVar_new_def)
  have "vs_pc (var_init ?p) 0 = NotIn" "vs_lock (var_init ?p) = None" by (simp_all add: var_init_def)
  from config_call_order [OF this p(1), of 4 5 sample_types GetValue] p(2,3) show ?thesis
    by (auto simp: Let_def)
qed

end
