(* ===== verification/MessageQueue.thy ===== *)
theory MessageQueue
  imports Mutex
begin

text \<open>
  The message queue \<open>itc/mq.h\<close>. A call of the queue is cut where it takes the lock, where it waits
  and where it gives the lock back; the pieces of all threads interleave.
\<close>

subsection \<open>MQ\<close>

text \<open>Where a thread is in a call of the queue.\<close>

datatype 'a mq_pc =
    Idle
  | WantPush 'a | InPush 'a | Pushed      \<comment> \<open>waiting for the lock, holding it, about to return\<close>
  | WantPull | InPull | InWait | Pulled 'a
  | WantClear | InClear | Cleared

record 'a mq =
  mq_mutex :: mutex
  mq_cond :: condition
  mq_q :: "'a list"
  mq_pc :: "nat \<Rightarrow> 'a mq_pc"

definition MQ_new :: "'a mq" where
  "MQ_new = \<lparr>mq_mutex = None, mq_cond = {}, mq_q = [], mq_pc = (\<lambda>_. Idle)\<rparr>"

definition goto :: "nat \<Rightarrow> 'a mq_pc \<Rightarrow> 'a mq \<Rightarrow> 'a mq" where
  "goto t l s = s\<lparr>mq_pc := (mq_pc s)(t := l)\<rparr>"

text \<open>The bodies of the three operations, from the lock on.\<close>

definition MQ_push :: "nat \<Rightarrow> 'a \<Rightarrow> 'a mq \<Rightarrow> 'a mq" where
  "MQ_push t data s = goto t Pushed (s\<lparr>mq_q := mq_q s @ [data], mq_cond := Condition_wakeupAll (mq_cond s)\<rparr>)"

definition MQ_pull :: "nat \<Rightarrow> 'a mq \<Rightarrow> 'a mq res" where
  "MQ_pull t s =
     (case mq_q s of
        [] \<Rightarrow> bindR (Condition_wait t (mq_mutex s) (mq_cond s)) (\<lambda>(m, c).
                 Inr (goto t InWait (s\<lparr>mq_mutex := m, mq_cond := c\<rparr>)))
      | x # xs \<Rightarrow> Inr (goto t (Pulled x) (s\<lparr>mq_q := xs\<rparr>)))"

definition MQ_clear :: "nat \<Rightarrow> 'a mq \<Rightarrow> 'a mq" where
  "MQ_clear t s = goto t Cleared (s\<lparr>mq_q := []\<rparr>)"

datatype 'a mq_event =
    Push 'a | Pull | Clear   \<comment> \<open>a call\<close>
  | Lock                     \<comment> \<open>taking the lock, also on the way back from \<open>wait\<close>\<close>
  | Body                     \<comment> \<open>the body of the operation\<close>
  | Return                   \<comment> \<open>giving the lock back\<close>
  | Wake                     \<comment> \<open>\<open>wait\<close> ends though nothing was signalled\<close>

definition take_lock :: "nat \<Rightarrow> 'a mq_pc \<Rightarrow> 'a mq \<Rightarrow> 'a mq res option" where
  "take_lock t l s = (case guard_acquire t (mq_mutex s) of None \<Rightarrow> None
     | Some m \<Rightarrow> Some (Inr (goto t l (s\<lparr>mq_mutex := m\<rparr>))))"

definition give_lock :: "nat \<Rightarrow> 'a mq \<Rightarrow> 'a mq res" where
  "give_lock t s = bindR (guard_release t (mq_mutex s)) (\<lambda>m. Inr (goto t Idle (s\<lparr>mq_mutex := m\<rparr>)))"

text \<open>A step of a thread; \<open>None\<close>: it is not there, or has to wait.\<close>

fun mq_step :: "nat \<Rightarrow> 'a mq_event \<Rightarrow> 'a mq \<Rightarrow> 'a mq res option" where
  "mq_step t (Push x) s = (if mq_pc s t = Idle then Some (Inr (goto t (WantPush x) s)) else None)"
| "mq_step t Pull s = (if mq_pc s t = Idle then Some (Inr (goto t WantPull s)) else None)"
| "mq_step t Clear s = (if mq_pc s t = Idle then Some (Inr (goto t WantClear s)) else None)"
| "mq_step t Lock s =
     (case mq_pc s t of
        WantPush x \<Rightarrow> take_lock t (InPush x) s
      | WantPull \<Rightarrow> take_lock t InPull s
      | WantClear \<Rightarrow> take_lock t InClear s
      | InWait \<Rightarrow> if t \<in> mq_cond s then None else take_lock t InPull s
      | _ \<Rightarrow> None)"
| "mq_step t Body s =
     (case mq_pc s t of
        InPush x \<Rightarrow> Some (Inr (MQ_push t x s))
      | InPull \<Rightarrow> Some (MQ_pull t s)
      | InClear \<Rightarrow> Some (Inr (MQ_clear t s))
      | _ \<Rightarrow> None)"
| "mq_step t Return s =
     (case mq_pc s t of
        Pushed \<Rightarrow> Some (give_lock t s)
      | Pulled x \<Rightarrow> Some (give_lock t s)
      | Cleared \<Rightarrow> Some (give_lock t s)
      | _ \<Rightarrow> None)"
| "mq_step t Wake s = (if t \<in> mq_cond s then Some (Inr (s\<lparr>mq_cond := Condition_wakeup t (mq_cond s)\<rparr>)) else None)"

subsection \<open>Runs\<close>

text \<open>
  What a step puts into the queue and takes out of it; an element leaves with the thread that
  pulled it, or with none when it was cleared.
\<close>

fun put_in :: "nat \<Rightarrow> 'a mq_event \<Rightarrow> 'a mq \<Rightarrow> 'a list" where
  "put_in t Body s = (case mq_pc s t of InPush x \<Rightarrow> [x] | _ \<Rightarrow> [])"
| "put_in t e s = []"

fun taken_out :: "nat \<Rightarrow> 'a mq_event \<Rightarrow> 'a mq \<Rightarrow> (nat option \<times> 'a) list" where
  "taken_out t Body s =
     (case mq_pc s t of
        InPull \<Rightarrow> map (\<lambda>x. (Some t, x)) (take 1 (mq_q s))
      | InClear \<Rightarrow> map (\<lambda>x. (None, x)) (mq_q s)
      | _ \<Rightarrow> [])"
| "taken_out t e s = []"

inductive mq_run :: "'a mq \<Rightarrow> 'a list \<Rightarrow> (nat option \<times> 'a) list \<Rightarrow> bool" where
  new: "mq_run MQ_new [] []"
| run: "mq_run s ins outs \<Longrightarrow> mq_step t e s = Some (Inr s') \<Longrightarrow>
    mq_run s' (ins @ put_in t e s) (outs @ taken_out t e s)"

fun holds_lock :: "'a mq_pc \<Rightarrow> bool" where
  "holds_lock (InPush x) \<longleftrightarrow> True" | "holds_lock Pushed \<longleftrightarrow> True"
| "holds_lock InPull \<longleftrightarrow> True" | "holds_lock (Pulled x) \<longleftrightarrow> True"
| "holds_lock InClear \<longleftrightarrow> True" | "holds_lock Cleared \<longleftrightarrow> True"
| "holds_lock _ \<longleftrightarrow> False"

text \<open>
  The thread that holds the mutex is the only one in a critical section; only threads in \<open>pull\<close>
  wait, and only while the queue is empty.
\<close>

definition mq_inv :: "'a mq \<Rightarrow> bool" where
  "mq_inv s \<longleftrightarrow> guarded holds_lock (mq_pc s) (mq_mutex s) \<and>
     (\<forall>t \<in> mq_cond s. mq_pc s t = InWait) \<and> (mq_cond s \<noteq> {} \<longrightarrow> mq_q s = [])"

lemmas lock_defs = guard_defs Condition_wait_def Condition_wakeup_def Condition_wakeupAll_def take_lock_def give_lock_def

lemma goto_simps [simp]:
  "mq_mutex (goto t l s) = mq_mutex s" "mq_cond (goto t l s) = mq_cond s" "mq_q (goto t l s) = mq_q s"
  "mq_pc (goto t l s) t' = (if t' = t then l else mq_pc s t')"
  by (simp_all add: goto_def)

lemma mq_inv_new: "mq_inv MQ_new"
  by (simp add: mq_inv_def guarded_def MQ_new_def)

text \<open>A thread that calls an operation, or is woken, changes nothing the invariant is about.\<close>

lemma call_inv:
  assumes "mq_inv s" "mq_pc s t = Idle" "\<not> holds_lock l"
  shows "mq_inv (goto t l s)"
proof -
  have "mq_mutex s \<noteq> Some t" "t \<notin> mq_cond s" using assms(1,2) unfolding mq_inv_def guarded_def by force+
  with assms show ?thesis unfolding mq_inv_def guarded_def by auto
qed

lemma take_lock_inv:
  assumes "mq_inv s" "take_lock t l s = Some r" "holds_lock l" "t \<notin> mq_cond s"
  shows "\<exists>s'. r = Inr s' \<and> mq_inv s' \<and> mq_q s' = mq_q s"
proof -
  have m: "mq_mutex s = None" "r = Inr (goto t l (s\<lparr>mq_mutex := Some t\<rparr>))"
    using assms(2) by (auto simp: lock_defs split: if_splits)
  have "mq_inv (goto t l (s\<lparr>mq_mutex := Some t\<rparr>))"
    using assms(1,3,4) m(1) unfolding mq_inv_def guarded_def by auto
  with m(2) show ?thesis by simp
qed

lemma give_lock_inv:
  assumes "mq_inv s" "holds_lock (mq_pc s t)"
  shows "\<exists>s'. give_lock t s = Inr s' \<and> mq_inv s' \<and> mq_q s' = mq_q s"
proof -
  have m: "mq_mutex s = Some t" "t \<notin> mq_cond s" using assms unfolding mq_inv_def guarded_def by force+
  then have "give_lock t s = Inr (goto t Idle (s\<lparr>mq_mutex := None\<rparr>))" by (simp add: lock_defs)
  moreover have "mq_inv (goto t Idle (s\<lparr>mq_mutex := None\<rparr>))"
    using assms m unfolding mq_inv_def guarded_def by auto
  ultimately show ?thesis by simp
qed

lemma push_inv: "mq_inv s \<Longrightarrow> mq_pc s t = InPush x \<Longrightarrow> mq_inv (MQ_push t x s)"
  unfolding mq_inv_def guarded_def MQ_push_def by (auto simp: lock_defs)

lemma clear_inv: "mq_inv s \<Longrightarrow> mq_pc s t = InClear \<Longrightarrow> mq_inv (MQ_clear t s)"
  unfolding mq_inv_def guarded_def MQ_clear_def by auto

lemma pull_inv:
  assumes "mq_inv s" "mq_pc s t = InPull"
  shows "\<exists>s'. MQ_pull t s = Inr s' \<and> mq_inv s' \<and> mq_q s = map snd (taken_out t Body s) @ mq_q s'"
proof -
  have m: "mq_mutex s = Some t" using assms unfolding mq_inv_def guarded_def by force
  show ?thesis
  proof (cases "mq_q s")
    case Nil
    have "mq_inv (goto t InWait (s\<lparr>mq_mutex := None, mq_cond := insert t (mq_cond s)\<rparr>))"
      using assms m Nil unfolding mq_inv_def guarded_def by auto
    with Nil m assms(2) show ?thesis by (simp add: MQ_pull_def lock_defs)
  next
    case (Cons x xs)
    have "mq_inv (goto t (Pulled x) (s\<lparr>mq_q := xs\<rparr>))"
      using assms m Cons unfolding mq_inv_def guarded_def by auto
    with Cons assms(2) show ?thesis by (simp add: MQ_pull_def)
  qed
qed

lemma wake_inv: "mq_inv s \<Longrightarrow> mq_inv (s\<lparr>mq_cond := Condition_wakeup t (mq_cond s)\<rparr>)"
  unfolding mq_inv_def guarded_def by (auto simp: lock_defs)

text \<open>Every step keeps the invariant, faults never, and moves elements through the queue in order.\<close>

lemma mq_step_inv:
  assumes "mq_inv s" "mq_step t e s = Some r"
  shows "\<exists>s'. r = Inr s' \<and> mq_inv s' \<and> mq_q s @ put_in t e s = map snd (taken_out t e s) @ mq_q s'"
proof (cases e)
  case Lock
  have "t \<notin> mq_cond s" if "mq_pc s t \<noteq> InWait" using assms(1) that unfolding mq_inv_def guarded_def by blast
  then obtain l where "take_lock t l s = Some r" "holds_lock l" "t \<notin> mq_cond s"
    using assms(2) Lock by (cases "mq_pc s t") (auto split: if_splits)
  with take_lock_inv [OF assms(1)] Lock show ?thesis by fastforce
next
  case Body
  with assms(2) consider x where "mq_pc s t = InPush x" "r = Inr (MQ_push t x s)"
    | "mq_pc s t = InPull" "r = MQ_pull t s" | "mq_pc s t = InClear" "r = Inr (MQ_clear t s)"
    by (cases "mq_pc s t") auto
  then show ?thesis
  proof cases
    case 1
    with push_inv [OF assms(1)] Body show ?thesis by (simp add: MQ_push_def)
  next
    case 2
    with pull_inv [OF assms(1)] Body show ?thesis by auto
  next
    case 3
    with clear_inv [OF assms(1)] Body show ?thesis by (simp add: MQ_clear_def comp_def)
  qed
next
  case Return
  then have "holds_lock (mq_pc s t)" "r = give_lock t s" using assms(2) by (cases "mq_pc s t"; simp)+
  with give_lock_inv [OF assms(1)] Return show ?thesis by fastforce
next
  case Wake
  then have "r = Inr (s\<lparr>mq_cond := Condition_wakeup t (mq_cond s)\<rparr>)" using assms(2) by (auto split: if_splits)
  with wake_inv [OF assms(1)] Wake show ?thesis by simp
qed (use assms call_inv [OF assms(1), of t] in \<open>auto split: if_splits\<close>)

interpretation queue: safe_steps "\<lambda>(t, e). mq_step t e" "\<lambda>(ins, outs) s. mq_inv s \<and> ins = map snd outs @ mq_q s"
  "\<lambda>(t, e) s (ins, outs). (ins @ put_in t e s, outs @ taken_out t e s)" "\<lambda>_ _. True"
proof (unfold_locales, goal_cases)
  case (1 g s te r)
  obtain ins outs t e where g: "g = (ins, outs)" "te = (t, e)" by (metis surj_pair)
  with 1 mq_step_inv [of s t e r] show ?case by auto
qed

lemma mq_run_inv: "mq_run s ins outs \<Longrightarrow> mq_inv s \<and> ins = map snd outs @ mq_q s"
proof (induction rule: mq_run.induct)
  case new
  show ?case by (simp add: mq_inv_new) (simp add: MQ_new_def)
next
  case (run s ins outs t e s')
  then show ?case using queue.step_keeps [of "(ins, outs)" s "(t, e)" s'] by simp
qed

text \<open>A thread inside a critical section can go on, and one outside can enter when the mutex is free.\<close>

lemma holder_steps:
  assumes "holds_lock (mq_pc s t)"
  shows "mq_step t Body s \<noteq> None \<or> mq_step t Return s \<noteq> None"
  using assms by (cases "mq_pc s t") simp_all

lemma free_steps:
  assumes "mq_mutex s = None" "\<not> holds_lock (mq_pc s t)" "mq_pc s t \<noteq> Idle" "mq_pc s t = InWait \<longrightarrow> t \<notin> mq_cond s"
  shows "mq_step t Lock s \<noteq> None"
  using assms by (cases "mq_pc s t") (simp_all add: lock_defs)

text \<open>Several steps of several threads.\<close>

fun mq_steps :: "(nat \<times> 'a mq_event) list \<Rightarrow> 'a mq \<Rightarrow> ('a mq \<times> 'a list \<times> (nat option \<times> 'a) list) option" where
  "mq_steps [] s = Some (s, [], [])"
| "mq_steps ((t, e) # es) s =
     (case mq_step t e s of
        Some (Inr s') \<Rightarrow> (case mq_steps es s' of
            Some (u, ins, outs) \<Rightarrow> Some (u, put_in t e s @ ins, taken_out t e s @ outs) | None \<Rightarrow> None)
      | _ \<Rightarrow> None)"

lemma mq_steps_run:
  "mq_run s ins outs \<Longrightarrow> mq_steps es s = Some (u, ins', outs') \<Longrightarrow> mq_run u (ins @ ins') (outs @ outs')"
proof (induction es arbitrary: s ins outs ins' outs')
  case (Cons te es)
  obtain t e where te: "te = (t, e)" by (cases te)
  with Cons.prems(2) obtain s' i o' where s': "mq_step t e s = Some (Inr s')" "mq_steps es s' = Some (u, i, o')"
    "ins' = put_in t e s @ i" "outs' = taken_out t e s @ o'"
    by (auto split: option.splits sum.splits)
  from Cons.IH [OF mq_run.run [OF Cons.prems(1) s'(1)] s'(2)] s'(3,4) show ?case by simp
qed simp

text \<open>When no thread in a call can go on, all are outside or wait for an element that is not there.\<close>

lemma stuck_inv:
  assumes "mq_inv s" "\<forall>t. \<forall>e \<in> {Lock, Body, Return}. mq_step t e s = None"
  shows "(\<forall>t. mq_pc s t = Idle \<or> mq_pc s t = InWait \<and> t \<in> mq_cond s) \<and>
    ((\<exists>t. mq_pc s t = InWait) \<longrightarrow> mq_q s = [])"
proof -
  have out: "\<not> holds_lock (mq_pc s t)" for t using holder_steps [of s t] assms(2) by auto
  then have free: "mq_mutex s = None" using assms(1) unfolding mq_inv_def guarded_def by (cases "mq_mutex s") auto
  have pcs: "mq_pc s t = Idle \<or> mq_pc s t = InWait \<and> t \<in> mq_cond s" for t
    using free_steps [OF free out, of t] assms(2) by auto
  moreover have "mq_q s = []" if "mq_pc s t = InWait" for t
    using pcs [of t] that assms(1) unfolding mq_inv_def guarded_def by auto
  ultimately show ?thesis by blast
qed

subsection \<open>Properties\<close>

text \<open>
  C6: The message queue is a first-in first-out queue shared by any number of threads: at every
  moment what has been pushed is, in this order, what has been taken out (by the threads that
  pulled it, or by a clear) followed by what is in the queue. No step faults, and never are two
  threads in a critical section.
\<close>

theorem mq_fifo:
  assumes "mq_run s ins outs"
  shows "ins = map snd outs @ mq_q s \<and> mq_step t e s \<noteq> Some (Inl f) \<and>
    (holds_lock (mq_pc s t) \<and> holds_lock (mq_pc s t') \<longrightarrow> t = t')"
proof -
  have inv: "mq_inv s" "ins = map snd outs @ mq_q s" using mq_run_inv [OF assms] by blast+
  moreover have "t = t'" if "holds_lock (mq_pc s t)" "holds_lock (mq_pc s t')"
    using inv(1) that guarded_one unfolding mq_inv_def by blast
  ultimately show ?thesis using queue.no_fault [of "(ins, outs)" s "(t, e)" f] by simp
qed

text \<open>Thread 1 waits for an element, thread 0 pushes two, thread 1 takes the first.\<close>

definition sample_pulls :: "(nat \<times> nat mq_event) list" where
  "sample_pulls =
     [(1, Pull), (1, Lock), (1, Body), (0, Push 7), (0, Lock), (0, Body), (0, Return),
      (0, Push 8), (1, Lock), (1, Body), (1, Return), (0, Lock), (0, Body)]"

lemma sample_mq:
  "\<exists>s :: nat mq. mq_run s [7, 8] [(Some 1, 7)] \<and> mq_q s = [8] \<and> mq_pc s 0 = Pushed \<and> mq_mutex s = Some 0"
proof -
  have "\<exists>s :: nat mq. mq_steps sample_pulls MQ_new = Some (s, [7, 8], [(Some 1, 7)]) \<and> mq_q s = [8] \<and> mq_pc s 0 = Pushed \<and>
      mq_mutex s = Some 0"
    by (simp add: sample_pulls_def MQ_new_def MQ_push_def MQ_pull_def lock_defs)
  then obtain s :: "nat mq" where s: "mq_steps sample_pulls MQ_new = Some (s, [7, 8], [(Some 1, 7)])" "mq_q s = [8]"
    "mq_pc s 0 = Pushed" "mq_mutex s = Some 0" by blast
  with mq_steps_run [OF mq_run.new s(1)] show ?thesis by auto
qed

theorem mq_fifo_witness:
  "\<exists>s :: nat mq. mq_run s [7, 8] [(Some 1, 7)] \<and> [7, 8] = map snd [(Some (1 :: nat), 7)] @ mq_q s \<and>
    mq_step 1 Lock s \<noteq> Some (Inl NotOwner)"
proof -
  obtain s :: "nat mq" where s: "mq_run s [7, 8] [(Some 1, 7)]" using sample_mq by blast
  from mq_fifo [OF s, of 1 Lock NotOwner] s show ?thesis by (intro exI [of _ s]) simp
qed

text \<open>
  C7: No wakeup is lost and nothing locks up: when no thread inside a call can go on, every thread
  is outside or waits in pull, and if one waits there is nothing left in the queue, that is, all
  that was pushed has been taken out.
\<close>

theorem mq_never_stuck:
  assumes "mq_run s ins outs" "\<forall>t. \<forall>e \<in> {Lock, Body, Return}. mq_step t e s = None"
  shows "(\<forall>t. mq_pc s t = Idle \<or> mq_pc s t = InWait \<and> t \<in> mq_cond s) \<and>
    ((\<exists>t. mq_pc s t = InWait) \<longrightarrow> mq_q s = [] \<and> map snd outs = ins)"
  using stuck_inv [OF _ assms(2)] mq_run_inv [OF assms(1)] by auto

theorem mq_never_stuck_witness:
  "\<exists>s :: nat mq. mq_pc s 1 = InWait \<and> mq_q s = [] \<and>
    (\<forall>t. mq_pc s t = Idle \<or> mq_pc s t = InWait \<and> t \<in> mq_cond s)"
proof -
  have "\<exists>s :: nat mq. mq_steps [(1, Pull), (1, Lock), (1, Body)] MQ_new = Some (s, [], []) \<and>
      (\<forall>t. mq_pc s t = (if t = 1 then InWait else Idle)) \<and> mq_mutex s = None \<and> mq_cond s = {1}"
    by (simp add: MQ_new_def MQ_pull_def lock_defs)
  then obtain s :: "nat mq" where s: "mq_steps [(1, Pull), (1, Lock), (1, Body)] MQ_new = Some (s, [], [])"
    "\<forall>t. mq_pc s t = (if t = 1 then InWait else Idle)" "mq_mutex s = None" "mq_cond s = {1}" by blast
  have run: "mq_run s [] []" using mq_steps_run [OF mq_run.new s(1)] by simp
  have "\<forall>t. \<forall>e \<in> {Lock, Body, Return}. mq_step t e s = None" using s(2-4) by (auto simp: lock_defs)
  note stuck = mq_never_stuck [OF run this]
  have "mq_pc s 1 = InWait" using s(2) by simp
  with stuck show ?thesis by blast
qed

end
