(* ===== verification/Threads.thy ===== *)
theory Threads
  imports LogFormat
begin

text \<open>
  Threads: \<open>cct/sem\<close>, \<open>cct/currentThread\<close> and \<open>cct/thread\<close>. The constructors and the numbers of
  threads are functions; the life of one \<open>Thread\<close> object, from its construction to the end of the
  thread it starts, is a system of steps of the thread that owns the object and of the new one.
\<close>

subsection \<open>Semaphore and the number of the current thread\<close>

definition SEM_VALUE_MAX :: nat where
  "SEM_VALUE_MAX = 2 ^ 31 - 1"

text \<open>The value of the semaphore; \<open>None\<close>: \<open>sem_init\<close> refuses the value and the semaphore is unusable.\<close>

definition Semaphore_new :: "32 word \<Rightarrow> nat option" where
  "Semaphore_new val = (if unat val \<le> SEM_VALUE_MAX then Some (unat val) else None)"

text \<open>\<open>wait\<close> that a signal interrupts returns all the same; otherwise at zero it waits (\<open>None\<close>).\<close>

definition Semaphore_wait :: "bool \<Rightarrow> nat \<Rightarrow> nat option" where
  "Semaphore_wait interrupted n = (if interrupted then Some n else if 0 < n then Some (n - 1) else None)"

definition Semaphore_wakeup :: "nat \<Rightarrow> nat" where
  "Semaphore_wakeup n = (if n < SEM_VALUE_MAX then n + 1 else n)"

text \<open>\<open>gettid\<close> asks the system once; the result and the new value of \<open>tid_cache\<close>.\<close>

definition gettid :: "int \<Rightarrow> int \<Rightarrow> int \<times> int" where
  "gettid sys tid_cache = (let c = (if tid_cache = 0 then sys else tid_cache) in (c, c))"

lemma gettid_once: "sys \<noteq> 0 \<Longrightarrow> gettid sys' (snd (gettid sys 0)) = (sys, sys)"
  by (simp add: gettid_def Let_def)

subsection \<open>The object\<close>

text \<open>\<open>'r\<close> are the functions a thread can run; \<open>None\<close> is the empty \<open>std::function\<close>.\<close>

record 'r thread =
  th_started :: bool
  th_joined :: bool
  th_tid :: int
  th_name :: string
  th_routine :: "'r option"

text \<open>The counter is an atomic \<open>int\<close>, which wraps around.\<close>

definition setDefaultName :: "'r thread \<Rightarrow> int \<Rightarrow> 'r thread \<times> int" where
  "setDefaultName th threadNum =
     (if th_name th = [] then th\<lparr>th_name := ''thread#'' @ to_string threadNum\<rparr> else th, to_int32 (threadNum + 1))"

definition Thread_default :: "int \<Rightarrow> 'r thread \<times> int" where
  "Thread_default threadNum =
     setDefaultName \<lparr>th_started = False, th_joined = False, th_tid = 0, th_name = [], th_routine = None\<rparr> threadNum"

definition Thread_new :: "'r option \<Rightarrow> string \<Rightarrow> int \<Rightarrow> 'r thread \<times> int" where
  "Thread_new start_routine s threadNum =
     setDefaultName \<lparr>th_started = False, th_joined = False, th_tid = 0, th_name = s, th_routine = start_routine\<rparr> threadNum"

definition addThreadFunc :: "'r option \<Rightarrow> 'r thread \<Rightarrow> 'r thread" where
  "addThreadFunc start_routine th = th\<lparr>th_routine := start_routine\<rparr>"

text \<open>What \<open>start\<close> does to the object before the new thread is made.\<close>

definition Thread_start :: "'r thread \<Rightarrow> 'r thread res" where
  "Thread_start th = bindR (assertR (\<not> th_started th)) (\<lambda>_. Inr (th\<lparr>th_started := True\<rparr>))"

text \<open>\<open>join\<close>: \<open>None\<close> while the thread's routine has not ended.\<close>

definition Thread_join :: "bool \<Rightarrow> 'r thread \<Rightarrow> 'r thread res option" where
  "Thread_join ended th =
     (if \<not> th_started th \<or> th_joined th then Some (Inl AssertFailed)
      else if ended then Some (Inr (th\<lparr>th_joined := True\<rparr>)) else None)"

lemma new_thread:
  "\<not> th_started (fst (Thread_new f s c))" "\<not> th_joined (fst (Thread_new f s c))"
  "th_tid (fst (Thread_new f s c)) = 0" "th_routine (fst (Thread_new f s c)) = f"
  "\<not> th_started (fst (Thread_default c))" "\<not> th_joined (fst (Thread_default c))"
  "th_tid (fst (Thread_default c)) = 0" "th_routine (fst (Thread_default c)) = None"
  by (simp_all add: Thread_new_def Thread_default_def setDefaultName_def)

subsection \<open>The life of a thread\<close>

text \<open>
  \<open>start\<close> runs in the parent and \<open>startThread\<close> in the new thread, side by side: the parent waits
  for the semaphore, a member of the object, that the child posts first; then the child stores its
  number in the object. The child works on its own copy of the function, made by \<open>start\<close>.
\<close>

datatype parent_pc = Free | InSemWait
datatype child_pc = NoThread | AtWakeup | AtBeforeRoutine | AtRoutine | AtAfterRoutine | Ended

text \<open>\<open>lf_thread\<close>: the object, \<open>None\<close> once destroyed. \<open>lf_ran\<close>: the calls of the user's function that have ended.\<close>

record 'r life =
  lf_thread :: "'r thread option"
  lf_sem :: nat
  lf_parent :: parent_pc
  lf_child :: child_pc
  lf_data :: "'r option"
  lf_ran :: "'r list"

definition life_init :: "'r thread \<Rightarrow> 'r life" where
  "life_init th = \<lparr>lf_thread = Some th, lf_sem = 0, lf_parent = Free, lf_child = NoThread, lf_data = None, lf_ran = []\<rparr>"

definition the_thread :: "'r life \<Rightarrow> 'r thread res" where
  "the_thread s = (case lf_thread s of None \<Rightarrow> Inl UseAfterFree | Some th \<Rightarrow> Inr th)"

text \<open>
  What the parent does: set the function, start, get past the semaphore (interrupted or not), join,
  destroy the object; \<open>Child sys\<close> is the next step of the child, whose number is \<open>sys\<close>.
\<close>

datatype 'r life_event = AddFunc "'r option" | Start | SemWait bool | Join | Destroy | Child int

definition startThread :: "int \<Rightarrow> 'r life \<Rightarrow> 'r life res option" where
  "startThread sys s =
     (case lf_child s of
        AtWakeup \<Rightarrow> Some (bindR (the_thread s) (\<lambda>_.
          Inr (s\<lparr>lf_sem := Semaphore_wakeup (lf_sem s), lf_child := AtBeforeRoutine\<rparr>)))
      | AtBeforeRoutine \<Rightarrow> Some (bindR (the_thread s) (\<lambda>th.
          Inr (s\<lparr>lf_thread := Some (th\<lparr>th_tid := fst (gettid sys 0)\<rparr>), lf_child := AtRoutine\<rparr>)))
      | AtRoutine \<Rightarrow>
          Some (case lf_data s of None \<Rightarrow> Inl Uncaught
            | Some f \<Rightarrow> Inr (s\<lparr>lf_ran := lf_ran s @ [f], lf_child := AtAfterRoutine\<rparr>))
      | AtAfterRoutine \<Rightarrow> Some (Inr (s\<lparr>lf_data := None, lf_child := Ended\<rparr>))
      | _ \<Rightarrow> None)"

fun life_step :: "'r life_event \<Rightarrow> 'r life \<Rightarrow> 'r life res option" where
  "life_step (AddFunc f) s =
     (if lf_parent s \<noteq> Free then None
      else Some (bindR (the_thread s) (\<lambda>th. Inr (s\<lparr>lf_thread := Some (addThreadFunc f th)\<rparr>))))"
| "life_step Start s =
     (if lf_parent s \<noteq> Free then None
      else Some (bindR (the_thread s) (\<lambda>th. bindR (Thread_start th) (\<lambda>th'.
        Inr (s\<lparr>lf_thread := Some th', lf_data := th_routine th, lf_child := AtWakeup, lf_parent := InSemWait\<rparr>)))))"
| "life_step (SemWait i) s =
     (if lf_parent s \<noteq> InSemWait then None
      else case Semaphore_wait i (lf_sem s) of
        None \<Rightarrow> None | Some n \<Rightarrow> Some (Inr (s\<lparr>lf_sem := n, lf_parent := Free\<rparr>)))"
| "life_step Join s =
     (if lf_parent s \<noteq> Free then None
      else bindO (Some (the_thread s)) (\<lambda>th. bindO (Thread_join (lf_child s = Ended) th) (\<lambda>th'.
        Some (Inr (s\<lparr>lf_thread := Some th'\<rparr>)))))"
| "life_step Destroy s =
     (if lf_parent s \<noteq> Free then None
      else Some (bindR (the_thread s) (\<lambda>_. Inr (s\<lparr>lf_thread := None\<rparr>))))"
| "life_step (Child sys) s = startThread sys s"

fun life_steps :: "'r life_event list \<Rightarrow> 'r life \<Rightarrow> 'r life res option" where
  "life_steps [] s = Some (Inr s)"
| "life_steps (e # es) s = bindO (life_step e s) (life_steps es)"

subsection \<open>The rules of use and what they give\<close>

text \<open>
  A function is set before the start, an object is started once and joined once, and it lives until
  its thread is joined.
\<close>

fun life_obeys :: "'r life_event \<Rightarrow> 'r life \<Rightarrow> bool" where
  "life_obeys (AddFunc f) s \<longleftrightarrow> lf_thread s \<noteq> None"
| "life_obeys Start s \<longleftrightarrow> (\<exists>th. lf_thread s = Some th \<and> \<not> th_started th \<and> th_routine th \<noteq> None)"
| "life_obeys Join s \<longleftrightarrow> (\<exists>th. lf_thread s = Some th \<and> th_started th \<and> \<not> th_joined th)"
| "life_obeys Destroy s \<longleftrightarrow> (\<exists>th. lf_thread s = Some th \<and> (th_started th \<longrightarrow> th_joined th))"
| "life_obeys _ s \<longleftrightarrow> True"

text \<open>The function an object has when it is started, from the one it was made with.\<close>

fun start_func :: "'r option \<Rightarrow> 'r life_event list \<Rightarrow> 'r option" where
  "start_func f [] = f"
| "start_func f (AddFunc g # es) = start_func g es"
| "start_func f (Start # es) = f"
| "start_func f (_ # es) = start_func f es"

lemma start_func_snoc:
  "start_func f (es @ [e]) =
     (if Start \<in> set es then start_func f es else case e of AddFunc g \<Rightarrow> g | _ \<Rightarrow> start_func f es)"
  by (induction f es rule: start_func.induct; cases e) simp_all

inductive life_run :: "'r thread \<Rightarrow> int \<Rightarrow> 'r life_event list \<Rightarrow> 'r life \<Rightarrow> bool" for th sys where
  life_nil: "life_run th sys [] (life_init th)"
| life_snoc: "life_run th sys es s \<Longrightarrow> life_obeys e s \<Longrightarrow> \<forall>t. e = Child t \<longrightarrow> t = sys \<Longrightarrow>
    life_step e s = Some (Inr s') \<Longrightarrow> life_run th sys (es @ [e]) s'"

text \<open>The object, before and after the start.\<close>

definition object_inv :: "'r option \<Rightarrow> int \<Rightarrow> 'r life_event list \<Rightarrow> 'r life \<Rightarrow> bool" where
  "object_inv f sys es s \<longleftrightarrow>
     (case lf_thread s of
        None \<Rightarrow> lf_parent s = Free \<and> lf_child s \<in> {NoThread, Ended}
      | Some th \<Rightarrow> (th_started th \<longleftrightarrow> Start \<in> set es) \<and> (th_joined th \<longrightarrow> lf_child s = Ended) \<and>
          (Start \<notin> set es \<longrightarrow> th_routine th = start_func f es) \<and>
          (lf_child s \<in> {AtRoutine, AtAfterRoutine, Ended} \<longrightarrow> th_tid th = sys))"

text \<open>The new thread: it is there from the start on, and its copy of the function is run once.\<close>

definition child_inv :: "'r option \<Rightarrow> 'r life_event list \<Rightarrow> 'r life \<Rightarrow> bool" where
  "child_inv f es s \<longleftrightarrow>
     (lf_child s = NoThread \<longleftrightarrow> Start \<notin> set es) \<and> (Start \<in> set es \<longrightarrow> start_func f es \<noteq> None) \<and>
     (lf_child s \<in> {AtWakeup, AtBeforeRoutine, AtRoutine} \<longrightarrow> lf_data s = start_func f es) \<and>
     lf_ran s = (if lf_child s \<in> {AtAfterRoutine, Ended} then [the (start_func f es)] else [])"

text \<open>The semaphore keeps the parent until the child has posted it, unless a signal interrupts.\<close>

definition sem_inv :: "'r life_event list \<Rightarrow> 'r life \<Rightarrow> bool" where
  "sem_inv es s \<longleftrightarrow>
     (lf_child s \<in> {NoThread, AtWakeup} \<longrightarrow> lf_sem s = 0) \<and>
     (lf_child s = NoThread \<longrightarrow> lf_parent s = Free) \<and>
     (lf_parent s = InSemWait \<and> lf_child s \<noteq> AtWakeup \<longrightarrow> 0 < lf_sem s) \<and>
     (lf_parent s = Free \<and> SemWait True \<notin> set es \<longrightarrow> lf_child s \<noteq> AtWakeup)"

definition life_inv :: "'r option \<Rightarrow> int \<Rightarrow> 'r life_event list \<Rightarrow> 'r life \<Rightarrow> bool" where
  "life_inv f sys es s \<longleftrightarrow> object_inv f sys es s \<and> child_inv f es s \<and> sem_inv es s"

lemmas life_inv_defs = object_inv_def child_inv_def sem_inv_def

lemma add_func_inv:
  assumes "life_inv f sys es s" "lf_thread s = Some th" "lf_parent s = Free"
  shows "life_inv f sys (es @ [AddFunc g]) (s\<lparr>lf_thread := Some (addThreadFunc g th)\<rparr>)"
  using assms
  by (cases "Start \<in> set es"; cases "lf_child s")
    (simp_all add: life_inv_def life_inv_defs start_func_snoc addThreadFunc_def)

lemma start_inv:
  assumes "life_inv f sys es s" "lf_thread s = Some th" "lf_parent s = Free" "\<not> th_started th" "th_routine th \<noteq> None"
  shows "life_inv f sys (es @ [Start]) (s\<lparr>lf_thread := Some (th\<lparr>th_started := True\<rparr>), lf_data := th_routine th,
    lf_child := AtWakeup, lf_parent := InSemWait\<rparr>)"
proof -
  have no: "Start \<notin> set es" using assms(1,2,4) by (simp add: life_inv_def object_inv_def)
  then have "lf_child s = NoThread" using assms(1) by (simp add: life_inv_def child_inv_def)
  then show ?thesis using no assms by (simp add: life_inv_def life_inv_defs start_func_snoc)
qed

lemma sem_wait_inv:
  assumes "life_inv f sys es s" "lf_parent s = InSemWait" "Semaphore_wait i (lf_sem s) = Some n"
  shows "life_inv f sys (es @ [SemWait i]) (s\<lparr>lf_sem := n, lf_parent := Free\<rparr>)"
proof -
  obtain th where th: "lf_thread s = Some th"
    using assms(1,2) by (cases "lf_thread s") (simp_all add: life_inv_def object_inv_def)
  have "lf_child s \<noteq> NoThread" using assms(1,2) by (auto simp: life_inv_def sem_inv_def)
  then have "Start \<in> set es" using assms(1) by (simp add: life_inv_def child_inv_def)
  then show ?thesis using assms th
    by (cases i) (auto simp: life_inv_def life_inv_defs start_func_snoc Semaphore_wait_def split: if_splits)
qed

lemma join_inv:
  assumes "life_inv f sys es s" "lf_thread s = Some th" "lf_child s = Ended"
  shows "life_inv f sys (es @ [Join]) (s\<lparr>lf_thread := Some (th\<lparr>th_joined := True\<rparr>)\<rparr>)"
  using assms by (simp add: life_inv_def life_inv_defs start_func_snoc)

lemma destroy_inv:
  assumes "life_inv f sys es s" "lf_thread s = Some th" "lf_parent s = Free" "th_started th \<longrightarrow> th_joined th"
  shows "life_inv f sys (es @ [Destroy]) (s\<lparr>lf_thread := None\<rparr>)"
proof -
  have "lf_child s \<in> {NoThread, Ended}"
    using assms by (cases "Start \<in> set es") (simp_all add: life_inv_def life_inv_defs)
  then show ?thesis using assms by (simp add: life_inv_def life_inv_defs start_func_snoc)
qed

lemma child_step_inv:
  assumes "life_inv f sys es s" "startThread sys s = Some r"
  shows "\<exists>s'. r = Inr s' \<and> life_inv f sys (es @ [Child sys]) s'"
proof -
  have pcs: "lf_child s \<noteq> NoThread" "lf_child s \<noteq> Ended" using assms(2) by (auto simp: startThread_def)
  then have start: "Start \<in> set es" using assms(1) by (simp add: life_inv_def child_inv_def)
  obtain th where th: "lf_thread s = Some th"
    using assms(1) pcs by (cases "lf_thread s") (simp_all add: life_inv_def object_inv_def)
  show ?thesis
  proof (cases "lf_child s")
    case AtWakeup
    let ?s = "s\<lparr>lf_sem := Suc 0, lf_child := AtBeforeRoutine\<rparr>"
    have "lf_sem s = 0" using assms(1) AtWakeup by (simp add: life_inv_def sem_inv_def)
    then have "r = Inr ?s"
      using assms(2) th AtWakeup by (simp add: startThread_def the_thread_def Semaphore_wakeup_def SEM_VALUE_MAX_def)
    moreover have "life_inv f sys (es @ [Child sys]) ?s"
      using assms(1) th start AtWakeup by (simp add: life_inv_def life_inv_defs start_func_snoc)
    ultimately show ?thesis by blast
  next
    case AtBeforeRoutine
    let ?s = "s\<lparr>lf_thread := Some (th\<lparr>th_tid := sys\<rparr>), lf_child := AtRoutine\<rparr>"
    have "r = Inr ?s"
      using assms(2) th AtBeforeRoutine by (simp add: startThread_def the_thread_def gettid_def Let_def)
    moreover have "life_inv f sys (es @ [Child sys]) ?s"
      using assms(1) th start AtBeforeRoutine by (simp add: life_inv_def life_inv_defs start_func_snoc)
    ultimately show ?thesis by blast
  next
    case AtRoutine
    obtain g where g: "lf_data s = Some g" "start_func f es = Some g"
      using assms(1) start AtRoutine by (auto simp: life_inv_def child_inv_def)
    let ?s = "s\<lparr>lf_ran := lf_ran s @ [g], lf_child := AtAfterRoutine\<rparr>"
    have "r = Inr ?s" using assms(2) g(1) AtRoutine by (simp add: startThread_def)
    moreover have "life_inv f sys (es @ [Child sys]) ?s"
      using assms(1) th start g AtRoutine by (simp add: life_inv_def life_inv_defs start_func_snoc)
    ultimately show ?thesis by blast
  next
    case AtAfterRoutine
    let ?s = "s\<lparr>lf_data := None, lf_child := Ended\<rparr>"
    have "r = Inr ?s" using assms(2) AtAfterRoutine by (simp add: startThread_def)
    moreover have "life_inv f sys (es @ [Child sys]) ?s"
      using assms(1) th start AtAfterRoutine by (simp add: life_inv_def life_inv_defs start_func_snoc)
    ultimately show ?thesis by blast
  qed (use pcs in simp_all)
qed

lemma life_step_inv:
  assumes "life_inv f sys es s" "life_obeys e s" "\<forall>t. e = Child t \<longrightarrow> t = sys" "life_step e s = Some r"
  shows "\<exists>s'. r = Inr s' \<and> life_inv f sys (es @ [e]) s'"
proof (cases e)
  case (AddFunc g)
  with assms(2,4) add_func_inv [OF assms(1)] show ?thesis by (auto simp: the_thread_def split: if_splits)
next
  case Start
  with assms(2,4) start_inv [OF assms(1)] show ?thesis by (auto simp: the_thread_def Thread_start_def split: if_splits)
next
  case (SemWait i)
  with assms(4) sem_wait_inv [OF assms(1)] show ?thesis by (auto split: if_splits option.splits)
next
  case Join
  with assms(2,4) join_inv [OF assms(1)] show ?thesis by (auto simp: the_thread_def Thread_join_def split: if_splits)
next
  case Destroy
  with assms(2,4) destroy_inv [OF assms(1)] show ?thesis by (auto simp: the_thread_def split: if_splits)
next
  case (Child t)
  with assms(3,4) child_step_inv [OF assms(1)] show ?thesis by simp
qed

interpretation threads: safe_steps life_step "life_inv f sys" "\<lambda>e s es. es @ [e]"
  "\<lambda>e s. life_obeys e s \<and> (\<forall>t. e = Child t \<longrightarrow> t = sys)" for f sys
  by unfold_locales (use life_step_inv in blast)

lemma life_run_inv:
  assumes "life_run th sys es s" "\<not> th_started th" "\<not> th_joined th"
  shows "life_inv (th_routine th) sys es s"
  using assms(1)
proof (induction rule: life_run.induct)
  case life_nil
  show ?case using assms(2,3) by (simp add: life_inv_def life_inv_defs life_init_def)
next
  case (life_snoc es s e s')
  then show ?case using threads.step_keeps by blast
qed

subsection \<open>Every thread that was started can be joined\<close>

fun steps_left :: "child_pc \<Rightarrow> nat" where
  "steps_left NoThread = 5" | "steps_left AtWakeup = 4" | "steps_left AtBeforeRoutine = 3"
| "steps_left AtRoutine = 2" | "steps_left AtAfterRoutine = 1" | "steps_left Ended = 0"

lemma child_moves:
  assumes "life_inv f sys es s" "lf_thread s = Some th" "lf_child s \<noteq> NoThread" "lf_child s \<noteq> Ended"
  shows "\<exists>s' th'. life_step (Child sys) s = Some (Inr s') \<and> life_inv f sys (es @ [Child sys]) s' \<and>
    lf_child s' \<noteq> NoThread \<and> Suc (steps_left (lf_child s')) = steps_left (lf_child s) \<and> lf_parent s' = lf_parent s \<and>
    lf_thread s' = Some th' \<and> th_joined th' = th_joined th"
proof -
  have "Start \<in> set es" using assms(1,3) by (simp add: life_inv_def child_inv_def)
  then have data: "lf_child s = AtRoutine \<Longrightarrow> \<exists>g. lf_data s = Some g"
    using assms(1) by (auto simp: life_inv_def child_inv_def)
  have "\<exists>s' th'. life_step (Child sys) s = Some (Inr s') \<and>
    lf_child s' \<noteq> NoThread \<and> Suc (steps_left (lf_child s')) = steps_left (lf_child s) \<and> lf_parent s' = lf_parent s \<and>
    lf_thread s' = Some th' \<and> th_joined th' = th_joined th"
    using assms(2-4) data by (cases "lf_child s") (auto simp: startThread_def the_thread_def)
  then show ?thesis using threads.step_keeps [OF assms(1), of "Child sys"] by fastforce
qed

lemma child_ends:
  assumes "life_inv f sys es s" "lf_thread s = Some th" "lf_child s \<noteq> NoThread" "steps_left (lf_child s) = n"
  shows "\<exists>s' th'. life_steps (replicate n (Child sys)) s = Some (Inr s') \<and>
    life_inv f sys (es @ replicate n (Child sys)) s' \<and> lf_child s' = Ended \<and> lf_parent s' = lf_parent s \<and>
    lf_thread s' = Some th' \<and> th_joined th' = th_joined th"
  using assms
proof (induction n arbitrary: es s th)
  case 0
  then show ?case by (cases "lf_child s") auto
next
  case (Suc n)
  then have "lf_child s \<noteq> Ended" by auto
  from child_moves [OF Suc.prems(1-3) this] obtain s1 th1 where s1: "life_step (Child sys) s = Some (Inr s1)"
    "life_inv f sys (es @ [Child sys]) s1" "lf_child s1 \<noteq> NoThread" "steps_left (lf_child s1) = n"
    "lf_parent s1 = lf_parent s" "lf_thread s1 = Some th1" "th_joined th1 = th_joined th"
    using Suc.prems(4) by auto
  from Suc.IH [OF s1(2,6,3,4)] obtain s2 th2 where "life_steps (replicate n (Child sys)) s1 = Some (Inr s2)"
    "life_inv f sys ((es @ [Child sys]) @ replicate n (Child sys)) s2" "lf_child s2 = Ended" "lf_parent s2 = lf_parent s1"
    "lf_thread s2 = Some th2" "th_joined th2 = th_joined th1" by blast
  with s1 show ?case by (intro exI [of _ s2] exI [of _ th2]) (simp del: life_step.simps)
qed

lemma life_steps_append: "life_steps (es @ fs) s = bindO (life_steps es s) (life_steps fs)"
proof (induction es arbitrary: s)
  case (Cons e es)
  show ?case
  proof (cases "life_step e s")
    case (Some r)
    with Cons show ?thesis by (cases r) simp_all
  qed simp
qed simp

lemma join_ended:
  assumes "life_inv f sys es s" "lf_thread s = Some th" "\<not> th_joined th" "lf_child s = Ended"
  shows "\<exists>fs s' th'. set fs \<subseteq> {SemWait False, Join} \<and> length fs \<le> 2 \<and> life_steps fs s = Some (Inr s') \<and>
    lf_thread s' = Some th' \<and> th_joined th' \<and> lf_ran s' = lf_ran s"
proof -
  have started: "th_started th" using assms by (simp add: life_inv_def object_inv_def child_inv_def)
  show ?thesis
  proof (cases "lf_parent s")
    case Free
    with assms(2-4) started show ?thesis
      by (intro exI [of _ "[Join]"]) (simp add: the_thread_def Thread_join_def)
  next
    case InSemWait
    moreover have "0 < lf_sem s" using assms(1,4) InSemWait by (simp add: life_inv_def sem_inv_def)
    ultimately show ?thesis using assms(2-4) started
      by (intro exI [of _ "[SemWait False, Join]"]) (simp add: the_thread_def Thread_join_def Semaphore_wait_def)
  qed
qed

subsection \<open>Properties\<close>


text \<open>
  C19: From any moment after the start of a thread, if its object has not been joined, at most six
  steps bring the join to its end: those the new thread has left, the wait of start, and the join.
\<close>

theorem thread_joins:
  assumes "life_run th sys es s" "\<not> th_started th" "\<not> th_joined th"
    and "Start \<in> set es" "lf_thread s = Some th1" "\<not> th_joined th1"
  shows "\<exists>fs s' th' f. set fs \<subseteq> {Child sys, SemWait False, Join} \<and> length fs \<le> 6 \<and> life_steps fs s = Some (Inr s') \<and>
    lf_thread s' = Some th' \<and> th_joined th' \<and> start_func (th_routine th) es = Some f \<and> lf_ran s' = [f]"
proof -
  note inv = life_run_inv [OF assms(1-3)]
  have start: "lf_child s \<noteq> NoThread" "start_func (th_routine th) es \<noteq> None"
    using inv assms(4) by (simp_all add: life_inv_def child_inv_def)
  let ?n = "steps_left (lf_child s)"
  have n: "?n \<le> 4" using start(1) by (cases "lf_child s") simp_all
  from child_ends [OF inv assms(5) start(1) refl] obtain s1 th2 where
    s1: "life_steps (replicate ?n (Child sys)) s = Some (Inr s1)" "life_inv (th_routine th) sys (es @ replicate ?n (Child sys)) s1"
    "lf_child s1 = Ended" "lf_thread s1 = Some th2" "th_joined th2 = th_joined th1" by blast
  have "start_func f (es @ replicate m (Child sys)) = start_func f es" for f m
  proof (induction m)
    case (Suc m)
    have "es @ replicate (Suc m) (Child sys) = (es @ replicate m (Child sys)) @ [Child sys]"
      by (simp add: replicate_append_same)
    with Suc show ?case by (simp only: start_func_snoc) simp
  qed simp
  then have ran: "lf_ran s1 = [the (start_func (th_routine th) es)]" using s1(2,3) by (simp add: life_inv_def child_inv_def)
  from join_ended [OF s1(2,4) _ s1(3)] s1(5) assms(6) obtain fs s2 th3 where
    fs: "set fs \<subseteq> {SemWait False, Join}" "length fs \<le> 2" "life_steps fs s1 = Some (Inr s2)"
      "lf_thread s2 = Some th3" "th_joined th3" "lf_ran s2 = lf_ran s1" by blast
  have "set (replicate ?n (Child sys) @ fs) \<subseteq> {Child sys, SemWait False, Join}" using fs(1) by (auto split: if_splits)
  moreover have "life_steps (replicate ?n (Child sys) @ fs) s = Some (Inr s2)" by (simp add: life_steps_append s1(1) fs(3))
  ultimately show ?thesis using n fs(2,4-6) ran start(2)
    by (intro exI [of _ "replicate ?n (Child sys) @ fs"] exI [of _ s2]) auto
qed

text \<open>
  What happens when the rules are broken: an object destroyed as soon as its start has returned is
  written to by the new thread, a second start and a join before the start or after another one
  fail their assertions, and an exception ends the program when no function was set.
\<close>

theorem thread_misuse:
  assumes "\<not> th_started th" "\<not> th_joined th" "th_routine th = Some f"
  shows "life_steps [Start, Child sys, SemWait False, Destroy, Child sys] (life_init th) = Some (Inl UseAfterFree) \<and>
    life_steps [Start, Child sys, SemWait False, Start] (life_init th) = Some (Inl AssertFailed) \<and>
    life_steps [Join] (life_init th) = Some (Inl AssertFailed) \<and>
    life_steps [Start, SemWait True, Child sys, Child sys, Child sys, Child sys, Join, Join] (life_init th) = Some (Inl AssertFailed) \<and>
    life_steps [AddFunc None, Start, Child sys, Child sys, Child sys] (life_init th) = Some (Inl Uncaught)"
proof -
  have post: "Semaphore_wakeup 0 = 1" by (simp add: Semaphore_wakeup_def SEM_VALUE_MAX_def)
  note defs = life_init_def the_thread_def startThread_def Semaphore_wait_def post
  have "life_steps [Start, Child sys, SemWait False, Destroy, Child sys] (life_init th) = Some (Inl UseAfterFree)"
    "life_steps [Start, Child sys, SemWait False, Start] (life_init th) = Some (Inl AssertFailed)"
    "life_steps [Join] (life_init th) = Some (Inl AssertFailed)"
    "life_steps [Start, SemWait True, Child sys, Child sys, Child sys, Child sys, Join, Join] (life_init th) =
      Some (Inl AssertFailed)"
    "life_steps [AddFunc None, Start, Child sys, Child sys, Child sys] (life_init th) = Some (Inl Uncaught)"
    using assms by (simp_all add: defs Thread_start_def Thread_join_def addThreadFunc_def)
  then show ?thesis by blast
qed

text \<open>A thread whose function is set before the start and replaced behind it, up to the join.\<close>

definition sample_life :: "nat life_event list" where
  "sample_life = [AddFunc (Some 7), Start, Child 42, SemWait False, AddFunc (Some 8)]"

lemma sample_life_run:
  "\<exists>s th'. life_run (fst (Thread_default 0)) 42 sample_life s \<and> lf_thread s = Some th' \<and> \<not> th_joined th' \<and>
    th_started th' \<and> lf_parent s = Free"
proof -
  have post: "Semaphore_wakeup 0 = 1" by (simp add: Semaphore_wakeup_def SEM_VALUE_MAX_def)
  let ?th = "fst (Thread_default 0) :: nat thread"
  obtain s1 th1 where s1: "life_run ?th 42 ([] @ [AddFunc (Some 7)]) s1" "lf_thread s1 = Some th1" "lf_parent s1 = Free"
    "\<not> th_started th1" "\<not> th_joined th1" "th_routine th1 = Some 7" "lf_sem s1 = 0"
    using life_snoc [OF life_nil, of "AddFunc (Some 7)" ?th 42]
    by (simp add: life_init_def the_thread_def addThreadFunc_def new_thread)
  obtain s2 th2 where s2: "life_run ?th 42 (([] @ [AddFunc (Some 7)]) @ [Start]) s2" "lf_thread s2 = Some th2"
    "lf_parent s2 = InSemWait" "lf_child s2 = AtWakeup" "th_started th2" "\<not> th_joined th2" "lf_sem s2 = 0"
    using life_snoc [OF s1(1), of Start] s1(2-7) by (simp add: the_thread_def Thread_start_def)
  obtain s3 where s3: "life_run ?th 42 ((([] @ [AddFunc (Some 7)]) @ [Start]) @ [Child 42]) s3" "lf_thread s3 = Some th2"
    "lf_parent s3 = InSemWait" "lf_sem s3 = 1"
    using life_snoc [OF s2(1), of "Child 42"] s2(2-7) by (simp add: the_thread_def startThread_def post)
  obtain s4 where s4: "life_run ?th 42 (((([] @ [AddFunc (Some 7)]) @ [Start]) @ [Child 42]) @ [SemWait False]) s4"
    "lf_thread s4 = Some th2" "lf_parent s4 = Free"
    using life_snoc [OF s3(1), of "SemWait False"] s3(2-4) by (simp add: Semaphore_wait_def)
  obtain s5 where "life_run ?th 42 ((((([] @ [AddFunc (Some 7)]) @ [Start]) @ [Child 42]) @ [SemWait False]) @ [AddFunc (Some 8)]) s5"
    "lf_thread s5 = Some (addThreadFunc (Some 8) th2)" "lf_parent s5 = Free"
    using life_snoc [OF s4(1), of "AddFunc (Some 8)"] s4(2,3) by (simp add: the_thread_def)
  then show ?thesis using s2(5,6)
    by (intro exI [of _ s5] exI [of _ "addThreadFunc (Some 8) th2"]) (simp add: sample_life_def addThreadFunc_def)
qed


theorem thread_joins_witness:
  "\<exists>s fs s'. life_run (fst (Thread_default 0)) 42 sample_life s \<and> length fs \<le> 6 \<and> life_steps fs s = Some (Inr s') \<and>
    lf_ran s' = [7]"
proof -
  obtain s th' where s: "life_run (fst (Thread_default 0)) 42 sample_life s" "lf_thread s = Some th'" "\<not> th_joined th'"
    using sample_life_run by blast
  have start: "Start \<in> set sample_life" by (simp add: sample_life_def)
  have func: "start_func (th_routine (fst (Thread_default 0))) sample_life = Some 7" by (simp add: sample_life_def)
  from thread_joins [OF s(1) new_thread(5,6) start s(2,3)] obtain fs s' f where
    "length fs \<le> 6" "life_steps fs s = Some (Inr s')" "start_func (th_routine (fst (Thread_default 0))) sample_life = Some f"
    "lf_ran s' = [f]" by blast
  with func s(1) show ?thesis by auto
qed

theorem thread_misuse_witness:
  "life_steps [Start, Child 42, SemWait False, Destroy, Child 42] (life_init (fst (Thread_new (Some (7 :: nat)) ''worker'' 0))) =
    Some (Inl UseAfterFree)"
  using thread_misuse [of "fst (Thread_new (Some (7 :: nat)) ''worker'' 0)" 7 42] by (simp add: new_thread del: life_steps.simps)

end
