(* ===== verification/ThreadPool.thy ===== *)
theory ThreadPool
  imports MessageQueue Threads "HOL-Library.Multiset"
begin

text \<open>
  The thread pool \<open>cct/threadPool\<close>: its threads, and how its workers run the tasks that clients put
  into its message queue.
\<close>

subsection \<open>ThreadPool: its threads\<close>

definition kMaxNumThreads :: int where
  "kMaxNumThreads = 6"

text \<open>The function of every thread of a pool is \<open>thread_routine\<close>, bound to the pool.\<close>

datatype pool_routine = ThreadRoutine

record pool =
  tp_numThreads :: int
  tp_threads :: "pool_routine thread list"

text \<open>The array for the number holds three characters.\<close>

definition pool_thread_name :: "nat \<Rightarrow> string" where
  "pool_thread_name i = ''ThreadPool'' @ take 3 (to_string (int i))"

text \<open>\<open>init\<close>, with the global counter of threads.\<close>

fun init_loop :: "nat \<Rightarrow> nat \<Rightarrow> pool_routine thread list \<times> int \<Rightarrow> pool_routine thread list \<times> int" where
  "init_loop i 0 tc = tc"
| "init_loop i (Suc k) (ts, threadNum) =
     (let (th, c) = Thread_new (Some ThreadRoutine) (pool_thread_name i) threadNum in
      init_loop (Suc i) k (ts @ [th], c))"

definition ThreadPool_init :: "pool \<times> int \<Rightarrow> pool \<times> int" where
  "ThreadPool_init pc =
     (let (ts, c) = init_loop 0 (nat (tp_numThreads (fst pc))) (tp_threads (fst pc), snd pc) in
      ((fst pc)\<lparr>tp_threads := ts\<rparr>, c))"

definition setNumThreads :: "int \<Rightarrow> pool \<times> int \<Rightarrow> pool \<times> int" where
  "setNumThreads num pc =
     (let n = (if num > kMaxNumThreads then kMaxNumThreads else if num < 0 then 0 else num) in
      ThreadPool_init ((fst pc)\<lparr>tp_numThreads := n\<rparr>, snd pc))"

definition ThreadPool_default :: pool where
  "ThreadPool_default = \<lparr>tp_numThreads = 0, tp_threads = []\<rparr>"

definition ThreadPool_new :: "int \<Rightarrow> int \<Rightarrow> pool \<times> int" where
  "ThreadPool_new numThreads threadNum =
     ThreadPool_init (setNumThreads numThreads (\<lparr>tp_numThreads = 0, tp_threads = []\<rparr>, threadNum))"

definition ThreadPool_start :: "pool \<Rightarrow> pool res" where
  "ThreadPool_start p =
     bindR (foldR (\<lambda>th ts. bindR (Thread_start th) (\<lambda>th'. Inr (ts @ [th']))) (tp_threads p) [])
       (\<lambda>ts. Inr (p\<lparr>tp_threads := ts\<rparr>))"

text \<open>
  Where a thread of the pool is in \<open>thread_routine\<close>: at the test of its loop, inside \<open>pull\<close>, with a
  task in its hand, or out of the function. One step, given what \<open>pull\<close> returns when it does; \<open>None\<close>:
  there is no step, as inside \<open>pull\<close> while the queue has nothing to return, or after the function.
\<close>

datatype 'a worker_pc = AtLoop | AtPull | AtTask 'a | Returned

fun thread_routine :: "'a option \<Rightarrow> 'a worker_pc \<Rightarrow> 'a worker_pc option" where
  "thread_routine pulled AtLoop = Some (if (1 :: int) \<noteq> 0 then AtPull else Returned)"
| "thread_routine pulled AtPull = (case pulled of None \<Rightarrow> None | Some t \<Rightarrow> Some (AtTask t))"
| "thread_routine pulled (AtTask t) = Some AtLoop"
| "thread_routine pulled Returned = None"

text \<open>A run of the function, from its start: at each moment it takes a step or stays where it is.\<close>

definition worker_run :: "(nat \<Rightarrow> 'a worker_pc) \<Rightarrow> bool" where
  "worker_run r \<longleftrightarrow> r 0 = AtLoop \<and>
     (\<forall>k. r (Suc k) = r k \<or> (\<exists>pulled. thread_routine pulled (r k) = Some (r (Suc k))))"

lemma worker_stays:
  assumes "worker_run r"
  shows "r k \<noteq> Returned"
proof (induction k)
  case 0
  then show ?case using assms by (simp add: worker_run_def)
next
  case (Suc k)
  have "thread_routine pulled pc \<noteq> Some Returned" for pulled and pc :: "'a worker_pc"
    by (cases pc) (auto split: option.splits)
  with Suc show ?case using assms unfolding worker_run_def by metis
qed

text \<open>\<open>join\<close> waits for each thread in turn; \<open>ended i\<close>: the function of thread \<open>i\<close> returns some time.\<close>

fun join_loop ::
  "(nat \<Rightarrow> bool) \<Rightarrow> pool_routine thread list \<Rightarrow> pool_routine thread list \<Rightarrow> pool_routine thread list res option" where
  "join_loop ended joined [] = Some (Inr joined)"
| "join_loop ended joined (th # ts) =
     bindO (Thread_join (ended (length joined)) th) (\<lambda>th'. join_loop ended (joined @ [th']) ts)"

definition ThreadPool_join :: "(nat \<Rightarrow> bool) \<Rightarrow> pool \<Rightarrow> pool res option" where
  "ThreadPool_join ended p =
     bindO (join_loop ended [] (tp_threads p)) (\<lambda>ts. Some (Inr (p\<lparr>tp_threads := ts\<rparr>)))"

lemma init_loop_threads:
  "\<exists>ts'. fst (init_loop i k (ts, c)) = ts @ ts' \<and> length ts' = k \<and>
    (\<forall>th \<in> set ts'. \<not> th_started th \<and> \<not> th_joined th)"
proof (induction k arbitrary: i ts c)
  case (Suc k)
  obtain th c' where th: "Thread_new (Some ThreadRoutine) (pool_thread_name i) c = (th, c')" by fastforce
  have "\<not> th_started th \<and> \<not> th_joined th" using th by (auto simp: Thread_new_def setDefaultName_def split: if_splits)
  moreover obtain ts' where "fst (init_loop (Suc i) k (ts @ [th], c')) = (ts @ [th]) @ ts'" "length ts' = k"
    "\<forall>th \<in> set ts'. \<not> th_started th \<and> \<not> th_joined th"
    using Suc.IH [of "Suc i" "ts @ [th]" c'] by blast
  ultimately show ?case by (intro exI [of _ "th # ts'"]) (simp add: th)
qed simp

lemma pool_init_threads:
  "\<exists>ts'. tp_threads (fst (ThreadPool_init (p, c))) = tp_threads p @ ts' \<and> length ts' = nat (tp_numThreads p) \<and>
    (\<forall>th \<in> set ts'. \<not> th_started th \<and> \<not> th_joined th) \<and>
    tp_numThreads (fst (ThreadPool_init (p, c))) = tp_numThreads p"
  using init_loop_threads [of 0 "nat (tp_numThreads p)" "tp_threads p" c]
  by (auto simp: ThreadPool_init_def split: prod.split)

lemma start_all:
  "\<forall>th \<in> set ts. \<not> th_started th \<Longrightarrow>
    foldR (\<lambda>th ts. bindR (Thread_start th) (\<lambda>th'. Inr (ts @ [th']))) ts us = Inr (us @ map (\<lambda>th. th\<lparr>th_started := True\<rparr>) ts)"
  by (induction ts arbitrary: us) (simp_all add: Thread_start_def)

text \<open>A started pool cannot be started again, nor joined when its first thread never returns.\<close>

lemma second_start:
  assumes "\<forall>th \<in> set ts. th_started th \<and> \<not> th_joined th"
  shows "ThreadPool_start (p\<lparr>tp_threads := ts\<rparr>) = Inl AssertFailed \<longleftrightarrow> ts \<noteq> []"
    and "\<not> ended 0 \<Longrightarrow> ThreadPool_join ended (p\<lparr>tp_threads := ts\<rparr>) = None \<longleftrightarrow> ts \<noteq> []"
proof -
  have "(ThreadPool_start (p\<lparr>tp_threads := ts\<rparr>) = Inl AssertFailed \<longleftrightarrow> ts \<noteq> []) \<and>
    (\<not> ended 0 \<longrightarrow> (ThreadPool_join ended (p\<lparr>tp_threads := ts\<rparr>) = None \<longleftrightarrow> ts \<noteq> []))"
  proof (cases ts)
    case (Cons th us)
    then have "th_started th" "\<not> th_joined th" using assms by simp_all
    then show ?thesis
      by (simp add: Cons ThreadPool_start_def Thread_start_def ThreadPool_join_def Thread_join_def)
  qed (simp add: ThreadPool_start_def ThreadPool_join_def)
  then show "ThreadPool_start (p\<lparr>tp_threads := ts\<rparr>) = Inl AssertFailed \<longleftrightarrow> ts \<noteq> []"
    "\<not> ended 0 \<Longrightarrow> ThreadPool_join ended (p\<lparr>tp_threads := ts\<rparr>) = None \<longleftrightarrow> ts \<noteq> []" by blast+
qed

lemma pool_new_threads:
  "\<exists>ts. tp_threads (fst (ThreadPool_new num c)) = ts \<and> length ts = 2 * nat (max 0 (min 6 num)) \<and>
    (\<forall>th \<in> set ts. \<not> th_started th \<and> \<not> th_joined th) \<and>
    tp_numThreads (fst (ThreadPool_new num c)) = max 0 (min 6 num)"
proof -
  let ?n = "max 0 (min 6 num)"
  let ?p0 = "\<lparr>tp_numThreads = ?n, tp_threads = []\<rparr>"
  have set: "setNumThreads num (\<lparr>tp_numThreads = 0, tp_threads = []\<rparr>, c) = ThreadPool_init (?p0, c)"
    by (simp add: setNumThreads_def kMaxNumThreads_def Let_def max_def min_def)
  obtain p1 c1 where p1: "ThreadPool_init (?p0, c) = (p1, c1)" by fastforce
  with pool_init_threads [of ?p0 c] obtain ts1 where ts1: "tp_threads p1 = ts1" "length ts1 = nat ?n"
    "\<forall>th \<in> set ts1. \<not> th_started th \<and> \<not> th_joined th" "tp_numThreads p1 = ?n" by auto
  from pool_init_threads [of p1 c1] obtain ts2 where
    "tp_threads (fst (ThreadPool_init (p1, c1))) = ts1 @ ts2" "length ts2 = nat ?n"
    "\<forall>th \<in> set ts2. \<not> th_started th \<and> \<not> th_joined th" "tp_numThreads (fst (ThreadPool_init (p1, c1))) = ?n"
    using ts1 by auto
  with ts1 show ?thesis by (auto simp: ThreadPool_new_def set p1)
qed

subsection \<open>ThreadPool: its tasks\<close>

text \<open>
  Threads below \<open>n\<close> are workers: \<open>thread_routine\<close> pulls a task, runs it and pulls the next.
  The other threads add tasks. \<open>pr_task\<close> is the local \<open>t\<close> of a worker that has pulled and not
  run it yet, \<open>pr_ran\<close> the tasks run so far.
\<close>

record 'a pool_run_state =
  pr_queue :: "'a mq"
  pr_task :: "nat \<Rightarrow> 'a option"
  pr_ran :: "(nat \<times> 'a) list"

datatype 'a pool_event = Queue nat "'a mq_event" | RunTask nat

definition pool_new :: "'a pool_run_state" where
  "pool_new = \<lparr>pr_queue = MQ_new, pr_task = (\<lambda>_. None), pr_ran = []\<rparr>"

text \<open>What a thread may do to the queue: workers only pull, with no task in hand, the others only push.\<close>

fun allowed :: "nat \<Rightarrow> nat \<Rightarrow> 'a mq_event \<Rightarrow> 'a pool_run_state \<Rightarrow> bool" where
  "allowed n t (Push x) s \<longleftrightarrow> n \<le> t"
| "allowed n t Pull s \<longleftrightarrow> t < n \<and> pr_task s t = None"
| "allowed n t Clear s \<longleftrightarrow> False"
| "allowed n t e s \<longleftrightarrow> True"

text \<open>The value \<open>pull\<close> returns.\<close>

fun returned :: "nat \<Rightarrow> 'a mq_event \<Rightarrow> 'a mq \<Rightarrow> 'a option" where
  "returned t Return q = (case mq_pc q t of Pulled x \<Rightarrow> Some x | _ \<Rightarrow> None)"
| "returned t e q = None"

fun pool_step :: "nat \<Rightarrow> 'a pool_event \<Rightarrow> 'a pool_run_state \<Rightarrow> 'a pool_run_state res option" where
  "pool_step n (Queue t e) s =
     (if \<not> allowed n t e s then None
      else bindO (mq_step t e (pr_queue s)) (\<lambda>q. Some (Inr (s\<lparr>pr_queue := q,
        pr_task := (case returned t e (pr_queue s) of None \<Rightarrow> pr_task s | Some x \<Rightarrow> (pr_task s)(t := Some x))\<rparr>))))"
| "pool_step n (RunTask t) s =
     (case pr_task s t of None \<Rightarrow> None
      | Some x \<Rightarrow> Some (Inr (s\<lparr>pr_task := (pr_task s)(t := None), pr_ran := pr_ran s @ [(t, x)]\<rparr>)))"

text \<open>A run, with the tasks that \<open>addTask\<close> has put into the queue.\<close>

inductive pool_run :: "nat \<Rightarrow> 'a pool_run_state \<Rightarrow> 'a list \<Rightarrow> bool" for n where
  pool_start: "pool_run n pool_new []"
| pool_queue: "pool_run n s added \<Longrightarrow> pool_step n (Queue t e) s = Some (Inr s') \<Longrightarrow>
    pool_run n s' (added @ put_in t e (pr_queue s))"
| pool_task: "pool_run n s added \<Longrightarrow> pool_step n (RunTask t) s = Some (Inr s') \<Longrightarrow> pool_run n s' added"

text \<open>What a worker has pulled, and what it has in hand.\<close>

definition pulled_by :: "nat \<Rightarrow> (nat option \<times> 'a) list \<Rightarrow> 'a list" where
  "pulled_by w outs = map snd (filter (\<lambda>o'. fst o' = Some w) outs)"

definition ran_by :: "nat \<Rightarrow> (nat \<times> 'a) list \<Rightarrow> 'a list" where
  "ran_by w rs = map snd (filter (\<lambda>r. fst r = w) rs)"

definition in_pool_hand :: "nat \<Rightarrow> 'a pool_run_state \<Rightarrow> 'a list" where
  "in_pool_hand w s = (case pr_task s w of Some x \<Rightarrow> [x] | None \<Rightarrow> []) @
     (case mq_pc (pr_queue s) w of Pulled x \<Rightarrow> [x] | _ \<Rightarrow> [])"

fun pushing :: "'a mq_pc \<Rightarrow> bool" where
  "pushing (WantPush x) \<longleftrightarrow> True" | "pushing (InPush x) \<longleftrightarrow> True" | "pushing Pushed \<longleftrightarrow> True"
| "pushing _ \<longleftrightarrow> False"

fun pulling :: "'a mq_pc \<Rightarrow> bool" where
  "pulling WantPull \<longleftrightarrow> True" | "pulling InPull \<longleftrightarrow> True" | "pulling InWait \<longleftrightarrow> True" | "pulling (Pulled x) \<longleftrightarrow> True"
| "pulling _ \<longleftrightarrow> False"

text \<open>
  The queue of a pool runs as a queue does; workers pull, the others push, and every worker has
  run what it has pulled, in the same order, but for the task in hand.
\<close>

definition pool_inv :: "nat \<Rightarrow> 'a pool_run_state \<Rightarrow> 'a list \<Rightarrow> (nat option \<times> 'a) list \<Rightarrow> bool" where
  "pool_inv n s added outs \<longleftrightarrow>
     mq_run (pr_queue s) added outs \<and>
     (\<forall>t. mq_pc (pr_queue s) t = Idle \<or> (if t < n then pulling (mq_pc (pr_queue s) t) else pushing (mq_pc (pr_queue s) t))) \<and>
     (\<forall>t. pr_task s t \<noteq> None \<longrightarrow> t < n \<and> mq_pc (pr_queue s) t = Idle) \<and>
     (\<forall>o' \<in> set outs. \<exists>w < n. fst o' = Some w) \<and>
     (\<forall>w < n. pulled_by w outs = ran_by w (pr_ran s) @ in_pool_hand w s) \<and>
     mset (map snd outs) = mset (map snd (pr_ran s)) + (\<Sum>w<n. mset (in_pool_hand w s))"

lemma pulled_by_simps [simp]:
  "pulled_by w [] = []" "pulled_by w (outs @ outs') = pulled_by w outs @ pulled_by w outs'"
  "pulled_by w [(o', x)] = (if o' = Some w then [x] else [])"
  by (simp_all add: pulled_by_def)

lemma ran_by_simps [simp]:
  "ran_by w [] = []" "ran_by w (rs @ [(t, x)]) = ran_by w rs @ (if t = w then [x] else [])"
  by (simp_all add: ran_by_def)

text \<open>The hand of one worker changes; the multiset of all hands follows.\<close>

lemma sum_hands_upd:
  assumes "w < (n :: nat)" "\<forall>v. v \<noteq> w \<longrightarrow> f v = g v"
  shows "(\<Sum>v<n. f v) + g w = (\<Sum>v<n. g v) + (f w :: 'a multiset)"
proof -
  have "(\<Sum>v<n. f v) = f w + (\<Sum>v \<in> {..<n} - {w}. f v)" "(\<Sum>v<n. g v) = g w + (\<Sum>v \<in> {..<n} - {w}. g v)"
    using assms(1) by (simp_all add: sum.remove)
  moreover have "(\<Sum>v \<in> {..<n} - {w}. f v) = (\<Sum>v \<in> {..<n} - {w}. g v)"
    using assms(2) by (intro sum.cong) auto
  ultimately show ?thesis by (simp add: ac_simps)
qed

lemma exchange:
  fixes h h' x y a b :: "'a multiset"
  assumes "h + x = y + h'" "b + h = a + h'"
  shows "a + x = y + b"
proof -
  have "(a + x) + h = a + (h + x)" by (simp add: ac_simps)
  also have "\<dots> = y + (a + h')" by (simp add: assms(1) ac_simps)
  also have "\<dots> = (y + b) + h" by (simp add: assms(2) [symmetric] ac_simps)
  finally show ?thesis by simp
qed

lemma pool_inv_new: "pool_inv n pool_new [] []"
  by (simp add: pool_inv_def pool_new_def mq_run.new in_pool_hand_def) (simp add: MQ_new_def)

text \<open>
  A step of one thread \<open>t\<close>: what it takes out of the queue joins its hand at the end, what it runs
  leaves it at the front.
\<close>

lemma pool_inv_step:
  assumes "pool_inv n s added outs" "mq_run (pr_queue s') added' (outs @ map (\<lambda>x. (Some t, x)) xs)"
    and "\<And>t'. t' \<noteq> t \<Longrightarrow> mq_pc (pr_queue s') t' = mq_pc (pr_queue s) t' \<and> pr_task s' t' = pr_task s t'"
    and "mq_pc (pr_queue s') t = Idle \<or>
      (if t < n then pulling (mq_pc (pr_queue s') t) else pushing (mq_pc (pr_queue s') t))"
    and "pr_task s' t \<noteq> None \<longrightarrow> t < n \<and> mq_pc (pr_queue s') t = Idle"
    and "pr_ran s' = pr_ran s @ map (\<lambda>x. (t, x)) ys" "t < n \<or> xs = [] \<and> ys = []"
    and "t < n \<longrightarrow> in_pool_hand t s @ xs = ys @ in_pool_hand t s'"
  shows "pool_inv n s' added' (outs @ map (\<lambda>x. (Some t, x)) xs)"
proof -
  have inv: "\<And>t. mq_pc (pr_queue s) t = Idle \<or>
      (if t < n then pulling (mq_pc (pr_queue s) t) else pushing (mq_pc (pr_queue s) t))"
    "\<And>t. pr_task s t \<noteq> None \<longrightarrow> t < n \<and> mq_pc (pr_queue s) t = Idle" "\<forall>o' \<in> set outs. \<exists>w < n. fst o' = Some w"
    "\<And>w. w < n \<Longrightarrow> pulled_by w outs = ran_by w (pr_ran s) @ in_pool_hand w s"
    "mset (map snd outs) = mset (map snd (pr_ran s)) + (\<Sum>w<n. mset (in_pool_hand w s))"
    using assms(1) unfolding pool_inv_def by blast+
  have other: "in_pool_hand w s' = in_pool_hand w s" if "w \<noteq> t" for w
    using assms(3) [OF that] by (simp add: in_pool_hand_def)
  have pulled: "pulled_by w (map (\<lambda>x. (Some t, x)) xs) = (if w = t then xs else [])" for w
    by (induction xs) (auto simp: pulled_by_def)
  have ran: "ran_by w (pr_ran s') = ran_by w (pr_ran s) @ (if w = t then ys else [])" for w
    unfolding assms(6) by (induction ys rule: rev_induct) (auto simp: ran_by_def)
  have workers: "pulled_by w (outs @ map (\<lambda>x. (Some t, x)) xs) = ran_by w (pr_ran s') @ in_pool_hand w s'"
    if "w < n" for w
    using inv(4) [OF that] assms(8) that other [of w] by (auto simp: pulled ran)
  have "mset (map snd (outs @ map (\<lambda>x. (Some t, x)) xs)) =
    mset (map snd (pr_ran s')) + (\<Sum>w<n. mset (in_pool_hand w s'))"
  proof (cases "t < n")
    case True
    have "mset (in_pool_hand t s) + mset xs = mset ys + mset (in_pool_hand t s')"
      using assms(8) True by (metis mset_append)
    moreover have "(\<Sum>w<n. mset (in_pool_hand w s')) + mset (in_pool_hand t s) =
      (\<Sum>w<n. mset (in_pool_hand w s)) + mset (in_pool_hand t s')"
      using other by (intro sum_hands_upd [OF True]) auto
    ultimately have "(\<Sum>w<n. mset (in_pool_hand w s)) + mset xs = mset ys + (\<Sum>w<n. mset (in_pool_hand w s'))"
      by (rule exchange)
    then show ?thesis using inv(5) by (simp add: assms(6) comp_def ac_simps)
  next
    case False
    then have "(\<Sum>w<n. mset (in_pool_hand w s')) = (\<Sum>w<n. mset (in_pool_hand w s))"
      using other by (intro sum.cong) auto
    with False assms(7) inv(5) show ?thesis by (simp add: assms(6))
  qed
  moreover have "\<forall>o' \<in> set (outs @ map (\<lambda>x. (Some t, x)) xs). \<exists>w < n. fst o' = Some w"
    using inv(3) assms(7) by auto
  moreover have "mq_pc (pr_queue s') t' = Idle \<or>
      (if t' < n then pulling (mq_pc (pr_queue s') t') else pushing (mq_pc (pr_queue s') t'))"
    "pr_task s' t' \<noteq> None \<longrightarrow> t' < n \<and> mq_pc (pr_queue s') t' = Idle" for t'
    using assms(3-5) inv(1,2) by (cases "t' = t"; metis)+
  ultimately show ?thesis unfolding pool_inv_def using assms(2) workers by blast
qed

text \<open>A step of the queue moves one thread only.\<close>

lemma mq_step_others:
  "mq_step t e s = Some (Inr s') \<Longrightarrow> t' \<noteq> t \<Longrightarrow> mq_pc s' t' = mq_pc s t'"
  by (cases e; cases "mq_pc s t")
    (auto simp: lock_defs MQ_push_def MQ_pull_def MQ_clear_def bindR_eq_Inr_iff split: option.splits if_splits list.splits)

text \<open>Where it takes a thread that pushes or pulls, and what it takes out of the queue.\<close>

lemma step_worker:
  assumes "mq_step t e s = Some (Inr s')" "pulling (mq_pc s t) \<or> mq_pc s t = Idle \<and> (e = Pull \<or> e = Wake)"
  shows "(mq_pc s' t = Idle \<or> pulling (mq_pc s' t)) \<and>
    (\<exists>xs. taken_out t e s = map (\<lambda>x. (Some t, x)) xs \<and>
      (case mq_pc s t of Pulled x \<Rightarrow> [x] | _ \<Rightarrow> []) @ xs =
      (case returned t e s of Some x \<Rightarrow> [x] | None \<Rightarrow> []) @ (case mq_pc s' t of Pulled x \<Rightarrow> [x] | _ \<Rightarrow> [])) \<and>
    (returned t e s \<noteq> None \<longrightarrow> mq_pc s' t = Idle)"
  using assms
  by (cases e; cases "mq_pc s t")
    (auto simp: lock_defs MQ_pull_def bindR_eq_Inr_iff split: option.splits if_splits list.splits)

lemma step_client:
  assumes "mq_step t e s = Some (Inr s')" "pushing (mq_pc s t) \<or> mq_pc s t = Idle \<and> e \<noteq> Pull \<and> e \<noteq> Clear"
  shows "(mq_pc s' t = Idle \<or> pushing (mq_pc s' t)) \<and> taken_out t e s = [] \<and> returned t e s = None"
  using assms
  by (cases e; cases "mq_pc s t")
    (auto simp: lock_defs MQ_push_def bindR_eq_Inr_iff split: option.splits if_splits list.splits)

lemma returned_pc: "returned t e q = Some x \<Longrightarrow> mq_pc q t = Pulled x"
  by (cases e) (auto split: mq_pc.splits)

lemma idle_steps:
  "mq_step t e q = Some r \<Longrightarrow> mq_pc q t = Idle \<Longrightarrow> (\<exists>x. e = Push x) \<or> e = Pull \<or> e = Clear \<or> e = Wake"
  by (cases e) auto

lemma pool_queue_inv:
  assumes "pool_inv n s added outs" "pool_step n (Queue t e) s = Some (Inr s')"
  shows "\<exists>outs'. pool_inv n s' (added @ put_in t e (pr_queue s)) outs'"
proof -
  let ?q = "pr_queue s"
  have ok: "allowed n t e s" using assms(2) by (auto split: if_splits)
  with assms(2) obtain q where q: "mq_step t e ?q = Some (Inr q)" "s' = s\<lparr>pr_queue := q,
      pr_task := (case returned t e ?q of None \<Rightarrow> pr_task s | Some x \<Rightarrow> (pr_task s)(t := Some x))\<rparr>"
    by (auto simp: bindO_def split: option.splits sum.splits)
  have inv: "mq_run ?q added outs" "mq_pc ?q t = Idle \<or> (if t < n then pulling (mq_pc ?q t) else pushing (mq_pc ?q t))"
    "pr_task s t \<noteq> None \<longrightarrow> t < n \<and> mq_pc ?q t = Idle"
    using assms(1) unfolding pool_inv_def by blast+
  have run: "mq_run q (added @ put_in t e ?q) (outs @ taken_out t e ?q)" using mq_run.run [OF inv(1) q(1)] .
  have others: "mq_pc (pr_queue s') t' = mq_pc ?q t' \<and> pr_task s' t' = pr_task s t'" if "t' \<noteq> t" for t'
    using mq_step_others [OF q(1) that] that by (simp add: q(2) split: option.split)
  show ?thesis
  proof (cases "t < n")
    case True
    have "pulling (mq_pc ?q t) \<or> mq_pc ?q t = Idle \<and> (e = Pull \<or> e = Wake)"
      using inv(2) True ok idle_steps [OF q(1)] by auto
    from step_worker [OF q(1) this] obtain xs where xs: "mq_pc q t = Idle \<or> pulling (mq_pc q t)"
      "taken_out t e ?q = map (\<lambda>x. (Some t, x)) xs"
      "(case mq_pc ?q t of Pulled x \<Rightarrow> [x] | _ \<Rightarrow> []) @ xs =
        (case returned t e ?q of Some x \<Rightarrow> [x] | None \<Rightarrow> []) @ (case mq_pc q t of Pulled x \<Rightarrow> [x] | _ \<Rightarrow> [])"
      "returned t e ?q \<noteq> None \<longrightarrow> mq_pc q t = Idle" by blast
    have no_task: "pr_task s t = None" if "returned t e ?q \<noteq> None"
      using inv(3) returned_pc that by fastforce
    have task: "pr_task s' t = (case returned t e ?q of None \<Rightarrow> pr_task s t | Some x \<Rightarrow> Some x)"
      by (simp add: q(2) split: option.split)
    have hand: "in_pool_hand t s @ xs = in_pool_hand t s'"
      using xs(3) no_task task unfolding in_pool_hand_def by (auto simp: q(2) split: option.splits)
    have keeps: "mq_pc q t = Idle" if "pr_task s t \<noteq> None"
    proof -
      have "mq_pc ?q t = Idle" "e \<noteq> Pull" using inv(3) that ok by auto
      with idle_steps [OF q(1)] ok True have "e = Wake" by auto
      with q(1) \<open>mq_pc ?q t = Idle\<close> show ?thesis by (auto split: if_splits)
    qed
    have "pool_inv n s' (added @ put_in t e ?q) (outs @ map (\<lambda>x. (Some t, x)) xs)"
      by (rule pool_inv_step [where ys = "[]", OF assms(1) _ others])
        (use run xs hand keeps task True in \<open>auto simp: q(2) split: option.splits\<close>)
    then show ?thesis by blast
  next
    case False
    have "pushing (mq_pc ?q t) \<or> mq_pc ?q t = Idle \<and> e \<noteq> Pull \<and> e \<noteq> Clear"
      using inv(2) False ok by auto
    note client = step_client [OF q(1) this]
    have "pr_task s t = None" using inv(3) False by blast
    then have "pool_inv n s' (added @ put_in t e ?q) (outs @ map (\<lambda>x. (Some t, x)) [])"
      by (intro pool_inv_step [where ys = "[]" and xs = "[]", OF assms(1) _ others])
        (use run client False in \<open>auto simp: q(2)\<close>)
    then show ?thesis by auto
  qed
qed

lemma pool_task_inv:
  assumes "pool_inv n s added outs" "pool_step n (RunTask t) s = Some (Inr s')"
  shows "pool_inv n s' added outs"
proof -
  obtain x where x: "pr_task s t = Some x"
    "s' = s\<lparr>pr_task := (pr_task s)(t := None), pr_ran := pr_ran s @ [(t, x)]\<rparr>"
    using assms(2) by (auto split: option.splits)
  have inv: "mq_run (pr_queue s) added outs" "t < n" "mq_pc (pr_queue s) t = Idle"
    using assms(1) x(1) unfolding pool_inv_def by auto
  have "pool_inv n s' added (outs @ map (\<lambda>x. (Some t, x)) [])"
    by (rule pool_inv_step [where ys = "[x]" and xs = "[]", OF assms(1)])
      (use inv x in \<open>auto simp: in_pool_hand_def\<close>)
  then show ?thesis by simp
qed

lemma pool_step_ok:
  assumes "pool_inv n s added outs" "pool_step n e s = Some r"
  shows "\<exists>s'. r = Inr s'"
proof (cases e)
  case (Queue t x)
  have inv: "mq_run (pr_queue s) added outs" using assms(1) unfolding pool_inv_def by blast
  then have "mq_step t x (pr_queue s) \<noteq> Some (Inl f)" for f
    using queue.no_fault [of "(added, outs)" "pr_queue s" "(t, x)" f] mq_run_inv [OF inv] by simp
  with assms(2) Queue show ?thesis by (auto simp: bindO_def split: if_splits option.splits sum.splits)
next
  case (RunTask t)
  with assms(2) show ?thesis by (auto split: option.splits)
qed

interpretation pools: safe_steps "pool_step n" "\<lambda>added s. \<exists>outs. pool_inv n s added outs"
  "\<lambda>e s added. added @ (case e of Queue t x \<Rightarrow> put_in t x (pr_queue s) | RunTask t \<Rightarrow> [])" "\<lambda>_ _. True" for n
proof unfold_locales
  fix added s e r
  assume a: "\<exists>outs. pool_inv n s added outs" "pool_step n e s = Some r"
  then obtain outs s' where s': "pool_inv n s added outs" "r = Inr s'" using pool_step_ok by blast
  have "\<exists>outs'. pool_inv n s' (added @ (case e of Queue t x \<Rightarrow> put_in t x (pr_queue s) | RunTask t \<Rightarrow> [])) outs'"
  proof (cases e)
    case (Queue t x)
    with pool_queue_inv [OF s'(1)] a(2) s'(2) show ?thesis by simp
  next
    case (RunTask t)
    with pool_task_inv [OF s'(1), of t s'] a(2) s'(2) show ?thesis by auto
  qed
  with s'(2) show "\<exists>s'. r = Inr s' \<and>
    (\<exists>outs. pool_inv n s' (added @ (case e of Queue t x \<Rightarrow> put_in t x (pr_queue s) | RunTask t \<Rightarrow> [])) outs)" by blast
qed

lemma pool_run_inv: "pool_run n s added \<Longrightarrow> \<exists>outs. pool_inv n s added outs"
proof (induction rule: pool_run.induct)
  case pool_start
  show ?case using pool_inv_new by blast
next
  case (pool_queue s added t e s')
  from pools.step_keeps [OF pool_queue(3) _ pool_queue(2)] show ?case by simp
next
  case (pool_task s added t s')
  from pools.step_keeps [OF pool_task(3) _ pool_task(2)] show ?case by simp
qed

text \<open>Nobody can go on: no worker, and no client that is inside a call.\<close>

definition pool_quiet :: "nat \<Rightarrow> 'a pool_run_state \<Rightarrow> bool" where
  "pool_quiet n s \<longleftrightarrow>
     (\<forall>t. pool_step n (RunTask t) s = None \<and> (\<forall>e \<in> {Lock, Body, Return}. pool_step n (Queue t e) s = None)) \<and>
     (\<forall>t < n. pool_step n (Queue t Pull) s = None)"

lemma pool_quietD:
  assumes "pool_quiet n s"
  shows "pool_step n (RunTask t) s = None" "e \<in> {Lock, Body, Return} \<Longrightarrow> pool_step n (Queue t e) s = None"
    "t < n \<Longrightarrow> pool_step n (Queue t Pull) s = None"
  using assms unfolding pool_quiet_def by (auto simp del: pool_step.simps)

lemma quiet_empty:
  assumes "pool_inv n s added outs" "pool_quiet n s" "0 < n"
  shows "mq_q (pr_queue s) = [] \<and> (\<forall>w. in_pool_hand w s = [])"
proof -
  have quiet: "pr_task s t = None" "\<forall>e \<in> {Lock, Body, Return}. mq_step t e (pr_queue s) = None" for t
  proof -
    have "pool_step n (RunTask t) s = None" using assms(2) unfolding pool_quiet_def by blast
    then show "pr_task s t = None" by (cases "pr_task s t") simp_all
    have none: "mq_step t e (pr_queue s) = None" if "e \<in> {Lock, Body, Return}" for e
    proof -
      have "pool_step n (Queue t e) s = None" by (rule pool_quietD(2) [OF assms(2) that])
      moreover have "allowed n t e s" using that by auto
      moreover have "\<exists>q. r = Inr q" if "mq_step t e (pr_queue s) = Some r" for r
        using assms(1) that mq_run_inv mq_step_inv unfolding pool_inv_def by blast
      ultimately show ?thesis
      proof (cases "mq_step t e (pr_queue s)")
        case (Some r)
        with \<open>\<And>r. mq_step t e (pr_queue s) = Some r \<Longrightarrow> \<exists>q. r = Inr q\<close> obtain q where "r = Inr q" by blast
        with Some \<open>allowed n t e s\<close> \<open>pool_step n (Queue t e) s = None\<close> show ?thesis by simp
      qed
    qed
    show "\<forall>e \<in> {Lock, Body, Return}. mq_step t e (pr_queue s) = None" by (rule ballI) (rule none)
  qed
  have "mq_inv (pr_queue s)" using assms(1) mq_run_inv unfolding pool_inv_def by blast
  from stuck_inv [OF this] quiet(2) have pcs:
    "\<And>t. mq_pc (pr_queue s) t = Idle \<or> mq_pc (pr_queue s) t = InWait \<and> t \<in> mq_cond (pr_queue s)"
    "(\<exists>t. mq_pc (pr_queue s) t = InWait) \<longrightarrow> mq_q (pr_queue s) = []" by blast+
  have "mq_pc (pr_queue s) 0 \<noteq> Idle"
    using assms(2,3) quiet(1) [of 0] by (auto simp: pool_quiet_def bindO_def)
  then have "mq_q (pr_queue s) = []" using pcs by blast
  moreover have "in_pool_hand w s = []" for w
    using pcs(1) [of w] quiet(1) [of w] by (auto simp: in_pool_hand_def)
  ultimately show ?thesis by blast
qed

text \<open>
  Each worker of the pool goes through \<open>thread_routine\<close>: where it is follows from its task and its
  place in the queue, and every step of the pool leaves it there or is a step of the function.
\<close>

definition worker_place :: "'a pool_run_state \<Rightarrow> nat \<Rightarrow> 'a worker_pc" where
  "worker_place s t = (case pr_task s t of Some x \<Rightarrow> AtTask x
     | None \<Rightarrow> if mq_pc (pr_queue s) t = Idle then AtLoop else AtPull)"

lemma worker_place_step:
  assumes "pool_inv n s added outs" "pool_step n e s = Some (Inr s')" "w < n"
  shows "worker_place s' w = worker_place s w \<or>
    (\<exists>pulled. thread_routine pulled (worker_place s w) = Some (worker_place s' w))"
proof (cases e)
  case (Queue t x)
  let ?q = "pr_queue s"
  have ok: "allowed n t x s" using assms(2) Queue by (auto split: if_splits)
  with assms(2) Queue obtain q where q: "mq_step t x ?q = Some (Inr q)" "s' = s\<lparr>pr_queue := q,
      pr_task := (case returned t x ?q of None \<Rightarrow> pr_task s | Some x \<Rightarrow> (pr_task s)(t := Some x))\<rparr>"
    by (auto simp: bindO_def split: option.splits sum.splits)
  have inv: "mq_pc ?q w = Idle \<or> pulling (mq_pc ?q w)" "pr_task s w \<noteq> None \<longrightarrow> mq_pc ?q w = Idle"
    using assms(1,3) unfolding pool_inv_def by metis+
  show ?thesis
  proof (cases "w = t")
    case True
    with inv ok assms(3) q(1) show ?thesis unfolding worker_place_def q(2)
      by (cases x; cases "mq_pc ?q t"; cases "pr_task s t")
        (auto simp: lock_defs MQ_pull_def bindR_eq_Inr_iff split: option.splits if_splits list.splits)
  next
    case False
    then have "worker_place s' w = worker_place s w"
      using mq_step_others [OF q(1) False] by (simp add: worker_place_def q(2) split: option.split)
    then show ?thesis ..
  qed
next
  case (RunTask t)
  then obtain x where x: "pr_task s t = Some x"
    "s' = s\<lparr>pr_task := (pr_task s)(t := None), pr_ran := pr_ran s @ [(t, x)]\<rparr>"
    using assms(2) by (auto split: option.splits)
  moreover have "mq_pc (pr_queue s) t = Idle" using assms(1) x(1) unfolding pool_inv_def by auto
  ultimately show ?thesis by (auto simp: worker_place_def)
qed

fun pool_steps :: "nat \<Rightarrow> 'a pool_event list \<Rightarrow> 'a pool_run_state \<Rightarrow> ('a pool_run_state \<times> 'a list) option" where
  "pool_steps n [] s = Some (s, [])"
| "pool_steps n (e # es) s =
     (case pool_step n e s of
        Some (Inr s') \<Rightarrow> (case pool_steps n es s' of
            Some (u, added) \<Rightarrow> Some (u, (case e of Queue t x \<Rightarrow> put_in t x (pr_queue s) | _ \<Rightarrow> []) @ added) | None \<Rightarrow> None)
      | _ \<Rightarrow> None)"

lemma pool_steps_run:
  "pool_run n s added \<Longrightarrow> pool_steps n es s = Some (u, added') \<Longrightarrow> pool_run n u (added @ added')"
proof (induction es arbitrary: s added added')
  case (Cons e es)
  from Cons.prems(2) obtain s' a where s': "pool_step n e s = Some (Inr s')" "pool_steps n es s' = Some (u, a)"
    "added' = (case e of Queue t x \<Rightarrow> put_in t x (pr_queue s) | _ \<Rightarrow> []) @ a"
    by (auto split: option.splits sum.splits simp del: pool_step.simps)
  show ?case
  proof (cases e)
    case (Queue t x)
    with Cons.IH [OF pool_queue [OF Cons.prems(1)] s'(2)] s' show ?thesis by simp
  next
    case (RunTask t)
    with Cons.IH [OF pool_task [OF Cons.prems(1)] s'(2)] s' show ?thesis by simp
  qed
qed simp

subsection \<open>Properties\<close>

text \<open>
  C8: In every interleaving of clients that add tasks and \<open>n\<close> workers, the workers take the tasks
  in the order they were added, each task goes to one worker, and each worker has run the tasks it
  took in their order, but for the one in hand. No step faults. When nobody can go on, every task
  ever added has been run exactly once.
\<close>

theorem pool_runs_every_task:
  assumes "pool_run n s added" "0 < n"
  shows "\<exists>outs. added = map snd outs @ mq_q (pr_queue s) \<and> (\<forall>o' \<in> set outs. \<exists>w < n. fst o' = Some w) \<and>
    (\<forall>w < n. pulled_by w outs = ran_by w (pr_ran s) @ in_pool_hand w s) \<and>
    pool_step n e s \<noteq> Some (Inl f) \<and> (pool_quiet n s \<longrightarrow> mset (map snd (pr_ran s)) = mset added)"
proof -
  obtain outs where inv: "pool_inv n s added outs" using pool_run_inv [OF assms(1)] by blast
  have "pool_step n e s \<noteq> Some (Inl f)" using pools.no_fault [OF pool_run_inv [OF assms(1)]] by simp
  moreover have "added = map snd outs @ mq_q (pr_queue s)"
    using inv mq_run_inv unfolding pool_inv_def by blast
  moreover have "mset (map snd outs) = mset (map snd (pr_ran s))" if "pool_quiet n s"
    using quiet_empty [OF inv that assms(2)] inv unfolding pool_inv_def by simp
  ultimately show ?thesis
    using inv quiet_empty [OF inv _ assms(2)] unfolding pool_inv_def
    by (intro exI [of _ outs]) (auto simp del: pool_step.simps)
qed

definition sample_tasks :: "nat pool_event list" where
  "sample_tasks =
     [Queue 5 (Push 7), Queue 5 Lock, Queue 5 Body, Queue 0 Pull, Queue 5 Return, Queue 0 Lock, Queue 0 Body,
      Queue 0 Return, RunTask 0, Queue 0 Pull, Queue 0 Lock, Queue 0 Body]"

theorem pool_runs_every_task_witness:
  "\<exists>s. pool_run 1 s [7] \<and> mset (map snd (pr_ran s)) = {#7 :: nat#}"
proof -
  have "\<exists>s :: nat pool_run_state. pool_steps 1 sample_tasks pool_new = Some (s, [7]) \<and> pr_task s = (\<lambda>_. None) \<and>
      mq_mutex (pr_queue s) = None \<and> (\<forall>t. mq_pc (pr_queue s) t = (if t = 0 then InWait else Idle)) \<and>
      mq_cond (pr_queue s) = {0}"
    by (simp add: sample_tasks_def pool_new_def MQ_new_def MQ_push_def MQ_pull_def lock_defs fun_upd_idem)
  then obtain s :: "nat pool_run_state" where s: "pool_steps 1 sample_tasks pool_new = Some (s, [7])"
    "pr_task s = (\<lambda>_. None)" "mq_mutex (pr_queue s) = None"
    "\<And>t. mq_pc (pr_queue s) t = (if t = 0 then InWait else Idle)" "mq_cond (pr_queue s) = {0}" by blast
  have run: "pool_run 1 s [7]" using pool_steps_run [OF pool_start s(1)] by simp
  have "pool_quiet 1 s" by (simp add: pool_quiet_def s(2-5))
  with pool_runs_every_task [OF run] run show ?thesis by auto
qed

text \<open>
  C38: A pool made for \<open>num\<close> threads says it has \<open>num\<close> of them, at least none and at most six, and
  has twice as many: its constructor sets them up two times. They can all be started, once: when
  there is at least one, the second \<open>start\<close> ends in a failed assertion, and \<open>join\<close> never returns,
  whatever the threads do in \<open>thread_routine\<close>: at no moment of any run has the function returned.
  For a pool of no threads both return at once.
\<close>

theorem pool_threads:
  assumes "\<forall>i. worker_run (runs i)"
  shows "let p = fst (ThreadPool_new num c); n = max 0 (min 6 num) in
   tp_numThreads p = n \<and> length (tp_threads p) = 2 * nat n \<and>
   (case ThreadPool_start p of Inl e \<Rightarrow> False
    | Inr p' \<Rightarrow> length (tp_threads p') = 2 * nat n \<and> list_all th_started (tp_threads p') \<and>
        (ThreadPool_start p' = Inl AssertFailed \<longleftrightarrow> 0 < n) \<and>
        (ThreadPool_join (\<lambda>i. \<exists>k. runs i k = Returned) p' = None \<longleftrightarrow> 0 < n))"
proof -
  let ?p = "fst (ThreadPool_new num c)"
  define n where "n = max 0 (min 6 num)"
  define ended where "ended i = (\<exists>k. runs i k = Returned)" for i
  have ended: "\<not> ended 0" using worker_stays assms by (auto simp: ended_def)
  obtain ts where ts: "tp_threads ?p = ts" "length ts = 2 * nat n" "tp_numThreads ?p = n"
    "\<forall>th \<in> set ts. \<not> th_started th \<and> \<not> th_joined th" unfolding n_def using pool_new_threads [of num c] by blast
  let ?us = "map (\<lambda>th. th\<lparr>th_started := True\<rparr>) ts"
  have start: "ThreadPool_start ?p = Inr (?p\<lparr>tp_threads := ?us\<rparr>)"
    using start_all [of ts "[]"] ts(1,4) by (simp add: ThreadPool_start_def)
  have "ThreadPool_start (?p\<lparr>tp_threads := ?us\<rparr>) = Inl AssertFailed \<longleftrightarrow> ts \<noteq> []"
    "ThreadPool_join ended (?p\<lparr>tp_threads := ?us\<rparr>) = None \<longleftrightarrow> ts \<noteq> []"
    using second_start [of ?us] ended by (simp_all add: ts(4))
  moreover have "length ts = 0 \<longleftrightarrow> \<not> 0 < n" unfolding ts(2) by auto
  then have "ts \<noteq> [] \<longleftrightarrow> 0 < n" by simp
  moreover have "length ?us = 2 * nat n" "list_all th_started ?us" by (simp_all add: ts(2) list_all_iff)
  ultimately show ?thesis unfolding Let_def start sum.case n_def [symmetric] ended_def [symmetric]
    using ts(1-3) by (intro conjI) simp_all
qed

text \<open>A pool of three threads whose first one waits for a task that never comes, the others not even that.\<close>

theorem pool_threads_witness:
  "\<exists>p'. ThreadPool_start (fst (ThreadPool_new 3 0)) = Inr p' \<and> length (tp_threads p') = 6 \<and>
     ThreadPool_join (\<lambda>i. \<exists>k :: nat. (if i = (0 :: nat) \<and> 0 < k then AtPull else AtLoop :: nat worker_pc) = Returned) p' = None"
proof -
  have "\<forall>i. worker_run ((\<lambda>i k. if i = (0 :: nat) \<and> 0 < k then AtPull else AtLoop :: nat worker_pc) i)"
    by (auto simp: worker_run_def)
  from pool_threads [OF this, of 3 0] show ?thesis
    by (cases "ThreadPool_start (fst (ThreadPool_new 3 0))") (simp_all add: Let_def)
qed

end
