(* ===== verification/Fiber.thy ===== *)
theory Fiber
  imports Prelude
begin

text \<open>
  Coroutines, \<open>cct/fiber.h\<close> and \<open>cct/fiber.cpp\<close>: a thread runs either on its own stack or on that
  of one of its fibers, and \<open>swapcontext\<close> moves between them. The state holds the variables of
  the thread, its fibers with the references to them, and the flow of control that runs.
\<close>

subsection \<open>State\<close>

datatype fiber_status = FREE | INIT | RUNNABLE | RUNNING | SLEEPING | EXCEPT

text \<open>A flow of control is named by its stack.\<close>

datatype flow = ThreadFlow | FiberFlow nat

text \<open>Where a saved context goes on: at the start of \<open>MainFunc\<close>, behind a swap, behind that of \<open>FiberExit\<close>.\<close>

datatype cont = AtEntry | InSwap | InExit

text \<open>
  \<open>fb_handles\<close>: the references the client holds. \<open>fb_own\<close>: whether \<open>MainFunc\<close> holds one in its
  local variable \<open>cur\<close>, which it does from its start to \<open>FiberExit\<close>. \<open>fb_stack\<close>: the size of its stack.
\<close>

record fiber =
  fb_status :: fiber_status
  fb_cb :: bool
  fb_ctx :: "flow \<times> cont"
  fb_own :: bool
  fb_handles :: nat
  fb_stack :: nat

text \<open>\<open>sc_pos\<close>: what the running flow does, on a fiber: starting \<open>MainFunc\<close>, user code, or leaving.\<close>

datatype flow_pos = Entry | User | Leaving

record sched =
  sc_fibers :: "nat \<rightharpoonup> fiber"
  sc_cur :: "nat option"     \<comment> \<open>\<open>t_curFiber\<close>\<close>
  sc_main :: "nat option"    \<comment> \<open>\<open>t_threadFiber\<close>\<close>
  sc_flow :: flow
  sc_pos :: flow_pos
  sc_ids :: nat
  sc_total :: int
  sc_stack_size :: nat       \<comment> \<open>the value of \<open>g_config_stack_size\<close>\<close>

definition sched_init :: sched where
  "sched_init = \<lparr>sc_fibers = Map.empty, sc_cur = None, sc_main = None, sc_flow = ThreadFlow, sc_pos = User,
     sc_ids = 0, sc_total = 0, sc_stack_size = 5 * 1024 * 1024\<rparr>"

definition the_fiber :: "nat \<Rightarrow> sched \<Rightarrow> fiber res" where
  "the_fiber f s = (case sc_fibers s f of None \<Rightarrow> Inl UseAfterFree | Some x \<Rightarrow> Inr x)"

definition upd_fiber :: "nat \<Rightarrow> (fiber \<Rightarrow> fiber) \<Rightarrow> sched \<Rightarrow> sched res" where
  "upd_fiber f u s = bindR (the_fiber f s) (\<lambda>x. Inr (s\<lparr>sc_fibers := (sc_fibers s)(f \<mapsto> u x)\<rparr>))"

subsection \<open>Constructors and destructor\<close>

text \<open>
  The two constructors: \<open>cb\<close> is whether there is a callback, \<open>st\<close> the first status. A stack of size
  0 is not asked for: it means the configured size.
\<close>

definition Fiber_create :: "fiber_status \<Rightarrow> bool \<Rightarrow> nat \<Rightarrow> nat \<Rightarrow> sched \<Rightarrow> sched" where
  "Fiber_create st cb stackSize handles s =
     (let f = sc_ids s in
      s\<lparr>sc_ids := f + 1, sc_total := sc_total s + 1, sc_fibers := (sc_fibers s)(f \<mapsto>
         \<lparr>fb_status = st, fb_cb = cb, fb_ctx = (FiberFlow f, AtEntry), fb_own = False, fb_handles = handles,
          fb_stack = stackSize\<rparr>)\<rparr>)"

definition Fiber_new_main :: "sched \<Rightarrow> sched" where
  "Fiber_new_main s = Fiber_create FREE False (sc_stack_size s) 0 s"

definition Fiber_new :: "bool \<Rightarrow> nat \<Rightarrow> sched \<Rightarrow> sched" where
  "Fiber_new cb stackSize s = Fiber_create INIT cb (if stackSize = 0 then sc_stack_size s else stackSize) 1 s"

text \<open>
  A reference to \<open>f\<close> is gone. Behind the last one the destructor runs; it frees the stack, which
  must not be the one it runs on.
\<close>

definition Fiber_destroy :: "nat \<Rightarrow> sched \<Rightarrow> sched res" where
  "Fiber_destroy f s =
     bindR (the_fiber f s) (\<lambda>x.
     bindR (assertR (fb_status x = FREE \<or> fb_status x = EXCEPT)) (\<lambda>_.
       if sc_flow s = FiberFlow f then Inl UseAfterFree
       else Inr (s\<lparr>sc_fibers := (sc_fibers s)(f := None), sc_total := sc_total s - 1\<rparr>)))"

definition release :: "nat \<Rightarrow> sched \<Rightarrow> sched res" where
  "release f s =
     bindR (the_fiber f s) (\<lambda>x.
       if fb_handles x = 0 \<and> \<not> fb_own x \<and> sc_cur s \<noteq> Some f \<and> sc_main s \<noteq> Some f
       then Fiber_destroy f s else Inr s)"

subsection \<open>The current fiber\<close>

definition SetThis :: "nat option \<Rightarrow> sched \<Rightarrow> sched res" where
  "SetThis f s =
     (let s1 = s\<lparr>sc_cur := f\<rparr> in case sc_cur s of None \<Rightarrow> Inr s1 | Some old \<Rightarrow> release old s1)"

definition GetThis :: "sched \<Rightarrow> sched res" where
  "GetThis s =
     (case sc_main s of
        Some m \<Rightarrow> Inr s
      | None \<Rightarrow>
          let s1 = (Fiber_new_main s)\<lparr>sc_main := Some (sc_ids s)\<rparr> in SetThis (sc_main s1) s1)"

subsection \<open>Switching\<close>

text \<open>\<open>swapcontext\<close>: the running flow is saved in the context of \<open>f\<close>, to go on at \<open>k\<close>; that of \<open>g\<close> runs.\<close>

definition swapcontext :: "nat \<Rightarrow> cont \<Rightarrow> nat \<Rightarrow> sched \<Rightarrow> sched res" where
  "swapcontext f k g s =
     bindR (upd_fiber f (\<lambda>x. x\<lparr>fb_ctx := (sc_flow s, k)\<rparr>) s) (\<lambda>s1.
     bindR (the_fiber g s1) (\<lambda>y.
       case fb_ctx y of
         (fl, AtEntry) \<Rightarrow> Inr (s1\<lparr>sc_flow := fl, sc_pos := Entry\<rparr>)
       | (fl, InSwap) \<Rightarrow> Inr (s1\<lparr>sc_flow := fl, sc_pos := User\<rparr>)
       | (fl, InExit) \<Rightarrow> Inl AssertFailed))"

definition main_fiber :: "sched \<Rightarrow> nat res" where
  "main_fiber s = (case sc_main s of None \<Rightarrow> Inl NullDeref | Some m \<Rightarrow> Inr m)"

definition Fiber_swapIn :: "nat \<Rightarrow> sched \<Rightarrow> sched res" where
  "Fiber_swapIn f s =
     bindR (the_fiber f s) (\<lambda>_.
     bindR (SetThis (Some f) s) (\<lambda>s1.
     bindR (upd_fiber f (\<lambda>x. x\<lparr>fb_status := RUNNING\<rparr>) s1) (\<lambda>s2.
     bindR (main_fiber s2) (\<lambda>m. swapcontext m InSwap f s2))))"

text \<open>\<open>swapOut\<close> and \<open>yieldSleeping\<close> differ in the status they leave.\<close>

definition leave_fiber :: "fiber_status \<Rightarrow> nat \<Rightarrow> sched \<Rightarrow> sched res" where
  "leave_fiber st f s =
     bindR (the_fiber f s) (\<lambda>_.
     bindR (SetThis (sc_main s) s) (\<lambda>s1.
     bindR (upd_fiber f (\<lambda>x. x\<lparr>fb_status := st\<rparr>) s1) (\<lambda>s2.
     bindR (main_fiber s2) (\<lambda>m. swapcontext f InSwap m s2))))"

definition Fiber_swapOut :: "nat \<Rightarrow> sched \<Rightarrow> sched res" where
  "Fiber_swapOut f = leave_fiber RUNNABLE f"

definition Fiber_yieldSleeping :: "nat \<Rightarrow> sched \<Rightarrow> sched res" where
  "Fiber_yieldSleeping f = leave_fiber SLEEPING f"

text \<open>\<open>FiberExit\<close> on the fiber \<open>f\<close>: the reference of \<open>MainFunc\<close> goes, then that of \<open>t_curFiber\<close>.\<close>

definition FiberExit :: "nat \<Rightarrow> sched \<Rightarrow> sched res" where
  "FiberExit f s =
     bindR (upd_fiber f (\<lambda>x. x\<lparr>fb_own := False\<rparr>) s) (\<lambda>s1.
     bindR (release f s1) (\<lambda>s2.
     bindR (SetThis (sc_main s2) s2) (\<lambda>s3.
     bindR (main_fiber s3) (\<lambda>m. swapcontext f InExit m s3))))"

subsection \<open>Steps\<close>

text \<open>What the running flow does next. \<open>Copy\<close> and \<open>Drop\<close>: the client's references.\<close>

datatype fiber_event =
    Get | New bool nat | Configure nat | Copy nat | Drop nat | SwapIn nat | SwapOut nat | Yield nat
  | Enter | Finish | Throw | Exit

text \<open>\<open>MainFunc\<close> is \<open>Enter\<close>, the steps of the callback, \<open>Finish\<close> or \<open>Throw\<close>, and \<open>Exit\<close>.\<close>

definition MainFunc_enter :: "nat \<Rightarrow> sched \<Rightarrow> sched res" where
  "MainFunc_enter f s =
     bindR (the_fiber f s) (\<lambda>x.
       if fb_cb x then bindR (upd_fiber f (\<lambda>x. x\<lparr>fb_own := True\<rparr>) s) (\<lambda>s1. Inr (s1\<lparr>sc_pos := User\<rparr>))
       else bindR (upd_fiber f (\<lambda>x. x\<lparr>fb_own := True, fb_status := FREE\<rparr>) s) (\<lambda>s1. Inr (s1\<lparr>sc_pos := Leaving\<rparr>)))"

definition MainFunc_end :: "fiber_status \<Rightarrow> nat \<Rightarrow> sched \<Rightarrow> sched res" where
  "MainFunc_end st f s =
     bindR (upd_fiber f (\<lambda>x. x\<lparr>fb_status := st\<rparr>) s) (\<lambda>s1. Inr (s1\<lparr>sc_pos := Leaving\<rparr>))"

fun fiber_step :: "fiber_event \<Rightarrow> sched \<Rightarrow> sched res option" where
  "fiber_step Enter s =
     (case (sc_flow s, sc_pos s) of (FiberFlow f, Entry) \<Rightarrow> Some (MainFunc_enter f s) | _ \<Rightarrow> None)"
| "fiber_step Finish s =
     (case (sc_flow s, sc_pos s) of (FiberFlow f, User) \<Rightarrow> Some (MainFunc_end FREE f s) | _ \<Rightarrow> None)"
| "fiber_step Throw s =
     (case (sc_flow s, sc_pos s) of (FiberFlow f, User) \<Rightarrow> Some (MainFunc_end EXCEPT f s) | _ \<Rightarrow> None)"
| "fiber_step Exit s =
     (case (sc_flow s, sc_pos s) of (FiberFlow f, Leaving) \<Rightarrow> Some (FiberExit f s) | _ \<Rightarrow> None)"
| "fiber_step Get s = (if sc_pos s = User then Some (GetThis s) else None)"
| "fiber_step (New cb stackSize) s = (if sc_pos s = User then Some (Inr (Fiber_new cb stackSize s)) else None)"
| "fiber_step (Configure n) s = (if sc_pos s = User then Some (Inr (s\<lparr>sc_stack_size := n\<rparr>)) else None)"
| "fiber_step (Copy f) s =
     (if sc_pos s = User then Some (upd_fiber f (\<lambda>x. x\<lparr>fb_handles := fb_handles x + 1\<rparr>) s) else None)"
| "fiber_step (Drop f) s =
     (if sc_pos s \<noteq> User then None
      else Some (bindR (upd_fiber f (\<lambda>x. x\<lparr>fb_handles := fb_handles x - 1\<rparr>) s) (release f)))"
| "fiber_step (SwapIn f) s = (if sc_pos s = User then Some (Fiber_swapIn f s) else None)"
| "fiber_step (SwapOut f) s = (if sc_pos s = User then Some (Fiber_swapOut f s) else None)"
| "fiber_step (Yield f) s = (if sc_pos s = User then Some (Fiber_yieldSleeping f s) else None)"

fun fiber_steps :: "fiber_event list \<Rightarrow> sched \<Rightarrow> sched res option" where
  "fiber_steps [] s = Some (Inr s)"
| "fiber_steps (e # es) s = bindO (fiber_step e s) (fiber_steps es)"

subsection \<open>The discipline\<close>

text \<open>
  The rules the header states, and those the code relies on: fibers are entered from the thread's
  own flow only, by way of a reference the client keeps, and only while they are not finished; a
  fiber leaves only itself; a reference to a fiber that is neither finished nor suspended is not
  the last to be dropped.
\<close>

definition finished :: "fiber \<Rightarrow> bool" where
  "finished x \<longleftrightarrow> fb_status x = FREE \<or> fb_status x = EXCEPT"

fun obeys :: "fiber_event \<Rightarrow> sched \<Rightarrow> bool" where
  "obeys (SwapIn f) s \<longleftrightarrow> sc_flow s = ThreadFlow \<and> sc_main s \<noteq> None \<and> sc_main s \<noteq> Some f \<and>
     (case sc_fibers s f of None \<Rightarrow> False | Some x \<Rightarrow> \<not> finished x \<and> 0 < fb_handles x)"
| "obeys (SwapOut f) s \<longleftrightarrow> sc_flow s = FiberFlow f"
| "obeys (Yield f) s \<longleftrightarrow> sc_flow s = FiberFlow f"
| "obeys (Copy f) s \<longleftrightarrow> (case sc_fibers s f of None \<Rightarrow> False | Some x \<Rightarrow> 0 < fb_handles x)"
| "obeys (Drop f) s \<longleftrightarrow> (case sc_fibers s f of None \<Rightarrow> False
     | Some x \<Rightarrow> 0 < fb_handles x \<and> (fb_handles x = 1 \<longrightarrow> sc_flow s = ThreadFlow \<and> fb_status x \<noteq> INIT))"
| "obeys e s \<longleftrightarrow> True"

text \<open>A fiber that does not run, by its status.\<close>

definition rests :: "nat \<Rightarrow> fiber \<Rightarrow> bool" where
  "rests f x \<longleftrightarrow>
     (case fb_status x of
        INIT \<Rightarrow> fb_ctx x = (FiberFlow f, AtEntry) \<and> \<not> fb_own x \<and> 0 < fb_handles x
      | RUNNABLE \<Rightarrow> fb_ctx x = (FiberFlow f, InSwap) \<and> fb_own x
      | SLEEPING \<Rightarrow> fb_ctx x = (FiberFlow f, InSwap) \<and> fb_own x
      | RUNNING \<Rightarrow> False
      | _ \<Rightarrow> fb_ctx x = (FiberFlow f, InExit) \<and> \<not> fb_own x \<and> 0 < fb_handles x)"

text \<open>The fiber that runs, by what it does.\<close>

definition runs :: "flow_pos \<Rightarrow> fiber \<Rightarrow> bool" where
  "runs pos x \<longleftrightarrow> 0 < fb_handles x \<and>
     (case pos of
        Entry \<Rightarrow> fb_status x = RUNNING \<and> \<not> fb_own x
      | User \<Rightarrow> fb_status x = RUNNING \<and> fb_own x
      | Leaving \<Rightarrow> finished x \<and> fb_own x)"

text \<open>
  The thread's fiber is there once asked for; the current fiber is the one whose flow runs; all
  others rest. While a fiber runs, the thread's context waits behind a swap.
\<close>

definition sched_inv :: "sched \<Rightarrow> bool" where
  "sched_inv s \<longleftrightarrow>
     (\<forall>f. sc_fibers s f \<noteq> None \<longrightarrow> f < sc_ids s) \<and> sc_total s = int (card (dom (sc_fibers s))) \<and>
     (\<forall>m. sc_main s = Some m \<longrightarrow> sc_fibers s m \<noteq> None) \<and>
     (\<forall>f x. sc_fibers s f = Some x \<longrightarrow> sc_main s \<noteq> Some f \<longrightarrow> sc_flow s \<noteq> FiberFlow f \<longrightarrow> rests f x) \<and>
     (case sc_flow s of
        ThreadFlow \<Rightarrow> sc_cur s = sc_main s \<and> sc_pos s = User
      | FiberFlow f \<Rightarrow> sc_cur s = Some f \<and> sc_main s \<noteq> Some f \<and>
          (\<exists>x. sc_fibers s f = Some x \<and> runs (sc_pos s) x) \<and>
          (\<exists>m y. sc_main s = Some m \<and> sc_fibers s m = Some y \<and> fb_ctx y = (ThreadFlow, InSwap)))"

lemmas switch_defs = the_fiber_def upd_fiber_def SetThis_def release_def swapcontext_def main_fiber_def Let_def

lemma sched_inv_init: "sched_inv sched_init"
  by (simp add: sched_inv_def sched_init_def)

lemma sched_invD:
  assumes "sched_inv s"
  shows "\<And>f. sc_fibers s f \<noteq> None \<Longrightarrow> f < sc_ids s" "sc_total s = int (card (dom (sc_fibers s)))"
    "\<And>m. sc_main s = Some m \<Longrightarrow> \<exists>y. sc_fibers s m = Some y"
    "\<And>f x. sc_fibers s f = Some x \<Longrightarrow> sc_main s \<noteq> Some f \<Longrightarrow> sc_flow s \<noteq> FiberFlow f \<Longrightarrow> rests f x"
    "sc_flow s = ThreadFlow \<Longrightarrow> sc_cur s = sc_main s \<and> sc_pos s = User"
    "\<And>f. sc_flow s = FiberFlow f \<Longrightarrow> sc_cur s = Some f \<and> sc_main s \<noteq> Some f \<and>
      (\<exists>x. sc_fibers s f = Some x \<and> runs (sc_pos s) x) \<and>
      (\<exists>m y. sc_main s = Some m \<and> sc_fibers s m = Some y \<and> fb_ctx y = (ThreadFlow, InSwap))"
  using assms unfolding sched_inv_def by auto

lemma finite_fibers: "sched_inv s \<Longrightarrow> finite (dom (sc_fibers s))"
  by (rule finite_subset [of _ "{..<sc_ids s}"]) (auto dest: sched_invD(1))

text \<open>Two fibers change, the flow moves: what is left to show of the invariant.\<close>

lemma sched_inv_upd:
  assumes "sched_inv s" "sc_fibers s f = Some x" "sc_fibers s g = Some y"
    and "s' = s\<lparr>sc_fibers := (sc_fibers s)(f \<mapsto> x', g \<mapsto> y'), sc_cur := cur, sc_flow := fl, sc_pos := pos\<rparr>"
    and "\<And>h z. sc_fibers s' h = Some z \<Longrightarrow> sc_main s \<noteq> Some h \<Longrightarrow> fl \<noteq> FiberFlow h \<Longrightarrow> rests h z"
    and "case fl of ThreadFlow \<Rightarrow> cur = sc_main s \<and> pos = User
      | FiberFlow h \<Rightarrow> cur = Some h \<and> sc_main s \<noteq> Some h \<and> (\<exists>z. sc_fibers s' h = Some z \<and> runs pos z) \<and>
          (\<exists>m z. sc_main s = Some m \<and> sc_fibers s' m = Some z \<and> fb_ctx z = (ThreadFlow, InSwap))"
  shows "sched_inv s'"
proof -
  have dom: "dom (sc_fibers s') = dom (sc_fibers s)" using assms(2-4) by auto
  have "h < sc_ids s'" if "sc_fibers s' h \<noteq> None" for h
    using sched_invD(1) [OF assms(1), of h] that dom assms(4) by (auto simp: dom_def)
  moreover have "sc_total s' = int (card (dom (sc_fibers s')))"
    using sched_invD(2) [OF assms(1)] dom assms(4) by simp
  moreover have "sc_fibers s' m \<noteq> None" if "sc_main s' = Some m" for m
    using sched_invD(3) [OF assms(1), of m] that assms(4) by auto
  ultimately show ?thesis unfolding sched_inv_def using assms(5,6)
    by (cases fl) (auto simp: assms(4) simp del: fun_upd_apply)
qed

text \<open>One fiber changes where it is.\<close>

lemma sched_inv_one:
  assumes "sched_inv s" "sc_fibers s f = Some x"
    and "sc_main s \<noteq> Some f \<Longrightarrow> sc_flow s \<noteq> FiberFlow f \<Longrightarrow> rests f x'"
    and "sc_flow s = FiberFlow f \<Longrightarrow> runs pos x'" "sc_flow s \<noteq> FiberFlow f \<Longrightarrow> pos = sc_pos s"
    and "fb_ctx x' = fb_ctx x"
  shows "sched_inv (s\<lparr>sc_fibers := (sc_fibers s)(f \<mapsto> x'), sc_pos := pos\<rparr>)"
proof -
  let ?s' = "s\<lparr>sc_fibers := (sc_fibers s)(f \<mapsto> x', f \<mapsto> x'), sc_cur := sc_cur s, sc_flow := sc_flow s, sc_pos := pos\<rparr>"
  have "sched_inv ?s'"
  proof (rule sched_inv_upd [OF assms(1,2,2) refl])
    fix h z
    assume "sc_fibers ?s' h = Some z" "sc_main s \<noteq> Some h" "sc_flow s \<noteq> FiberFlow h"
    with assms(3) sched_invD(4) [OF assms(1), of h z] show "rests h z" by (auto split: if_splits)
  next
    show "case sc_flow s of ThreadFlow \<Rightarrow> sc_cur s = sc_main s \<and> pos = User
      | FiberFlow h \<Rightarrow> sc_cur s = Some h \<and> sc_main s \<noteq> Some h \<and> (\<exists>z. sc_fibers ?s' h = Some z \<and> runs pos z) \<and>
          (\<exists>m z. sc_main s = Some m \<and> sc_fibers ?s' m = Some z \<and> fb_ctx z = (ThreadFlow, InSwap))"
    proof (cases "sc_flow s")
      case ThreadFlow
      with sched_invD(5) [OF assms(1)] assms(5) show ?thesis by simp
    next
      case (FiberFlow h)
      from sched_invD(6) [OF assms(1) this] obtain z m y where h: "sc_cur s = Some h" "sc_main s = Some m" "m \<noteq> h"
        "sc_fibers s h = Some z" "runs (sc_pos s) z" "sc_fibers s m = Some y" "fb_ctx y = (ThreadFlow, InSwap)" by auto
      have "\<exists>z. sc_fibers ?s' h = Some z \<and> runs pos z"
        using FiberFlow h(4,5) assms(4,5) by (cases "h = f") auto
      moreover have "\<exists>z. sc_fibers ?s' m = Some z \<and> fb_ctx z = (ThreadFlow, InSwap)"
        using h(6,7) assms(2,6) by (cases "m = f") auto
      ultimately show ?thesis using FiberFlow h(1-3) by simp
    qed
  qed
  then show ?thesis by simp
qed

lemma release_main: "sched_inv s \<Longrightarrow> sc_main s = Some m \<Longrightarrow> release m (s\<lparr>sc_cur := c\<rparr>) = Inr (s\<lparr>sc_cur := c\<rparr>)"
  using sched_invD(3) [of s m] by (auto simp: release_def the_fiber_def)

lemma swapIn_inv:
  assumes "sched_inv s" "obeys (SwapIn f) s"
  shows "\<exists>s' x. sc_fibers s f = Some x \<and> Fiber_swapIn f s = Inr s' \<and> sched_inv s' \<and> sc_main s' = sc_main s \<and>
    sc_flow s' = FiberFlow f \<and> sc_pos s' = (if fb_status x = INIT then Entry else User) \<and>
    sc_fibers s' f = Some (x\<lparr>fb_status := RUNNING\<rparr>)"
proof -
  obtain m x where m: "sc_flow s = ThreadFlow" "sc_main s = Some m" "m \<noteq> f" "sc_fibers s f = Some x"
    "\<not> finished x" "0 < fb_handles x"
    using assms(2) by (auto split: option.splits)
  obtain y where y: "sc_fibers s m = Some y" using sched_invD(3) [OF assms(1) m(2)] by blast
  have cur: "sc_cur s = Some m" using sched_invD(5) [OF assms(1) m(1)] m(2) by simp
  have rest: "rests f x" using sched_invD(4) [OF assms(1) m(4)] m(1-3) by simp
  let ?pos = "if fb_status x = INIT then Entry else User"
  let ?s' = "s\<lparr>sc_fibers := (sc_fibers s)(f \<mapsto> x\<lparr>fb_status := RUNNING\<rparr>, m \<mapsto> y\<lparr>fb_ctx := (ThreadFlow, InSwap)\<rparr>),
    sc_cur := Some f, sc_flow := FiberFlow f, sc_pos := ?pos\<rparr>"
  have ctx: "fb_ctx x = (FiberFlow f, if fb_status x = INIT then AtEntry else InSwap)" "fb_own x \<longleftrightarrow> fb_status x \<noteq> INIT"
    using rest m(5) by (auto simp: rests_def finished_def split: fiber_status.splits)
  have "SetThis (Some f) s = Inr (s\<lparr>sc_cur := Some f\<rparr>)"
    using release_main [OF assms(1) m(2)] by (simp add: SetThis_def cur)
  then have step: "Fiber_swapIn f s = Inr ?s'"
    using m y ctx(1) by (simp add: Fiber_swapIn_def the_fiber_def upd_fiber_def main_fiber_def swapcontext_def)
  have "sched_inv ?s'"
  proof (rule sched_inv_upd [OF assms(1) m(4) y refl])
    fix h z
    assume "sc_fibers ?s' h = Some z" "sc_main s \<noteq> Some h" "FiberFlow f \<noteq> FiberFlow h"
    with sched_invD(4) [OF assms(1), of h z] m show "rests h z" by (auto split: if_splits)
  qed (use m ctx(2) in \<open>auto simp: runs_def\<close>)
  with step m show ?thesis by (intro exI [of _ ?s'] exI [of _ x]) simp
qed

lemma leave_inv:
  assumes "sched_inv s" "sc_flow s = FiberFlow f" "sc_pos s = User" "st \<in> {RUNNABLE, SLEEPING}"
  shows "\<exists>s' x. sc_fibers s f = Some x \<and> leave_fiber st f s = Inr s' \<and> sched_inv s' \<and> sc_main s' = sc_main s \<and>
    sc_flow s' = ThreadFlow \<and> sc_fibers s' f = Some (x\<lparr>fb_status := st, fb_ctx := (FiberFlow f, InSwap)\<rparr>)"
proof -
  obtain m x y where m: "sc_cur s = Some f" "sc_main s = Some m" "m \<noteq> f" "sc_fibers s f = Some x" "runs User x"
    "sc_fibers s m = Some y" "fb_ctx y = (ThreadFlow, InSwap)"
    using sched_invD(6) [OF assms(1,2)] assms(3) by auto
  let ?x' = "x\<lparr>fb_status := st, fb_ctx := (FiberFlow f, InSwap)\<rparr>"
  let ?s' = "s\<lparr>sc_fibers := (sc_fibers s)(f \<mapsto> ?x', f \<mapsto> ?x'), sc_cur := Some m, sc_flow := ThreadFlow, sc_pos := User\<rparr>"
  have "SetThis (Some m) s = Inr (s\<lparr>sc_cur := Some m\<rparr>)"
    using m(4,5) by (simp add: SetThis_def m(1) release_def the_fiber_def runs_def)
  then have step: "leave_fiber st f s = Inr ?s'"
    using m assms(2) by (simp add: leave_fiber_def the_fiber_def upd_fiber_def main_fiber_def swapcontext_def)
  have "sched_inv ?s'"
  proof (rule sched_inv_upd [OF assms(1) m(4,4) refl])
    fix h z
    assume "sc_fibers ?s' h = Some z" "sc_main s \<noteq> Some h" "ThreadFlow \<noteq> FiberFlow h"
    with sched_invD(4) [OF assms(1), of h z] m assms(2,4) show "rests h z"
      by (cases "h = f") (auto simp: rests_def runs_def)
  qed (use m in simp)
  with step m show ?thesis by (intro exI [of _ ?s'] exI [of _ x]) simp
qed

lemma exit_inv:
  assumes "sched_inv s" "sc_flow s = FiberFlow f" "sc_pos s = Leaving"
  shows "\<exists>s' x. sc_fibers s f = Some x \<and> FiberExit f s = Inr s' \<and> sched_inv s' \<and> sc_main s' = sc_main s \<and>
    sc_flow s' = ThreadFlow \<and> sc_fibers s' f = Some (x\<lparr>fb_own := False, fb_ctx := (FiberFlow f, InExit)\<rparr>)"
proof -
  obtain m x y where m: "sc_cur s = Some f" "sc_main s = Some m" "m \<noteq> f" "sc_fibers s f = Some x" "runs Leaving x"
    "sc_fibers s m = Some y" "fb_ctx y = (ThreadFlow, InSwap)"
    using sched_invD(6) [OF assms(1,2)] assms(3) by auto
  let ?x' = "x\<lparr>fb_own := False, fb_ctx := (FiberFlow f, InExit)\<rparr>"
  let ?s' = "s\<lparr>sc_fibers := (sc_fibers s)(f \<mapsto> ?x', f \<mapsto> ?x'), sc_cur := Some m, sc_flow := ThreadFlow, sc_pos := User\<rparr>"
  have step: "FiberExit f s = Inr ?s'"
    using m assms(2) by (simp add: FiberExit_def SetThis_def release_def the_fiber_def upd_fiber_def main_fiber_def
        swapcontext_def runs_def)
  have "sched_inv ?s'"
  proof (rule sched_inv_upd [OF assms(1) m(4,4) refl])
    fix h z
    assume "sc_fibers ?s' h = Some z" "sc_main s \<noteq> Some h" "ThreadFlow \<noteq> FiberFlow h"
    with sched_invD(4) [OF assms(1), of h z] m assms(2) show "rests h z"
      by (cases "h = f") (auto simp: rests_def runs_def finished_def)
  qed (use m in simp)
  with step m show ?thesis by (intro exI [of _ ?s'] exI [of _ x]) simp
qed

lemma enter_inv:
  assumes "sched_inv s" "sc_flow s = FiberFlow f" "sc_pos s = Entry"
  shows "\<exists>s' x. sc_fibers s f = Some x \<and> MainFunc_enter f s = Inr s' \<and> sched_inv s' \<and> sc_main s' = sc_main s \<and>
    sc_flow s' = FiberFlow f \<and> (fb_cb x \<longrightarrow> sc_pos s' = User \<and> sc_fibers s' f = Some (x\<lparr>fb_own := True\<rparr>))"
proof -
  obtain x where x: "sc_fibers s f = Some x" "runs Entry x" "sc_main s \<noteq> Some f"
    using sched_invD(6) [OF assms(1,2)] assms(3) by auto
  let ?x' = "if fb_cb x then x\<lparr>fb_own := True\<rparr> else x\<lparr>fb_own := True, fb_status := FREE\<rparr>"
  let ?s' = "s\<lparr>sc_fibers := (sc_fibers s)(f \<mapsto> ?x'), sc_pos := if fb_cb x then User else Leaving\<rparr>"
  have "MainFunc_enter f s = Inr ?s'" using x(1) by (simp add: MainFunc_enter_def the_fiber_def upd_fiber_def)
  moreover have "sched_inv ?s'"
    by (rule sched_inv_one [OF assms(1) x(1)]) (use x(2) assms(2) in \<open>auto simp: runs_def finished_def\<close>)
  ultimately show ?thesis using x(1) assms(2) by (intro exI [of _ ?s'] exI [of _ x]) simp
qed

lemma end_inv:
  assumes "sched_inv s" "sc_flow s = FiberFlow f" "sc_pos s = User" "st \<in> {FREE, EXCEPT}"
  shows "\<exists>s' x. sc_fibers s f = Some x \<and> MainFunc_end st f s = Inr s' \<and> sched_inv s' \<and> sc_main s' = sc_main s \<and>
    sc_flow s' = FiberFlow f \<and> sc_pos s' = Leaving \<and> sc_fibers s' f = Some (x\<lparr>fb_status := st\<rparr>)"
proof -
  obtain x where x: "sc_fibers s f = Some x" "runs User x" "sc_main s \<noteq> Some f"
    using sched_invD(6) [OF assms(1,2)] assms(3) by auto
  let ?s' = "s\<lparr>sc_fibers := (sc_fibers s)(f \<mapsto> x\<lparr>fb_status := st\<rparr>), sc_pos := Leaving\<rparr>"
  have "MainFunc_end st f s = Inr ?s'" using x(1) by (simp add: MainFunc_end_def the_fiber_def upd_fiber_def)
  moreover have "sched_inv ?s'"
    by (rule sched_inv_one [OF assms(1) x(1)]) (use x(2) assms(2,4) in \<open>auto simp: runs_def finished_def\<close>)
  ultimately show ?thesis using x(1) assms(2) by (intro exI [of _ ?s'] exI [of _ x]) simp
qed

lemma sched_invI:
  assumes "\<And>f. sc_fibers s f \<noteq> None \<Longrightarrow> f < sc_ids s" "sc_total s = int (card (dom (sc_fibers s)))"
    "\<And>m. sc_main s = Some m \<Longrightarrow> sc_fibers s m \<noteq> None"
    "\<And>f x. sc_fibers s f = Some x \<Longrightarrow> sc_main s \<noteq> Some f \<Longrightarrow> sc_flow s \<noteq> FiberFlow f \<Longrightarrow> rests f x"
    "sc_flow s = ThreadFlow \<Longrightarrow> sc_cur s = sc_main s \<and> sc_pos s = User"
    "\<And>f. sc_flow s = FiberFlow f \<Longrightarrow> sc_cur s = Some f \<and> sc_main s \<noteq> Some f \<and>
      (\<exists>x. sc_fibers s f = Some x \<and> runs (sc_pos s) x) \<and>
      (\<exists>m y. sc_main s = Some m \<and> sc_fibers s m = Some y \<and> fb_ctx y = (ThreadFlow, InSwap))"
  shows "sched_inv s"
  unfolding sched_inv_def using assms by (cases "sc_flow s") auto

text \<open>A new fiber, under a number that was not used yet.\<close>

lemma create_inv:
  assumes "sched_inv s" "s' = Fiber_create st cb sz n s"
  shows "sc_fibers s (sc_ids s) = None" "\<And>f. sc_fibers s' f \<noteq> None \<Longrightarrow> f < sc_ids s'"
    "sc_total s' = int (card (dom (sc_fibers s')))"
proof -
  show fresh: "sc_fibers s (sc_ids s) = None"
    using sched_invD(1) [OF assms(1), of "sc_ids s"] by (cases "sc_fibers s (sc_ids s)") auto
  show "f < sc_ids s'" if "sc_fibers s' f \<noteq> None" for f
    using sched_invD(1) [OF assms(1), of f] that by (auto simp: assms(2) Fiber_create_def Let_def split: if_splits)
  have "card (insert (sc_ids s) (dom (sc_fibers s))) = Suc (card (dom (sc_fibers s)))"
    using finite_fibers [OF assms(1)] fresh by (intro card_insert_disjoint) auto
  then show "sc_total s' = int (card (dom (sc_fibers s')))"
    using sched_invD(2) [OF assms(1)] by (simp add: assms(2) Fiber_create_def Let_def)
qed

lemma new_inv: "sched_inv s \<Longrightarrow> sched_inv (Fiber_new cb sz s)"
proof -
  assume s: "sched_inv s"
  note c = create_inv [where st = INIT and cb = cb and sz = "if sz = 0 then sc_stack_size s else sz" and n = 1, OF s refl,
    folded Fiber_new_def]
  have fib: "sc_fibers (Fiber_new cb sz s) f = (if f = sc_ids s then Some \<lparr>fb_status = INIT, fb_cb = cb,
      fb_ctx = (FiberFlow f, AtEntry), fb_own = False, fb_handles = 1,
      fb_stack = if sz = 0 then sc_stack_size s else sz\<rparr> else sc_fibers s f)"
    "sc_main (Fiber_new cb sz s) = sc_main s" "sc_cur (Fiber_new cb sz s) = sc_cur s" "sc_flow (Fiber_new cb sz s) = sc_flow s"
    "sc_pos (Fiber_new cb sz s) = sc_pos s" for f
    by (simp_all add: Fiber_new_def Fiber_create_def Let_def)
  have old: "f \<noteq> sc_ids s" if "sc_fibers s f = Some x" for f x using that c(1) by auto
  show ?thesis
  proof (rule sched_invI)
    fix f x
    assume "sc_fibers (Fiber_new cb sz s) f = Some x" "sc_main (Fiber_new cb sz s) \<noteq> Some f" "sc_flow (Fiber_new cb sz s) \<noteq> FiberFlow f"
    with sched_invD(4) [OF s, of f x] show "rests f x" by (auto simp: fib rests_def split: if_splits)
  next
    fix f
    assume "sc_flow (Fiber_new cb sz s) = FiberFlow f"
    then show "sc_cur (Fiber_new cb sz s) = Some f \<and> sc_main (Fiber_new cb sz s) \<noteq> Some f \<and>
      (\<exists>x. sc_fibers (Fiber_new cb sz s) f = Some x \<and> runs (sc_pos (Fiber_new cb sz s)) x) \<and>
      (\<exists>m y. sc_main (Fiber_new cb sz s) = Some m \<and> sc_fibers (Fiber_new cb sz s) m = Some y \<and> fb_ctx y = (ThreadFlow, InSwap))"
      using sched_invD(6) [OF s, of f] old by (fastforce simp: fib)
  next
    show "f < sc_ids (Fiber_new cb sz s)" if "sc_fibers (Fiber_new cb sz s) f \<noteq> None" for f by (rule c(2) [OF that])
    show "sc_total (Fiber_new cb sz s) = int (card (dom (sc_fibers (Fiber_new cb sz s))))" by (rule c(3))
  qed (use sched_invD(3,5) [OF s] in \<open>auto simp: fib\<close>)
qed

lemma configure_inv: "sched_inv s \<Longrightarrow> sched_inv (s\<lparr>sc_stack_size := n\<rparr>)"
  by (cases "sc_flow s") (simp_all add: sched_inv_def)

text \<open>The stacks: the size asked for or the configured one, kept for the life of the fiber.\<close>

lemma new_stack:
  "map_option fb_stack (sc_fibers (Fiber_new cb sz s) (sc_ids s)) = Some (if sz = 0 then sc_stack_size s else sz)"
  "map_option fb_stack (sc_fibers (Fiber_new_main s) (sc_ids s)) = Some (sc_stack_size s)"
  by (simp_all add: Fiber_new_def Fiber_new_main_def Fiber_create_def Let_def)

lemma get_inv:
  assumes "sched_inv s"
  shows "\<exists>s' m. GetThis s = Inr s' \<and> sched_inv s' \<and> sc_main s' = Some m \<and> sc_flow s' = sc_flow s \<and> sc_pos s' = sc_pos s \<and>
    (\<forall>f. sc_fibers s f \<noteq> None \<longrightarrow> sc_fibers s' f = sc_fibers s f)"
proof (cases "sc_main s")
  case (Some m)
  with assms show ?thesis by (simp add: GetThis_def)
next
  case None
  then have flow: "sc_flow s = ThreadFlow" using sched_invD(6) [OF assms] by (cases "sc_flow s") auto
  have cur: "sc_cur s = None" "sc_pos s = User" using sched_invD(5) [OF assms flow] None by auto
  let ?s' = "(Fiber_new_main s)\<lparr>sc_main := Some (sc_ids s), sc_cur := Some (sc_ids s)\<rparr>"
  note c = create_inv [where st = FREE and cb = False and n = 0, OF assms refl]
  have "GetThis s = Inr ?s'"
    using cur by (simp add: GetThis_def None Let_def SetThis_def Fiber_new_main_def Fiber_create_def)
  moreover have "sched_inv ?s'"
  proof (rule sched_invI)
    fix f x
    assume "sc_fibers ?s' f = Some x" "sc_main ?s' \<noteq> Some f" "sc_flow ?s' \<noteq> FiberFlow f"
    with sched_invD(4) [OF assms, of f x] None flow show "rests f x"
      by (auto simp: Fiber_new_main_def Fiber_create_def Let_def split: if_splits)
  qed (use c flow cur in \<open>auto simp: Fiber_new_main_def Fiber_create_def Let_def split: if_splits\<close>)
  ultimately show ?thesis using c(1)
    by (intro exI [of _ ?s'] exI [of _ "sc_ids s"]) (auto simp: Fiber_new_main_def Fiber_create_def Let_def)
qed

text \<open>References: another one, and one less.\<close>

lemma handles_inv:
  assumes "sched_inv s" "sc_fibers s f = Some x" "0 < n \<or> sc_flow s = ThreadFlow \<and> fb_own x"
  shows "sched_inv (s\<lparr>sc_fibers := (sc_fibers s)(f \<mapsto> x\<lparr>fb_handles := n\<rparr>)\<rparr>)"
proof -
  have "sched_inv (s\<lparr>sc_fibers := (sc_fibers s)(f \<mapsto> x\<lparr>fb_handles := n\<rparr>), sc_pos := sc_pos s\<rparr>)"
  proof (rule sched_inv_one [OF assms(1,2)])
    assume "sc_main s \<noteq> Some f" "sc_flow s \<noteq> FiberFlow f"
    with sched_invD(4) [OF assms(1,2)] assms(3) show "rests f (x\<lparr>fb_handles := n\<rparr>)"
      by (auto simp: rests_def split: fiber_status.splits)
  next
    assume "sc_flow s = FiberFlow f"
    with sched_invD(6) [OF assms(1), of f] assms(2,3) show "runs (sc_pos s) (x\<lparr>fb_handles := n\<rparr>)"
      by (auto simp: runs_def finished_def split: flow_pos.splits)
  qed simp_all
  then show ?thesis by simp
qed

lemma drop_inv:
  assumes "sched_inv s" "sc_fibers s f = Some x" "obeys (Drop f) s" "sc_main s \<noteq> Some f"
  shows "\<exists>s'. fiber_step (Drop f) s = (if sc_pos s = User then Some (Inr s') else None) \<and>
    (sc_pos s = User \<longrightarrow> sched_inv s') \<and>
    (fb_handles x = 1 \<and> finished x \<longrightarrow> s' = s\<lparr>sc_fibers := (sc_fibers s)(f := None), sc_total := sc_total s - 1\<rparr>)"
proof -
  let ?x' = "x\<lparr>fb_handles := fb_handles x - 1\<rparr>"
  let ?s1 = "s\<lparr>sc_fibers := (sc_fibers s)(f \<mapsto> ?x')\<rparr>"
  let ?s2 = "s\<lparr>sc_fibers := (sc_fibers s)(f := None), sc_total := sc_total s - 1\<rparr>"
  have h: "0 < fb_handles x" "fb_handles x = 1 \<longrightarrow> sc_flow s = ThreadFlow \<and> fb_status x \<noteq> INIT"
    using assms(2,3) by auto
  show ?thesis
  proof (cases "fb_handles x = 1 \<and> \<not> fb_own x")
    case True
    then have flow: "sc_flow s = ThreadFlow" "sc_cur s = sc_main s" using h(2) sched_invD(5) [OF assms(1)] by auto
    have "rests f x" using sched_invD(4) [OF assms(1,2)] assms(4) flow(1) by simp
    then have fin: "finished x" using True h(2) by (auto simp: rests_def finished_def split: fiber_status.splits)
    have "fiber_step (Drop f) s = (if sc_pos s = User then Some (Inr ?s2) else None)"
      using True assms(2,4) flow fin
      by (simp add: upd_fiber_def the_fiber_def release_def Fiber_destroy_def finished_def)
    moreover have "sched_inv ?s2"
    proof (rule sched_invI)
      have "card (dom (sc_fibers s)) = Suc (card (dom (sc_fibers s) - {f}))"
        using finite_fibers [OF assms(1)] assms(2) by (intro card.remove) auto
      then show "sc_total ?s2 = int (card (dom (sc_fibers ?s2)))"
        using sched_invD(2) [OF assms(1)] by simp
    qed (use sched_invD(1,3,4,5) [OF assms(1)] assms(4) flow in \<open>auto split: if_splits\<close>)
    ultimately show ?thesis by blast
  next
    case False
    have "release f ?s1 = Inr ?s1" using False h(1) by (auto simp: release_def the_fiber_def)
    then have "fiber_step (Drop f) s = (if sc_pos s = User then Some (Inr ?s1) else None)"
      using assms(2) by (simp add: upd_fiber_def the_fiber_def)
    moreover have "sched_inv ?s1"
      by (rule handles_inv [OF assms(1,2)]) (use False h in auto)
    moreover have "\<not> (fb_handles x = 1 \<and> finished x)"
    proof
      assume fin: "fb_handles x = 1 \<and> finished x"
      with False h(2) sched_invD(4) [OF assms(1,2)] assms(4) have "rests f x" "fb_own x" by auto
      with fin show False by (auto simp: rests_def finished_def)
    qed
    ultimately show ?thesis by blast
  qed
qed

lemma drop_main_inv:
  assumes "sched_inv s" "sc_fibers s f = Some x" "sc_main s = Some f" "sc_pos s = User"
  shows "\<exists>s'. fiber_step (Drop f) s = Some (Inr s') \<and> sched_inv s'"
proof -
  let ?s' = "s\<lparr>sc_fibers := (sc_fibers s)(f \<mapsto> x\<lparr>fb_handles := fb_handles x - 1\<rparr>), sc_pos := sc_pos s\<rparr>"
  have "sc_flow s \<noteq> FiberFlow f" using sched_invD(6) [OF assms(1), of f] assms(3) by auto
  then have "sched_inv ?s'" by (intro sched_inv_one [OF assms(1,2)]) (use assms(3) in auto)
  then have "sched_inv (s\<lparr>sc_fibers := (sc_fibers s)(f \<mapsto> x\<lparr>fb_handles := fb_handles x - 1\<rparr>)\<rparr>)" by simp
  then show ?thesis using assms(2-4) by (simp add: upd_fiber_def the_fiber_def release_def)
qed

text \<open>Steps that obey the discipline keep the invariant and do not fault.\<close>

lemma fiber_step_inv:
  assumes "sched_inv s" "obeys e s" "fiber_step e s = Some r"
  shows "\<exists>s'. r = Inr s' \<and> sched_inv s'"
proof (cases e)
  case Get
  obtain s' where s': "GetThis s = Inr s'" "sched_inv s'" using get_inv [OF assms(1)] by blast
  have "r = GetThis s" using assms(3) Get by (simp split: if_splits)
  with s' show ?thesis by simp
next
  case (New cb sz)
  with assms new_inv [OF assms(1)] show ?thesis by (auto split: if_splits)
next
  case (Configure n)
  with assms configure_inv [OF assms(1)] show ?thesis by (auto split: if_splits)
next
  case (Copy f)
  with assms(2) obtain x where x: "sc_fibers s f = Some x" by (auto split: option.splits)
  with assms(3) Copy handles_inv [OF assms(1) x, of "fb_handles x + 1"] show ?thesis
    by (auto simp: upd_fiber_def the_fiber_def split: if_splits)
next
  case (Drop f)
  with assms(2) obtain x where x: "sc_fibers s f = Some x" by (auto split: option.splits)
  have pos: "sc_pos s = User" using assms(3) Drop by (auto split: if_splits)
  show ?thesis
  proof (cases "sc_main s = Some f")
    case True
    with drop_main_inv [OF assms(1) x True pos] assms(3) Drop show ?thesis by auto
  next
    case False
    with drop_inv [OF assms(1) x _ False] assms(2,3) Drop pos show ?thesis by auto
  qed
next
  case (SwapIn f)
  with assms swapIn_inv [OF assms(1), of f] show ?thesis by (auto split: if_splits)
next
  case (SwapOut f)
  with assms leave_inv [OF assms(1), of f RUNNABLE] show ?thesis
    by (auto simp: Fiber_swapOut_def split: if_splits)
next
  case (Yield f)
  with assms leave_inv [OF assms(1), of f SLEEPING] show ?thesis
    by (auto simp: Fiber_yieldSleeping_def split: if_splits)
next
  case Enter
  with assms(3) obtain f where "sc_flow s = FiberFlow f" "sc_pos s = Entry" "r = MainFunc_enter f s"
    by (auto split: flow.splits flow_pos.splits)
  with enter_inv [OF assms(1)] show ?thesis by blast
next
  case Finish
  with assms(3) obtain f where "sc_flow s = FiberFlow f" "sc_pos s = User" "r = MainFunc_end FREE f s"
    by (auto split: flow.splits flow_pos.splits)
  with end_inv [OF assms(1)] show ?thesis by blast
next
  case Throw
  with assms(3) obtain f where "sc_flow s = FiberFlow f" "sc_pos s = User" "r = MainFunc_end EXCEPT f s"
    by (auto split: flow.splits flow_pos.splits)
  with end_inv [OF assms(1)] show ?thesis by blast
next
  case Exit
  with assms(3) obtain f where "sc_flow s = FiberFlow f" "sc_pos s = Leaving" "r = FiberExit f s"
    by (auto split: flow.splits flow_pos.splits)
  with exit_inv [OF assms(1)] show ?thesis by blast
qed

inductive fiber_run :: "sched \<Rightarrow> bool" where
  fiber_init: "fiber_run sched_init"
| fiber_next: "fiber_run s \<Longrightarrow> obeys e s \<Longrightarrow> fiber_step e s = Some (Inr s') \<Longrightarrow> fiber_run s'"

interpretation fibers: safe_steps fiber_step "\<lambda>_. sched_inv" "\<lambda>_ _ _. ()" obeys
  by unfold_locales (rule fiber_step_inv)

lemma fiber_run_inv: "fiber_run s \<Longrightarrow> sched_inv s"
proof (induction rule: fiber_run.induct)
  case fiber_init
  show ?case by (rule sched_inv_init)
next
  case (fiber_next s e s')
  then show ?case using fibers.step_keeps by blast
qed

text \<open>The life of a fiber whose callback leaves it several times and then ends.\<close>

definition leave_event :: "nat \<Rightarrow> bool \<Rightarrow> fiber_event" where
  "leave_event f sleep = (if sleep then Yield f else SwapOut f)"

definition life :: "nat \<Rightarrow> bool list \<Rightarrow> fiber_event \<Rightarrow> fiber_event list" where
  "life f leaves fin = [SwapIn f, Enter] @ concat (map (\<lambda>l. [leave_event f l, SwapIn f]) leaves) @ [fin, Exit]"

lemma fiber_steps_append: "fiber_steps (es @ fs) s = bindO (fiber_steps es s) (fiber_steps fs)"
proof (induction es arbitrary: s)
  case (Cons e es)
  show ?case
  proof (cases "fiber_step e s")
    case (Some r)
    with Cons show ?thesis by (cases r) simp_all
  qed simp
qed simp

text \<open>Out and in again.\<close>

lemma out_in:
  assumes "sched_inv s" "sc_flow s = FiberFlow f" "sc_pos s = User" "sc_fibers s f = Some x"
  shows "\<exists>s' x'. fiber_steps [leave_event f l, SwapIn f] s = Some (Inr s') \<and> sched_inv s' \<and> sc_main s' = sc_main s \<and>
    sc_flow s' = FiberFlow f \<and> sc_pos s' = User \<and> sc_fibers s' f = Some x' \<and> fb_handles x' = fb_handles x"
proof -
  let ?st = "if l then SLEEPING else RUNNABLE"
  have main: "sc_main s \<noteq> Some f" "sc_main s \<noteq> None" "0 < fb_handles x"
    using sched_invD(6) [OF assms(1,2)] assms(4) by (auto simp: runs_def)
  have "?st \<in> {RUNNABLE, SLEEPING}" by simp
  from leave_inv [OF assms(1-3) this] assms(4) obtain t where t: "leave_fiber ?st f s = Inr t" "sched_inv t"
    "sc_main t = sc_main s" "sc_flow t = ThreadFlow"
    "sc_fibers t f = Some (x\<lparr>fb_status := ?st, fb_ctx := (FiberFlow f, InSwap)\<rparr>)" by auto
  have "obeys (SwapIn f) t" using t main by (simp add: finished_def)
  from swapIn_inv [OF t(2) this] t(5) obtain u where u: "Fiber_swapIn f t = Inr u" "sched_inv u"
    "sc_main u = sc_main t" "sc_flow u = FiberFlow f" "sc_pos u = User"
    "sc_fibers u f = Some (x\<lparr>fb_status := RUNNING, fb_ctx := (FiberFlow f, InSwap)\<rparr>)" by auto
  have "sc_pos t = User" using sched_invD(5) [OF t(2,4)] by simp
  then have "fiber_steps [leave_event f l, SwapIn f] s = Some (Inr u)"
    using t(1) u(1) assms(3) by (simp add: leave_event_def Fiber_swapOut_def Fiber_yieldSleeping_def split: if_splits)
  with u t(3) show ?thesis by (intro exI [of _ u] exI) auto
qed

lemma outs_ins:
  assumes "sched_inv s" "sc_flow s = FiberFlow f" "sc_pos s = User" "sc_fibers s f = Some x"
  shows "\<exists>s' x'. fiber_steps (concat (map (\<lambda>l. [leave_event f l, SwapIn f]) leaves)) s = Some (Inr s') \<and> sched_inv s' \<and>
    sc_main s' = sc_main s \<and> sc_flow s' = FiberFlow f \<and> sc_pos s' = User \<and> sc_fibers s' f = Some x' \<and>
    fb_handles x' = fb_handles x"
  using assms
proof (induction leaves arbitrary: s x)
  case Nil
  then show ?case by simp
next
  case (Cons l ls)
  from out_in [OF Cons.prems, of l] obtain t y where t: "fiber_steps [leave_event f l, SwapIn f] s = Some (Inr t)"
    "sched_inv t" "sc_main t = sc_main s" "sc_flow t = FiberFlow f" "sc_pos t = User" "sc_fibers t f = Some y"
    "fb_handles y = fb_handles x" by blast
  from Cons.IH [OF t(2,4-6)] obtain u z where u:
    "fiber_steps (concat (map (\<lambda>l. [leave_event f l, SwapIn f]) ls)) t = Some (Inr u)" "sched_inv u"
    "sc_main u = sc_main t" "sc_flow u = FiberFlow f" "sc_pos u = User" "sc_fibers u f = Some z"
    "fb_handles z = fb_handles y" by blast
  have "fiber_steps (concat (map (\<lambda>l. [leave_event f l, SwapIn f]) (l # ls))) s =
      bindO (fiber_steps [leave_event f l, SwapIn f] s) (fiber_steps (concat (map (\<lambda>l. [leave_event f l, SwapIn f]) ls)))"
    by (simp only: concat.simps list.map fiber_steps_append)
  with t u show ?case by (intro exI [of _ u] exI [of _ z]) simp
qed

lemma life_ends:
  assumes "sched_inv s" "sc_flow s = ThreadFlow" "sc_main s = Some m" "m \<noteq> f"
    and "sc_fibers s f = Some x" "fb_status x = INIT" "fb_cb x" "fin \<in> {Finish, Throw}"
  shows "\<exists>s' y. fiber_steps (life f leaves fin) s = Some (Inr s') \<and> sched_inv s' \<and> sc_flow s' = ThreadFlow \<and>
    sc_main s' = Some m \<and> sc_fibers s' f = Some y \<and>
    fb_status y = (if fin = Finish then FREE else EXCEPT) \<and> fb_handles y = fb_handles x"
proof -
  have pos: "sc_pos s = User" using sched_invD(5) [OF assms(1,2)] by simp
  have "rests f x" using sched_invD(4) [OF assms(1,5)] assms(2-4) by simp
  then have "0 < fb_handles x" using assms(6) by (simp add: rests_def)
  then have "obeys (SwapIn f) s" using assms by (simp add: finished_def)
  from swapIn_inv [OF assms(1) this] assms(5,6) obtain t where t: "Fiber_swapIn f s = Inr t" "sched_inv t"
    "sc_main t = Some m" "sc_flow t = FiberFlow f" "sc_pos t = Entry" "sc_fibers t f = Some (x\<lparr>fb_status := RUNNING\<rparr>)"
    using assms(3) by auto
  from enter_inv [OF t(2,4,5)] t(6) assms(7) obtain u where u: "MainFunc_enter f t = Inr u" "sched_inv u"
    "sc_main u = Some m" "sc_flow u = FiberFlow f" "sc_pos u = User"
    "sc_fibers u f = Some (x\<lparr>fb_status := RUNNING, fb_own := True\<rparr>)" using t(3) by auto
  from outs_ins [OF u(2,4,5,6), of leaves] obtain v z where v:
    "fiber_steps (concat (map (\<lambda>l. [leave_event f l, SwapIn f]) leaves)) u = Some (Inr v)" "sched_inv v"
    "sc_main v = Some m" "sc_flow v = FiberFlow f" "sc_pos v = User" "sc_fibers v f = Some z" "fb_handles z = fb_handles x"
    using u(3) by auto
  let ?st = "if fin = Finish then FREE else EXCEPT"
  have "?st \<in> {FREE, EXCEPT}" by simp
  from end_inv [OF v(2,4,5) this] v(6) obtain w where w: "MainFunc_end ?st f v = Inr w" "sched_inv w"
    "sc_main w = Some m" "sc_flow w = FiberFlow f" "sc_pos w = Leaving" "sc_fibers w f = Some (z\<lparr>fb_status := ?st\<rparr>)"
    using v(3) by auto
  from exit_inv [OF w(2,4,5)] w(6) obtain q where q: "FiberExit f w = Inr q" "sched_inv q" "sc_main q = Some m"
    "sc_flow q = ThreadFlow" "sc_fibers q f = Some (z\<lparr>fb_status := ?st, fb_own := False, fb_ctx := (FiberFlow f, InExit)\<rparr>)"
    using w(3) by auto
  have "fiber_steps [SwapIn f, Enter] s = Some (Inr u)" using t u(1) pos by simp
  moreover have "fiber_steps [fin, Exit] v = Some (Inr q)"
    using assms(8) v(4,5) w(1,4,5) q(1) by auto
  ultimately have "fiber_steps (life f leaves fin) s = Some (Inr q)"
    using v(1) by (simp only: life_def fiber_steps_append bindO_simps)
  with q v(7) show ?thesis
    by (intro exI [of _ q] exI [of _ "z\<lparr>fb_status := ?st, fb_own := False, fb_ctx := (FiberFlow f, InExit)\<rparr>"]) simp
qed

subsection \<open>Properties\<close>

text \<open>
  C12: As long as the rules are kept, fibers are safe, however many a thread has and in whatever order
  it switches: no step fails an assertion or touches a fiber that was destroyed, the only fiber that
  is RUNNING is the current one, and the count of fibers is right.
\<close>

theorem fiber_safe:
  assumes "fiber_run s" "obeys e s"
  shows "fiber_step e s \<noteq> Some (Inl fault) \<and> sc_total s = int (card (dom (sc_fibers s))) \<and>
    (\<forall>f x. sc_fibers s f = Some x \<longrightarrow> fb_status x = RUNNING \<longrightarrow> sc_main s \<noteq> Some f \<longrightarrow>
       sc_cur s = Some f \<and> sc_flow s = FiberFlow f)"
proof -
  have inv: "sched_inv s" using fiber_run_inv [OF assms(1)] .
  have "sc_cur s = Some f \<and> sc_flow s = FiberFlow f"
    if f: "sc_fibers s f = Some x" "fb_status x = RUNNING" "sc_main s \<noteq> Some f" for f x
  proof -
    have "sc_flow s = FiberFlow f" using sched_invD(4) [OF inv f(1,3)] f(2) by (auto simp: rests_def)
    with sched_invD(6) [OF inv this] show ?thesis by blast
  qed
  moreover have "fiber_step e s \<noteq> Some (Inl fault)" using inv assms(2) by (rule fibers.no_fault)
  ultimately show ?thesis using sched_invD(2) [OF inv] by blast
qed

lemma sample_fiber:
  "\<exists>s x. fiber_run s \<and> sc_flow s = ThreadFlow \<and> sc_main s = Some 0 \<and> sc_fibers s 1 = Some x \<and> fb_status x = INIT \<and>
    fb_cb x \<and> fb_handles x = 1"
proof -
  have "fiber_steps [Get, New True 0] sched_init \<noteq> None"
    by (simp add: sched_init_def GetThis_def Fiber_new_main_def Fiber_create_def Fiber_new_def SetThis_def Let_def)
  then obtain s1 where s1: "fiber_step Get sched_init = Some (Inr s1)" "sc_main s1 = Some 0" "sc_ids s1 = 1"
    "sc_flow s1 = ThreadFlow" "sc_pos s1 = User"
    by (simp add: sched_init_def GetThis_def Fiber_new_main_def Fiber_create_def Fiber_new_def SetThis_def Let_def)
  have "fiber_run s1" using fiber_next [OF fiber_init _ s1(1)] by simp
  moreover have "fiber_step (New True 0) s1 = Some (Inr (Fiber_new True 0 s1))" using s1(5) by simp
  ultimately have "fiber_run (Fiber_new True 0 s1)" using fiber_next [of s1 "New True 0"] by simp
  with s1 show ?thesis
    by (intro exI [of _ "Fiber_new True 0 s1"]) (simp add: Fiber_new_def Fiber_create_def Let_def)
qed

theorem fiber_safe_witness:
  "\<exists>s. fiber_run s \<and> fiber_step (SwapIn 1) s \<noteq> Some (Inl AssertFailed) \<and> sc_total s = int (card (dom (sc_fibers s)))"
proof -
  obtain s x where s: "fiber_run s" "sc_flow s = ThreadFlow" "sc_main s = Some 0" "sc_fibers s 1 = Some x"
    "fb_status x = INIT" "fb_handles x = 1" using sample_fiber by blast
  have "obeys (SwapIn 1) s" using s by (simp add: finished_def)
  from fiber_safe [OF s(1) this, of AssertFailed] s(1) show ?thesis by blast
qed

text \<open>
  C13: A fiber whose callback leaves it any number of times, by \<open>swapOut\<close> or \<open>yieldSleeping\<close>, and then
  returns or throws, comes to its end by being swapped in once more than that, and the thread goes
  on; the fiber is then FREE, or EXCEPT if it threw, and is destroyed with its last reference.
\<close>

theorem fiber_finishes:
  assumes "fiber_run s" "sc_flow s = ThreadFlow" "sc_main s = Some m" "m \<noteq> f" "sc_fibers s f = Some x"
    and "fb_status x = INIT" "fb_cb x" "fb_handles x = 1" "fin \<in> {Finish, Throw}"
  shows "\<exists>s' y s''. fiber_steps (life f leaves fin) s = Some (Inr s') \<and> sc_flow s' = ThreadFlow \<and>
    sc_fibers s' f = Some y \<and> fb_status y = (if fin = Finish then FREE else EXCEPT) \<and>
    fiber_step (Drop f) s' = Some (Inr s'') \<and> sc_fibers s'' f = None \<and> sc_total s'' = sc_total s' - 1"
proof -
  obtain s' y where s': "fiber_steps (life f leaves fin) s = Some (Inr s')" "sched_inv s'" "sc_flow s' = ThreadFlow"
    "sc_main s' = Some m" "sc_fibers s' f = Some y" "fb_status y = (if fin = Finish then FREE else EXCEPT)"
    "fb_handles y = 1"
    using life_ends [OF fiber_run_inv [OF assms(1)] assms(2-7,9), of leaves] assms(8) by auto
  have "sc_pos s' = User" using sched_invD(5) [OF s'(2,3)] by simp
  with drop_inv [OF s'(2,5)] s' assms(4) show ?thesis by (auto simp: finished_def split: if_splits)
qed

theorem fiber_finishes_witness:
  "\<exists>s s'. fiber_run s \<and> fiber_steps (life 1 [True, False] Throw) s = Some (Inr s') \<and> sc_flow s' = ThreadFlow"
proof -
  obtain s x where s: "fiber_run s" "sc_flow s = ThreadFlow" "sc_main s = Some 0" "sc_fibers s 1 = Some x"
    "fb_status x = INIT" "fb_cb x" "fb_handles x = 1" using sample_fiber by blast
  have "(0 :: nat) \<noteq> 1" "Throw \<in> {Finish, Throw}" by simp_all
  from fiber_finishes [OF s(1-3) this(1) s(4-7) this(2), of "[True, False]"] s(1) show ?thesis by blast
qed

text \<open>A fiber that drops the last reference to itself, step by step.\<close>

lemma self_drop:
  assumes "rests f x" "fb_status x = INIT" "fb_cb x" "fb_handles x = 1" "sc_cur s = Some m" "sc_pos s = User"
    and "sc_main s = Some m" "m \<noteq> f" "sc_fibers s m = Some y" "sc_fibers s f = Some x"
  shows "fiber_steps [SwapIn f, Enter, Drop f, Finish, Exit] s = Some (Inl UseAfterFree)"
proof -
  have x: "fb_ctx x = (FiberFlow f, AtEntry)" "\<not> fb_own x" using assms(1,2) by (auto simp: rests_def)
  note defs = SetThis_def release_def the_fiber_def upd_fiber_def main_fiber_def swapcontext_def
  obtain s1 where s1: "fiber_step (SwapIn f) s = Some (Inr s1)" "sc_flow s1 = FiberFlow f" "sc_pos s1 = Entry"
    "sc_cur s1 = Some f" "sc_main s1 = Some m" "sc_fibers s1 f = Some (x\<lparr>fb_status := RUNNING\<rparr>)"
    using x assms by (simp add: Fiber_swapIn_def defs)
  obtain s2 x2 where s2: "fiber_step Enter s1 = Some (Inr s2)" "sc_flow s2 = FiberFlow f" "sc_pos s2 = User"
    "sc_cur s2 = Some f" "sc_main s2 = Some m" "sc_fibers s2 f = Some x2" "fb_handles x2 = 1" "fb_own x2"
    using s1(2-6) assms(3,4) by (simp add: MainFunc_enter_def defs)
  obtain s3 x3 where s3: "fiber_step (Drop f) s2 = Some (Inr s3)" "sc_flow s3 = FiberFlow f" "sc_pos s3 = User"
    "sc_cur s3 = Some f" "sc_main s3 = Some m" "sc_fibers s3 f = Some x3" "fb_handles x3 = 0" "fb_own x3"
    using s2(2-8) by (simp add: defs)
  obtain s4 x4 where s4: "fiber_step Finish s3 = Some (Inr s4)" "sc_flow s4 = FiberFlow f" "sc_pos s4 = Leaving"
    "sc_cur s4 = Some f" "sc_main s4 = Some m" "sc_fibers s4 f = Some x4" "fb_handles x4 = 0" "fb_status x4 = FREE"
    using s3(2-8) by (simp add: MainFunc_end_def defs)
  have "fiber_step Exit s4 = Some (Inl UseAfterFree)"
    using s4(2-8) assms(8) by (simp add: FiberExit_def defs Fiber_destroy_def)
  with s1(1) s2(1) s3(1) s4(1) show ?thesis by (simp del: fiber_step.simps)
qed

text \<open>
  C37: What happens when the rules are broken: swapping a finished fiber in goes on behind its end
  and fails the assertion there, dropping the last reference to a fiber that was never swapped in
  fails the assertion of the destructor, and a fiber that drops the last reference to itself frees,
  when it has ended, the stack it still runs on.
\<close>

theorem fiber_misuse:
  assumes "fiber_run s" "sc_flow s = ThreadFlow" "sc_main s = Some m" "m \<noteq> f" "sc_fibers s f = Some x"
  shows "(finished x \<longrightarrow> fiber_step (SwapIn f) s = Some (Inl AssertFailed)) \<and>
    (fb_status x = INIT \<and> fb_handles x = 1 \<longrightarrow> fiber_step (Drop f) s = Some (Inl AssertFailed)) \<and>
    (fb_status x = INIT \<and> fb_cb x \<and> fb_handles x = 1 \<longrightarrow>
       fiber_steps [SwapIn f, Enter, Drop f, Finish, Exit] s = Some (Inl UseAfterFree))"
proof -
  have inv: "sched_inv s" using fiber_run_inv [OF assms(1)] .
  have cur: "sc_cur s = Some m" "sc_pos s = User" using sched_invD(5) [OF inv assms(2)] assms(3) by auto
  obtain y where y: "sc_fibers s m = Some y" using sched_invD(3) [OF inv assms(3)] by blast
  have rest: "rests f x" using sched_invD(4) [OF inv assms(5)] assms(2-4) by simp
  have "Fiber_swapIn f s = Inl AssertFailed" if "finished x"
  proof -
    have "fb_ctx x = (FiberFlow f, InExit)" using rest that by (auto simp: rests_def finished_def)
    then show ?thesis using cur y assms(3-5)
      by (simp add: Fiber_swapIn_def SetThis_def release_def the_fiber_def upd_fiber_def main_fiber_def swapcontext_def)
  qed
  moreover have "fiber_step (Drop f) s = Some (Inl AssertFailed)" if "fb_status x = INIT" "fb_handles x = 1"
    using rest that cur assms(3-5)
    by (simp add: rests_def upd_fiber_def the_fiber_def release_def Fiber_destroy_def)
  moreover have "fiber_steps [SwapIn f, Enter, Drop f, Finish, Exit] s = Some (Inl UseAfterFree)"
    if "fb_status x = INIT" "fb_cb x" "fb_handles x = 1"
    using self_drop [OF rest that cur assms(3,4) y assms(5)] .
  ultimately show ?thesis using cur(2) by simp
qed

theorem fiber_misuse_witness:
  "\<exists>s. fiber_run s \<and> fiber_step (Drop 1) s = Some (Inl AssertFailed)"
proof -
  obtain s x where s: "fiber_run s" "sc_flow s = ThreadFlow" "sc_main s = Some 0" "sc_fibers s 1 = Some x"
    "fb_status x = INIT" "fb_handles x = 1" using sample_fiber by blast
  have "(0 :: nat) \<noteq> 1" by simp
  from fiber_misuse [OF s(1-3) this s(4)] s(1,5,6) show ?thesis by blast
qed

end
