(* ===== verification/Timestamp.thy ===== *)
theory Timestamp
  imports Prelude
begin

text \<open>
  Points in time, \<open>timestamp.h\<close> and \<open>timestamp.cpp\<close>: a 64-bit signed count of microseconds, made
  from the clock of the system, compared, subtracted and moved. Its arithmetic is signed, so every
  result is tested for overflow. The operators of the source make the type a linear order.
\<close>

subsection \<open>Operations\<close>

datatype timestamp = Timestamp (microSeconds: "64 word")

definition kMicroSecondsPerSecond :: "64 word" where
  "kMicroSecondsPerSecond = 1000 * 1000"

definition Timestamp_new :: timestamp where
  "Timestamp_new = Timestamp 0"

definition valid :: "timestamp \<Rightarrow> bool" where
  "valid t \<longleftrightarrow> 0 <s microSeconds t"

definition Timestamp_less :: "timestamp \<Rightarrow> timestamp \<Rightarrow> bool" where
  "Timestamp_less lhs rhs \<longleftrightarrow> microSeconds lhs <s microSeconds rhs"

definition Timestamp_equal :: "timestamp \<Rightarrow> timestamp \<Rightarrow> bool" where
  "Timestamp_equal lhs rhs \<longleftrightarrow> microSeconds lhs = microSeconds rhs"

text \<open>A result of the type \<open>long long\<close>.\<close>

definition int64R :: "int \<Rightarrow> 64 word res" where
  "int64R x = (if - (2 ^ 63) \<le> x \<and> x < 2 ^ 63 then Inr (word_of_int x) else Inl SignedOverflow)"

definition Timestamp_minus :: "timestamp \<Rightarrow> timestamp \<Rightarrow> 64 word res" where
  "Timestamp_minus high low = int64R (sint (microSeconds high) - sint (microSeconds low))"

definition Timestamp_plus :: "timestamp \<Rightarrow> timestamp \<Rightarrow> timestamp res" where
  "Timestamp_plus high low =
     bindR (int64R (sint (microSeconds high) + sint (microSeconds low))) (\<lambda>us. Inr (Timestamp us))"

definition Timestamp_plus_seconds :: "timestamp \<Rightarrow> 32 word \<Rightarrow> timestamp res" where
  "Timestamp_plus_seconds high seconds =
     bindR (int64R (sint seconds * sint kMicroSecondsPerSecond)) (\<lambda>k.
     bindR (int64R (sint (microSeconds high) + sint k)) (\<lambda>us. Inr (Timestamp us)))"

text \<open>\<open>now\<close>, from the seconds and the microseconds \<open>gettimeofday\<close> stores.\<close>

definition Timestamp_now :: "64 word \<times> 64 word \<Rightarrow> timestamp res" where
  "Timestamp_now tv =
     bindR (int64R (sint (fst tv) * sint kMicroSecondsPerSecond)) (\<lambda>k.
     bindR (int64R (sint k + sint (snd tv))) (\<lambda>us. Inr (Timestamp us)))"

subsection \<open>The order\<close>

lemma Timestamp_equal_eq [simp]: "Timestamp_equal a b \<longleftrightarrow> a = b"
  by (cases a; cases b) (simp add: Timestamp_equal_def)

lemma word64_eq_sint: "p = q \<longleftrightarrow> sint p = sint (q :: 64 word)"
  by (auto intro: signed_word_eqI)

lemma timestamp_eq_sint: "a = b \<longleftrightarrow> sint (microSeconds a) = sint (microSeconds b)"
  by (cases a; cases b) (simp add: word64_eq_sint)

instantiation timestamp :: linorder
begin

definition less_timestamp :: "timestamp \<Rightarrow> timestamp \<Rightarrow> bool" where
  "less_timestamp a b \<longleftrightarrow> Timestamp_less a b"

definition less_eq_timestamp :: "timestamp \<Rightarrow> timestamp \<Rightarrow> bool" where
  "less_eq_timestamp a b \<longleftrightarrow> Timestamp_less a b \<or> Timestamp_equal a b"

lemma less_timestamp_sint: "a < b \<longleftrightarrow> sint (microSeconds a) < sint (microSeconds b)"
  unfolding less_timestamp_def Timestamp_less_def word_sless_alt ..

lemma less_eq_timestamp_sint: "a \<le> b \<longleftrightarrow> sint (microSeconds a) \<le> sint (microSeconds b)"
  unfolding less_eq_timestamp_def Timestamp_less_def word_sless_alt Timestamp_equal_eq timestamp_eq_sint by linarith

instance
proof
  fix x y z :: timestamp
  show "x < y \<longleftrightarrow> x \<le> y \<and> \<not> y \<le> x" unfolding less_timestamp_sint less_eq_timestamp_sint by linarith
  show "x \<le> x" unfolding less_eq_timestamp_sint by simp
  show "x \<le> y \<Longrightarrow> y \<le> z \<Longrightarrow> x \<le> z" unfolding less_eq_timestamp_sint by linarith
  show "x \<le> y \<Longrightarrow> y \<le> x \<Longrightarrow> x = y" unfolding less_eq_timestamp_sint timestamp_eq_sint by linarith
  show "x \<le> y \<or> y \<le> x" unfolding less_eq_timestamp_sint by linarith
qed

end

subsection \<open>Arithmetic on the values\<close>

lemma sint_word_of_int64: "- (2 ^ 63) \<le> x \<Longrightarrow> x < 2 ^ 63 \<Longrightarrow> sint (word_of_int x :: 64 word) = x"
  by (simp add: sint_sbintrunc' signed_take_bit_int_eq_self)

lemma sint_64: "- (2 ^ 63) \<le> sint (w :: 64 word)" "sint (w :: 64 word) < 2 ^ 63"
  using sint_range_size [of w] by (simp_all add: word_size)

lemma sint_32: "- (2 ^ 31) \<le> sint (w :: 32 word)" "sint (w :: 32 word) < 2 ^ 31"
  using sint_range_size [of w] by (simp_all add: word_size)

lemma int64R_Inr: "int64R x = Inr w \<longleftrightarrow> sint w = x"
  using sint_64 [of w] sint_word_of_int64 [of x] by (auto simp: int64R_def)

lemma sint_k [simp]: "sint kMicroSecondsPerSecond = 1000000"
  by (simp add: kMicroSecondsPerSecond_def)

lemma now_Inr:
  "Timestamp_now tv = Inr a \<longleftrightarrow> sint (microSeconds a) = sint (fst tv) * 1000000 + sint (snd tv) \<and>
     - (2 ^ 63) \<le> sint (fst tv) * 1000000 \<and> sint (fst tv) * 1000000 < 2 ^ 63"
proof
  assume "Timestamp_now tv = Inr a"
  then obtain k us where "int64R (sint (fst tv) * 1000000) = Inr k" "int64R (sint k + sint (snd tv)) = Inr us" "a = Timestamp us"
    by (auto simp: Timestamp_now_def bindR_eq_Inr_iff)
  then show "sint (microSeconds a) = sint (fst tv) * 1000000 + sint (snd tv) \<and>
     - (2 ^ 63) \<le> sint (fst tv) * 1000000 \<and> sint (fst tv) * 1000000 < 2 ^ 63"
    using sint_64 [of k] by (simp add: int64R_Inr)
next
  let ?k = "word_of_int (sint (fst tv) * 1000000) :: 64 word"
  assume a: "sint (microSeconds a) = sint (fst tv) * 1000000 + sint (snd tv) \<and>
     - (2 ^ 63) \<le> sint (fst tv) * 1000000 \<and> sint (fst tv) * 1000000 < 2 ^ 63"
  then have k: "sint ?k = sint (fst tv) * 1000000" using sint_word_of_int64 by blast
  then have "int64R (sint (fst tv) * 1000000) = Inr ?k" "int64R (sint ?k + sint (snd tv)) = Inr (microSeconds a)"
    using a by (simp_all only: int64R_Inr)
  then show "Timestamp_now tv = Inr a" by (simp add: Timestamp_now_def)
qed

lemma plus_seconds_Inr:
  "Timestamp_plus_seconds a s = Inr b \<longleftrightarrow> sint (microSeconds b) = sint (microSeconds a) + sint s * 1000000"
proof -
  have s: "- (2 ^ 63) \<le> sint s * 1000000" "sint s * 1000000 < 2 ^ 63" using sint_32 [of s] by simp_all
  let ?k = "word_of_int (sint s * 1000000) :: 64 word"
  have k: "sint ?k = sint s * 1000000" using s by (rule sint_word_of_int64)
  then have "int64R (sint s * 1000000) = Inr ?k" by (simp only: int64R_Inr)
  then have "Timestamp_plus_seconds a s = bindR (int64R (sint (microSeconds a) + sint ?k)) (\<lambda>us. Inr (Timestamp us))"
    by (simp add: Timestamp_plus_seconds_def)
  also have "\<dots> = Inr b \<longleftrightarrow> int64R (sint (microSeconds a) + sint ?k) = Inr (microSeconds b)"
    by (cases b) (auto simp: bindR_eq_Inr_iff)
  finally show ?thesis unfolding k int64R_Inr by auto
qed

lemma digits_order:
  fixes a b :: int
  assumes "0 \<le> u" "u < 1000000" "0 \<le> v" "v < 1000000"
  shows "a * 1000000 + u < b * 1000000 + v \<longleftrightarrow> a < b \<or> a = b \<and> u < v"
  using assms by (cases a b rule: linorder_cases) linarith+

lemma digits_equal:
  fixes a b :: int
  assumes "0 \<le> u" "u < 1000000" "0 \<le> v" "v < 1000000"
  shows "a * 1000000 + u = b * 1000000 + v \<longleftrightarrow> a = b \<and> u = v"
  using assms by (cases a b rule: linorder_cases) linarith+

subsection \<open>Properties\<close>

text \<open>
  Timestamps of the clock are ordered as its readings are, by seconds and then microseconds;
  moving one by seconds gives the timestamp of the clock so many seconds later, and their
  difference is the microseconds between them, whenever that fits 64 bits.
\<close>

theorem timestamp_clock:
  assumes "Timestamp_now (sec, usec) = Inr a" "Timestamp_now (sec', usec') = Inr b"
    and "sint usec \<in> {0..<1000000}" "sint usec' \<in> {0..<1000000}"
  shows "(a < b \<longleftrightarrow> sint sec < sint sec' \<or> sec = sec' \<and> sint usec < sint usec') \<and>
    (a = b \<longleftrightarrow> sec = sec' \<and> usec = usec') \<and>
    (sint sec' = sint sec + sint n \<and> usec' = usec \<longleftrightarrow> Timestamp_plus_seconds a n = Inr b) \<and>
    Timestamp_minus b a = int64R ((sint sec' - sint sec) * 1000000 + (sint usec' - sint usec))"
proof -
  have v: "sint (microSeconds a) = sint sec * 1000000 + sint usec" "sint (microSeconds b) = sint sec' * 1000000 + sint usec'"
    using assms(1,2) by (simp_all add: now_Inr)
  have u: "0 \<le> sint usec" "sint usec < 1000000" "0 \<le> sint usec'" "sint usec' < 1000000" using assms(3,4) by simp_all
  have "a < b \<longleftrightarrow> sint sec < sint sec' \<or> sec = sec' \<and> sint usec < sint usec'"
    unfolding less_timestamp_sint v digits_order [OF u] word64_eq_sint ..
  moreover have "a = b \<longleftrightarrow> sec = sec' \<and> usec = usec'"
    unfolding timestamp_eq_sint v word64_eq_sint by (rule digits_equal [OF u])
  moreover have "sint sec' = sint sec + sint n \<and> usec' = usec \<longleftrightarrow> Timestamp_plus_seconds a n = Inr b"
    unfolding plus_seconds_Inr v word64_eq_sint using digits_equal [OF u(3,4,1,2), of "sint sec'" "sint sec + sint n"]
    by (simp add: algebra_simps)
  moreover have "sint (microSeconds b) - sint (microSeconds a) = (sint sec' - sint sec) * 1000000 + (sint usec' - sint usec)"
    unfolding v by simp
  then have "Timestamp_minus b a = int64R ((sint sec' - sint sec) * 1000000 + (sint usec' - sint usec))"
    unfolding Timestamp_minus_def by simp
  ultimately show ?thesis by blast
qed

theorem timestamp_clock_witness:
  "\<exists>a b. Timestamp_now (1, 500000) = Inr a \<and> Timestamp_now (3, 0) = Inr b \<and> a < b \<and>
    Timestamp_minus b a = Inr 1500000"
proof -
  have now: "Timestamp_now (1, 500000) = Inr (Timestamp 1500000)" "Timestamp_now (3, 0) = Inr (Timestamp 3000000)"
    by (simp_all add: now_Inr)
  show ?thesis
    using timestamp_clock [OF now, of 0] now by (simp add: int64R_def)
qed

end
