(* ===== verification/Hook.thy ===== *)
theory Hook
  imports Prelude
begin

text \<open>
  The hooks of \<open>hook.h\<close> and \<open>hook.cpp\<close>: the library redefines \<open>sleep\<close> and \<open>usleep\<close>. A thread that
  has switched its hooks on gets the library's versions, every other one the functions of the C
  library, which the initialiser of a static object looks up.
\<close>

subsection \<open>State\<close>

text \<open>
  \<open>t_hooked\<close> is a flag of each thread, \<open>sleep_f\<close> and \<open>usleep_f\<close> are the functions found, null until
  then. What a function of the C library does is its effect on a system of some type, and its value.
\<close>

type_synonym 's libc = "32 word \<Rightarrow> 's \<Rightarrow> 32 word \<times> 's"

record 's hooks =
  hk_hooked :: "nat \<Rightarrow> bool"
  hk_sleep_f :: "'s libc option"
  hk_usleep_f :: "'s libc option"
  hk_out :: string
  hk_system :: 's

definition hooks_init :: "'s \<Rightarrow> 's hooks" where
  "hooks_init sys = \<lparr>hk_hooked = (\<lambda>_. False), hk_sleep_f = None, hk_usleep_f = None, hk_out = [], hk_system = sys\<rparr>"

definition is_hooked :: "nat \<Rightarrow> 's hooks \<Rightarrow> bool" where
  "is_hooked t s = hk_hooked s t"

definition set_hook_enable :: "nat \<Rightarrow> 's hooks \<Rightarrow> 's hooks" where
  "set_hook_enable t s = s\<lparr>hk_hooked := (hk_hooked s)(t := True)\<rparr>"

definition set_hook_disable :: "nat \<Rightarrow> 's hooks \<Rightarrow> 's hooks" where
  "set_hook_disable t s = s\<lparr>hk_hooked := (hk_hooked s)(t := False)\<rparr>"

text \<open>The constructor of \<open>Init\<close>, with \<open>dlsym\<close> as a parameter.\<close>

definition Init_new :: "(string \<Rightarrow> 's libc option) \<Rightarrow> 's hooks \<Rightarrow> 's hooks" where
  "Init_new dlsym s = s\<lparr>hk_sleep_f := dlsym ''sleep'', hk_usleep_f := dlsym ''usleep''\<rparr>"

subsection \<open>The redefined functions\<close>

definition call_libc :: "'s libc option \<Rightarrow> 32 word \<Rightarrow> 's hooks \<Rightarrow> (32 word \<times> 's hooks) res" where
  "call_libc f n s =
     (case f of None \<Rightarrow> Inl NullDeref
      | Some f \<Rightarrow> let (r, sys) = f n (hk_system s) in Inr (r, s\<lparr>hk_system := sys\<rparr>))"

definition sleep :: "nat \<Rightarrow> 32 word \<Rightarrow> 's hooks \<Rightarrow> (32 word \<times> 's hooks) res" where
  "sleep t seconds s =
     (if \<not> is_hooked t s then call_libc (hk_sleep_f s) seconds s
      else Inr (0, s\<lparr>hk_out := hk_out s @ ''hook sleep success!'' @ [CHR 0x0A]\<rparr>))"

definition usleep :: "nat \<Rightarrow> 32 word \<Rightarrow> 's hooks \<Rightarrow> (32 word \<times> 's hooks) res" where
  "usleep t usec s =
     (if \<not> is_hooked t s then call_libc (hk_usleep_f s) usec s
      else Inr (0, s\<lparr>hk_out := hk_out s @ ''hook usleep success!'' @ [CHR 0x0A]\<rparr>))"

subsection \<open>Which function is called\<close>

text \<open>Switching the hooks of one thread leaves the others alone.\<close>

lemma is_hooked_switch [simp]:
  "is_hooked t (set_hook_enable t' s) \<longleftrightarrow> t = t' \<or> is_hooked t s"
  "is_hooked t (set_hook_disable t' s) \<longleftrightarrow> t \<noteq> t' \<and> is_hooked t s"
  "is_hooked t (Init_new dlsym s) = is_hooked t s" "\<not> is_hooked t (hooks_init sys)"
  by (auto simp: is_hooked_def set_hook_enable_def set_hook_disable_def Init_new_def hooks_init_def)

text \<open>A hooked thread does not sleep at all: the system is as it was.\<close>

lemma hooked_sleep:
  assumes "is_hooked t s"
  shows "\<exists>s'. sleep t n s = Inr (0, s') \<and> hk_system s' = hk_system s"
    "\<exists>s'. usleep t n s = Inr (0, s') \<and> hk_system s' = hk_system s"
  using assms by (auto simp: sleep_def usleep_def)

text \<open>Before the static object is made, in another initialiser say, a plain call has no target.\<close>

lemma sleep_too_early: "sleep t n (hooks_init sys) = Inl NullDeref" "usleep t n (hooks_init sys) = Inl NullDeref"
  by (simp_all add: sleep_def usleep_def call_libc_def) (simp_all add: hooks_init_def)

lemma sleep_after_init:
  assumes "dlsym ''sleep'' = Some f" "\<not> is_hooked t s" "f n (hk_system s) = (r, sys)"
  shows "sleep t n (Init_new dlsym s) = Inr (r, (Init_new dlsym s)\<lparr>hk_system := sys\<rparr>)"
  using assms by (simp add: sleep_def call_libc_def) (simp add: Init_new_def)

end
