(* ===== verification/Spec2Isabelle.thy ===== *)
theory Spec2Isabelle
  imports Prelude ByteOrder ZigZag SerBuffer SerWire SerCodec SerPerson LinkedList ListDemo SkipNodes SkipList
    LogFormat DateTime LogStream AsyncLog Logger LoggerInit LogProgram LexCast Config ConfigThreads
    Mutex MessageQueue Threads ThreadPool Fiber Timestamp Hook
begin

text \<open>
  \<^bold>\<open>A verification library of cpp-utils.\<close>

  The repository is a collection of C++ utilities: a serializer (\<open>serialize/\<close>), containers (\<open>ds/\<close>),
  an asynchronous log (\<open>log/\<close>), configuration variables (\<open>config/\<close>), threads, locks and coroutines
  (\<open>cct/\<close>, \<open>itc/\<close>), time stamps and hooked system functions. The theories translate them operation
  by operation. A C++ run that leaves the defined behaviour, or stops the process, is a value
  \<open>Inl fault\<close> of the result type (\<open>Prelude\<close>); a call that does not return, or a step that would wait,
  is \<open>None\<close>. Exceptions are values of their own (\<open>LexCast\<close>). The concurrent components are systems
  that move in steps; the locales \<open>safe_steps\<close> and \<open>logged_steps\<close> of \<open>Prelude\<close> state what an
  invariant of such a system promises, and are interpreted for the back end of the log, the making of
  the log's instance, configuration variables, the message queue, the life of a thread, the thread
  pool and the fibers.

  \<^bold>\<open>How the parts interact.\<close> A thread logs through \<open>Logger\<close>, which gives it a \<open>LogStream\<close> of its
  own; the stream formats numbers and times, and passes its bytes to an output function, which
  \<open>AsyncLogInit\<close> makes the back end \<open>AsyncLogging\<close>. The thread pool hands its tasks to its threads
  through the message queue, which is built of the lock and the condition variable. The size of a
  fiber's stack is a configuration variable. \<open>Person\<close> is a client of the serializer.

  \<^bold>\<open>The serializer\<close> (\<open>serialize/serialize.cpp\<close>, \<open>serialize.h\<close>, \<open>example.hpp\<close>).
    \<^item> \<open>ByteOrder\<close>: bytes of a word in both orders, and that storing and loading are inverse.
    \<^item> \<open>ZigZag\<close>: the six zigzag functions, with the signed overflow of two of them.
    \<^item> \<open>SerBuffer\<close>: the container, a chain of blocks with a cursor (\<open>write\<close>, \<open>read\<close>, \<open>reset\<close>,
      \<open>toString\<close>). The lemmas say when writes come back in order, and what happens when a write
      fills the first block: the cursor stays in the old block.
    \<^item> \<open>SerWire\<close>: the typed writers and readers. \<open>SerCodec\<close> proves their round trips by way of the
      locales \<open>wire_field\<close>, \<open>wire_scalar\<close> and \<open>wire_pair\<close>, each interpreted for the writers of the
      code. The readers' loop needs no fuel: its measure is the bits that are left.
    \<^item> \<open>SerPerson\<close>: \<open>toFile\<close>, \<open>fromFile\<close> and the message of the example.

  \<^bold>\<open>Containers\<close> (\<open>ds/list.h\<close>, \<open>ds/kv_skiplist.h\<close>).
    \<^item> \<open>LinkedList\<close>: items in a heap; \<open>rep\<close> relates it to a list of values, the locale
      \<open>positional_list\<close> states the interface, and every sequence of calls refines the list.
    \<^item> \<open>ListDemo\<close>: the program \<open>ds/list.cpp\<close> as a client of that interface, with everything that
      reaches the standard output, the messages of the list included.
    \<^item> \<open>SkipNodes\<close>, \<open>SkipList\<close>: nodes with an array of pointers, the search from level to level, the
      random levels as an argument; \<open>skl_inv\<close> says that every level is a sorted subsequence of the
      one below. The locale \<open>kv_store\<close> states the interface of a map.

  \<^bold>\<open>The log\<close> (\<open>log/\<close>).
    \<^item> \<open>LogFormat\<close>, \<open>DateTime\<close>: digits of numbers, and the calendar computed by \<open>FastSecondToDate\<close>
      against one that goes day by day.
    \<^item> \<open>LogStream\<close>: the buffer of a thread; \<open>stream_inv\<close> says that what was passed on and what is
      still there make up all records, \<open>whole_messages\<close> that each message ends with a record. The
      records the theorems speak of are those of \<open>rec_ok\<close>: shorter than the buffer, without negative
      integers, which the code prints wrongly, and in range. The locale \<open>log_sink\<close> is what a stream relies on of the
      output function; the standard output and the back end are instances of it.
    \<^item> \<open>AsyncLog\<close>: front ends, back end and \<open>stop\<close> as steps of an interleaving. \<open>async_inv\<close> says
      where the appended text is; a stop takes at most ten steps, as \<open>stop_finishes\<close> shows. The
      counts of bytes are \<open>int\<close>s and wrap.
    \<^item> \<open>Logger\<close>: the instance and the static object that makes and releases it, its level, the
      streams of the threads, the macros and the release. Levels are a linear order.
    \<^item> \<open>LoggerInit\<close>: the double-checked lock of \<open>getInstance\<close>, step by step, with and without the
      reordering its comment fears; \<open>Logger\<close> takes the call for one step.
    \<^item> \<open>LogProgram\<close>: the life of the log in a program, which puts the other theories together.

  \<^bold>\<open>Configuration\<close> (\<open>config/config.h\<close>, \<open>config/config.cpp\<close>).
    \<^item> \<open>LexCast\<close>: the conversions between containers and strings. yaml-cpp is a parameter, a record
      of the functions the code calls; \<open>yaml_ok\<close> states what its documentation says of them. The
      round trips also assume of the nodes that are built that loading what was dumped gives a node
      of the same content (\<open>same_content\<close>); its style may differ, so elements have to come back in
      whatever style they are shown. A library of trees, with containers in block and in flow style,
      shows that all this can hold.
    \<^item> \<open>Config\<close>: variables with their callback, the registry, and loading. The recursion over the
      nodes of a file has the depth of the tree as fuel, and \<open>tree_ok\<close> says that it is enough.
    \<^item> \<open>ConfigThreads\<close>: one variable used by many threads, each call cut where it locks and unlocks;
      a call that is not disturbed is one of \<open>Config\<close>, and the log of changes and reports says what
      is left of that when calls overlap.

  \<^bold>\<open>Threads\<close> (\<open>cct/\<close>, \<open>itc/mq.h\<close>).
    \<^item> \<open>Mutex\<close>: lock, guard and condition variable. The locale \<open>exclusive\<close> states what a lock promises
      its clients, and is interpreted for the guard; \<open>LoggerInit\<close> and \<open>ConfigThreads\<close> rest on it.
    \<^item> \<open>MessageQueue\<close>: the queue. A call is cut where it locks, waits and unlocks; \<open>mq_inv\<close> relates
      the places of the threads, the lock and the waiting set.
    \<^item> \<open>Threads\<close>: the semaphore and the life of a \<open>Thread\<close> object beside the thread it starts;
      \<open>life_obeys\<close> states the rules of use.
    \<^item> \<open>ThreadPool\<close>: the pool, its threads in \<open>thread_routine\<close>, and the pool as clients and workers
      of the message queue; \<open>worker_place_step\<close> relates the two.
    \<^item> \<open>Fiber\<close>: the fibers of one thread with their saved contexts and the references to them.
      \<open>obeys\<close> states the rules of use, and \<open>sched_inv\<close> holds as long as they are kept.

  \<^bold>\<open>Small parts.\<close> \<open>Timestamp\<close> (\<open>timestamp.h\<close>, \<open>timestamp.cpp\<close>) and \<open>Hook\<close> (\<open>hook.h\<close>, \<open>hook.cpp\<close>).

  \<^bold>\<open>Not modelled.\<close>
    \<^item> Memory is sequentially consistent, but for the one reordering in \<open>LoggerInit\<close>; data races are
      otherwise outside the development, and so is the race of \<open>SkipList::find\<close>, which reads outside
      the lock.
    \<^item> Files are lists of strings and never fail; the renaming of old log files is done by a Python
      script (\<open>log/jiaoben.cpp\<close>).
    \<^item> Addresses are unbounded counters, so memory never runs out but where the code tests for it.
    \<^item> What a task or a callback does, and whether the stack of a fiber is large enough for it. A
      callback of a variable does not use that variable; \<open>operator==\<close> of the values is equality.
    \<^item> The fibers are those of one thread: the counter of their numbers, global in the code, is one of
      the thread and unbounded, references to the main fiber are not handed out, and \<open>malloc\<close> of a
      stack succeeds.
    \<^item> Forming a pointer past the end of a block of the serializer is no fault, only its use is.
    \<^item> Messages printed by the containers outside \<open>ListDemo\<close>, and log records the library writes about
      itself; printing a \<open>Person\<close>; \<open>ds/hashtable.h\<close>, which has declarations only; the tests, which
      exercise the operations on examples.
\<close>

end
